(* ===== verification/Prelude.thy ===== *)
theory Prelude
  imports Main "HOL-Library.Word"
begin

unbundle bit_operations_syntax

text \<open>
  Shared vocabulary of the development.

  \<^item> C integers are \<^typ>\<open>int\<close> values; the width is written out where the code computes:
    \<open>s16\<close>, \<open>s32\<close>, \<open>s64\<close> are the two's complement reading of the low 16, 32 or 64 bits
    (what gcc stores in a \<open>short\<close>, an \<open>int\<close>, a \<open>long\<close> or \<open>long long\<close>), \<open>u32\<close> and \<open>u64\<close>
    the unsigned ones.
  \<^item> \<open>std::string\<close> and raw byte buffers are \<^typ>\<open>string\<close>: a \<^typ>\<open>char\<close> is one byte.
  \<^item> \<open>std::map<K,V>\<close> is a list of pairs in iteration order, with the comparison object
    \<open>K::operator<\<close> as an argument of every operation, as in the C++ template;
    \<open>std::set<K>\<close> is the list of its elements in the same way. The locale \<open>std_map\<close>
    is the contract the containers keep whenever the comparison is a strict total order
    on the keys in use; it is interpreted below for \<open>long long\<close> and \<open>std::string\<close> keys
    and in \<open>Message_Queue\<close> for \<open>MessageQueue\<close> keys.
  \<^item> exceptions are values of \<open>mq_exception\<close>, a fallible operation returns \<open>mq_exception + 'a\<close>.
\<close>

named_theorems cint_simps \<open>range facts and identities of the C integer conversions\<close>
named_theorems pq_simps \<open>unfoldings of the queue operations\<close>

section \<open>C integers\<close>

definition s16 :: "int \<Rightarrow> int" where "s16 x = signed_take_bit 15 x"
definition s32 :: "int \<Rightarrow> int" where "s32 x = signed_take_bit 31 x"
definition s64 :: "int \<Rightarrow> int" where "s64 x = signed_take_bit 63 x"
definition u32 :: "int \<Rightarrow> int" where "u32 x = take_bit 32 x"
definition u64 :: "int \<Rightarrow> int" where "u64 x = take_bit 64 x"

abbreviation is_s16 :: "int \<Rightarrow> bool" where "is_s16 x \<equiv> - (2 ^ 15) \<le> x \<and> x < 2 ^ 15"
abbreviation is_s32 :: "int \<Rightarrow> bool" where "is_s32 x \<equiv> - (2 ^ 31) \<le> x \<and> x < 2 ^ 31"
abbreviation is_s64 :: "int \<Rightarrow> bool" where "is_s64 x \<equiv> - (2 ^ 63) \<le> x \<and> x < 2 ^ 63"

lemma s16_id [cint_simps]: "is_s16 x \<Longrightarrow> s16 x = x"
  by (simp add: s16_def signed_take_bit_int_eq_self)

lemma s32_id [cint_simps]: "is_s32 x \<Longrightarrow> s32 x = x"
  by (simp add: s32_def signed_take_bit_int_eq_self)

lemma s64_id [cint_simps]: "is_s64 x \<Longrightarrow> s64 x = x"
  by (simp add: s64_def signed_take_bit_int_eq_self)

lemma s32_range: "is_s32 (s32 x)"
  unfolding s32_def
  using signed_take_bit_int_greater_eq_minus_exp [of 31 x] signed_take_bit_int_less_exp [of 31 x]
  by simp

lemma s64_range: "is_s64 (s64 x)"
  unfolding s64_def
  using signed_take_bit_int_greater_eq_minus_exp [of 63 x] signed_take_bit_int_less_exp [of 63 x]
  by simp

lemma u64_id [cint_simps]: "0 \<le> x \<Longrightarrow> x < 2 ^ 64 \<Longrightarrow> u64 x = x"
  by (simp add: u64_def take_bit_int_eq_self)

lemma u64_mod: "u64 x = x mod 2 ^ 64"
  by (simp add: u64_def take_bit_eq_mod)

text \<open>C division truncates towards zero; the remainder has the sign of the dividend.\<close>

definition c_div :: "int \<Rightarrow> int \<Rightarrow> int" where
  "c_div a b = sgn a * sgn b * (\<bar>a\<bar> div \<bar>b\<bar>)"

definition c_mod :: "int \<Rightarrow> int \<Rightarrow> int" where
  "c_mod a b = a - c_div a b * b"

lemma c_div_nonneg [cint_simps]: "0 \<le> a \<Longrightarrow> 0 < b \<Longrightarrow> c_div a b = a div b"
  by (cases "a = 0") (auto simp: c_div_def)

lemma c_mod_nonneg [cint_simps]: "0 \<le> a \<Longrightarrow> 0 < b \<Longrightarrow> c_mod a b = a mod b"
  by (simp add: c_mod_def c_div_nonneg minus_div_mult_eq_mod)

section \<open>Exceptions\<close>

datatype mq_exception =
    MQException string int
  | MQClientException string int
  | MQBrokerException string int
  | InterruptedException string int
  | RemotingException string int
  | UnknownHostException string int

section \<open>Strings\<close>

text \<open>\<open>std::string::operator<\<close> compares bytes as unsigned characters.\<close>

fun str_lt :: "string \<Rightarrow> string \<Rightarrow> bool" where
  "str_lt xs [] = False"
| "str_lt [] (y # ys) = True"
| "str_lt (x # xs) (y # ys) =
     (if (of_char x :: nat) < of_char y then True
      else if (of_char y :: nat) < of_char x then False
      else str_lt xs ys)"

text \<open>\<open>c_str\<close> as the C library reads it: up to the first NUL. \<open>strcmp\<close> returns the sign.\<close>

definition c_str :: "string \<Rightarrow> string" where
  "c_str s = takeWhile (\<lambda>c. c \<noteq> CHR 0x00) s"

definition strcmp :: "string \<Rightarrow> string \<Rightarrow> int" where
  "strcmp a b = (if str_lt (c_str a) (c_str b) then -1
                 else if str_lt (c_str b) (c_str a) then 1 else 0)"

definition no_nul :: "string \<Rightarrow> bool" where
  "no_nul s \<longleftrightarrow> CHR 0x00 \<notin> set s"

definition starts_with :: "string \<Rightarrow> string \<Rightarrow> bool" where
  \<comment> \<open>\<open>s.find(p) == 0\<close>\<close>
  "starts_with p s \<longleftrightarrow> take (length p) s = p"

lemma c_str_id [simp]: "no_nul s \<Longrightarrow> c_str s = s"
  by (auto simp: c_str_def no_nul_def takeWhile_eq_all_conv)

lemma of_char_nat_inject [simp]: "(of_char x :: nat) = of_char y \<longleftrightarrow> x = y"
  by (metis char_of_char)

lemma str_lt_irrefl: "\<not> str_lt s s"
  by (induction s) auto

lemma str_lt_trans: "str_lt a b \<Longrightarrow> str_lt b c \<Longrightarrow> str_lt a c"
proof (induction a b arbitrary: c rule: str_lt.induct)
  case (1 xs)
  then show ?case by simp
next
  case (2 y ys)
  then show ?case by (cases c) auto
next
  case (3 x xs y ys)
  then show ?case by (cases c) (auto split: if_splits)
qed

lemma str_lt_total: "a \<noteq> b \<Longrightarrow> str_lt a b \<or> str_lt b a"
proof (induction a b rule: str_lt.induct)
  case (1 xs)
  then show ?case by (cases xs) auto
next
  case (2 y ys)
  then show ?case by simp
next
  case (3 x xs y ys)
  then show ?case
    by (cases "(of_char x :: nat) = of_char y") (auto simp: nat_neq_iff)
qed

section \<open>std::map and std::set\<close>

type_synonym ('k, 'v) smap = "('k \<times> 'v) list"

fun map_find :: "('k \<Rightarrow> 'k \<Rightarrow> bool) \<Rightarrow> 'k \<Rightarrow> ('k, 'v) smap \<Rightarrow> 'v option" where
  "map_find lt k [] = None"
| "map_find lt k ((a, b) # m) =
     (if lt a k then map_find lt k m else if lt k a then None else Some b)"

fun map_put :: "('k \<Rightarrow> 'k \<Rightarrow> bool) \<Rightarrow> 'k \<Rightarrow> 'v \<Rightarrow> ('k, 'v) smap \<Rightarrow> ('k, 'v) smap" where
  "map_put lt k v [] = [(k, v)]"
| "map_put lt k v ((a, b) # m) =
     (if lt a k then (a, b) # map_put lt k v m
      else if lt k a then (k, v) # (a, b) # m
      else (a, v) # m)"

fun map_erase :: "('k \<Rightarrow> 'k \<Rightarrow> bool) \<Rightarrow> 'k \<Rightarrow> ('k, 'v) smap \<Rightarrow> ('k, 'v) smap" where
  "map_erase lt k [] = []"
| "map_erase lt k ((a, b) # m) =
     (if lt a k then (a, b) # map_erase lt k m
      else if lt k a then (a, b) # m
      else m)"

fun set_put :: "('k \<Rightarrow> 'k \<Rightarrow> bool) \<Rightarrow> 'k \<Rightarrow> 'k list \<Rightarrow> 'k list" where
  "set_put lt k [] = [k]"
| "set_put lt k (a # s) =
     (if lt a k then a # set_put lt k s else if lt k a then k # a # s else a # s)"

fun set_has :: "('k \<Rightarrow> 'k \<Rightarrow> bool) \<Rightarrow> 'k \<Rightarrow> 'k list \<Rightarrow> bool" where
  "set_has lt k [] = False"
| "set_has lt k (a # s) = (if lt a k then set_has lt k s else \<not> lt k a)"

definition map_wf :: "('k \<Rightarrow> 'k \<Rightarrow> bool) \<Rightarrow> ('k \<Rightarrow> bool) \<Rightarrow> ('k, 'v) smap \<Rightarrow> bool" where
  "map_wf lt ok m \<longleftrightarrow> sorted_wrt lt (map fst m) \<and> list_all ok (map fst m)"

definition set_wf :: "('k \<Rightarrow> 'k \<Rightarrow> bool) \<Rightarrow> ('k \<Rightarrow> bool) \<Rightarrow> 'k list \<Rightarrow> bool" where
  "set_wf lt ok s \<longleftrightarrow> sorted_wrt lt s \<and> list_all ok s"

lemma map_wf_Nil [simp]: "map_wf lt ok []"
  by (simp add: map_wf_def)

lemma map_wf_Cons [simp]:
  "map_wf lt ok ((a, b) # m) \<longleftrightarrow> ok a \<and> (\<forall>x \<in> fst ` set m. lt a x) \<and> map_wf lt ok m"
  by (auto simp: map_wf_def)

lemma set_wf_Nil [simp]: "set_wf lt ok []"
  by (simp add: set_wf_def)

lemma set_wf_Cons [simp]:
  "set_wf lt ok (a # s) \<longleftrightarrow> ok a \<and> (\<forall>x \<in> set s. lt a x) \<and> set_wf lt ok s"
  by (auto simp: set_wf_def)

lemma map_wf_ok: "map_wf lt ok m \<Longrightarrow> x \<in> fst ` set m \<Longrightarrow> ok x"
  by (auto simp: map_wf_def list_all_iff)

lemma set_wf_ok: "set_wf lt ok s \<Longrightarrow> x \<in> set s \<Longrightarrow> ok x"
  by (auto simp: set_wf_def list_all_iff)

lemma map_wf_filter: "map_wf lt ok m \<Longrightarrow> map_wf lt ok (filter P m)"
  by (induction m) auto

lemma dom_map_of: "dom (map_of m) = fst ` set m"
  by (rule dom_map_of_conv_image_fst)

lemma map_of_eq_None: "k \<notin> fst ` set m \<Longrightarrow> map_of m k = None"
  by (simp add: map_of_eq_None_iff)

locale std_map =
  fixes lt :: "'k \<Rightarrow> 'k \<Rightarrow> bool" and ok :: "'k \<Rightarrow> bool"
  assumes lt_irrefl: "ok x \<Longrightarrow> \<not> lt x x"
    and lt_trans: "ok x \<Longrightarrow> ok y \<Longrightarrow> ok z \<Longrightarrow> lt x y \<Longrightarrow> lt y z \<Longrightarrow> lt x z"
    and lt_total: "ok x \<Longrightarrow> ok y \<Longrightarrow> x \<noteq> y \<Longrightarrow> lt x y \<or> lt y x"
begin

lemma lt_asym: "ok x \<Longrightarrow> ok y \<Longrightarrow> lt x y \<Longrightarrow> \<not> lt y x"
  using lt_irrefl lt_trans by blast

lemma find_map_of: "map_wf lt ok m \<Longrightarrow> ok k \<Longrightarrow> map_find lt k m = map_of m k"
proof (induction m)
  case Nil
  then show ?case by simp
next
  case (Cons p m)
  obtain a b where p: "p = (a, b)" by (cases p)
  from Cons.prems p have a: "ok a" and m: "map_wf lt ok m"
    and less: "\<forall>x \<in> fst ` set m. lt a x" by auto
  consider "lt a k" | "lt k a" | "a = k"
    using lt_total a Cons.prems by blast
  then show ?case
  proof cases
    case 1
    then have "a \<noteq> k" using a lt_irrefl by blast
    with 1 p Cons.IH m Cons.prems show ?thesis by simp
  next
    case 2
    then have "a \<noteq> k" and "\<not> lt a k" using a Cons.prems lt_irrefl lt_asym by blast+
    moreover have "k \<notin> fst ` set m"
      using 2 less \<open>\<not> lt a k\<close> by blast
    ultimately show ?thesis using 2 p by (auto simp: map_of_eq_None)
  next
    case 3
    with a p lt_irrefl show ?thesis by simp
  qed
qed

lemma put_map_of: "map_wf lt ok m \<Longrightarrow> ok k \<Longrightarrow> map_of (map_put lt k v m) = (map_of m)(k \<mapsto> v)"
proof (induction m)
  case Nil
  then show ?case by auto
next
  case (Cons p m)
  obtain a b where p: "p = (a, b)" by (cases p)
  from Cons.prems p have a: "ok a" and m: "map_wf lt ok m" by auto
  consider "lt a k" "a \<noteq> k" | "lt k a" "\<not> lt a k" | "a = k" "\<not> lt a k"
    using lt_total lt_irrefl lt_asym a Cons.prems by blast
  then show ?case
  proof cases
    case 1
    with p Cons.IH m Cons.prems show ?thesis by (auto simp: fun_eq_iff)
  next
    case 2
    with p show ?thesis by (auto simp: fun_eq_iff)
  next
    case 3
    with p a lt_irrefl show ?thesis by (auto simp: fun_eq_iff)
  qed
qed

lemma put_keys: "map_wf lt ok m \<Longrightarrow> ok k \<Longrightarrow> fst ` set (map_put lt k v m) = insert k (fst ` set m)"
  using put_map_of [of m k v] by (simp flip: dom_map_of)

lemma put_wf: "map_wf lt ok m \<Longrightarrow> ok k \<Longrightarrow> map_wf lt ok (map_put lt k v m)"
proof (induction m)
  case Nil
  then show ?case by simp
next
  case (Cons p m)
  obtain a b where p: "p = (a, b)" by (cases p)
  from Cons.prems p have a: "ok a" and m: "map_wf lt ok m"
    and less: "\<forall>x \<in> fst ` set m. lt a x" by auto
  show ?case
  proof (cases "lt a k")
    case True
    with p a m less Cons.IH Cons.prems put_keys [OF m, of k v] show ?thesis by auto
  next
    case False
    show ?thesis
    proof (cases "lt k a")
      case True
      have "lt k x" if "x \<in> fst ` set m" for x
        using lt_trans [OF \<open>ok k\<close> a map_wf_ok [OF m that] True] less that by blast
      with False True p a m less Cons.prems show ?thesis by auto
    next
      case F2: False
      with False p a m less show ?thesis by auto
    qed
  qed
qed

lemma erase_map_of: "map_wf lt ok m \<Longrightarrow> ok k \<Longrightarrow> map_of (map_erase lt k m) = (map_of m)(k := None)"
proof (induction m)
  case Nil
  then show ?case by auto
next
  case (Cons p m)
  obtain a b where p: "p = (a, b)" by (cases p)
  from Cons.prems p have a: "ok a" and m: "map_wf lt ok m"
    and less: "\<forall>x \<in> fst ` set m. lt a x" by auto
  consider "lt a k" "a \<noteq> k" | "lt k a" "\<not> lt a k" "a \<noteq> k" | "a = k" "\<not> lt a k"
    using lt_total lt_irrefl lt_asym a Cons.prems by blast
  then show ?case
  proof cases
    case 1
    with p Cons.IH m Cons.prems show ?thesis by (auto simp: fun_eq_iff)
  next
    case 2
    then have "k \<notin> fst ` set m" using less by blast
    with 2 p show ?thesis by (auto simp: fun_eq_iff map_of_eq_None)
  next
    case 3
    with less a lt_irrefl have "k \<notin> fst ` set m" by blast
    with 3 p a lt_irrefl show ?thesis by (auto simp: fun_eq_iff map_of_eq_None)
  qed
qed

lemma erase_subset: "set (map_erase lt k m) \<subseteq> set m"
  by (induction m) (auto split: if_splits)

lemma erase_wf: "map_wf lt ok m \<Longrightarrow> map_wf lt ok (map_erase lt k m)"
proof (induction m)
  case Nil
  then show ?case by simp
next
  case (Cons p m)
  then show ?case using erase_subset [of k m] by (cases p) auto
qed

lemma erase_keys: "map_wf lt ok m \<Longrightarrow> ok k \<Longrightarrow> fst ` set (map_erase lt k m) = fst ` set m - {k}"
  using erase_map_of [of m k] by (simp flip: dom_map_of)

lemma find_put:
  "map_wf lt ok m \<Longrightarrow> ok k \<Longrightarrow> ok k' \<Longrightarrow>
   map_find lt k' (map_put lt k v m) = (if k' = k then Some v else map_find lt k' m)"
  by (simp add: find_map_of put_wf put_map_of)

lemma find_erase:
  "map_wf lt ok m \<Longrightarrow> ok k \<Longrightarrow> ok k' \<Longrightarrow>
   map_find lt k' (map_erase lt k m) = (if k' = k then None else map_find lt k' m)"
  by (simp add: find_map_of erase_wf erase_map_of)

lemma wf_distinct: "map_wf lt ok m \<Longrightarrow> distinct (map fst m)"
proof (induction m)
  case Nil
  then show ?case by simp
next
  case (Cons p m)
  then show ?case by (cases p) (auto dest: lt_irrefl)
qed

lemma map_of_set: "map_wf lt ok m \<Longrightarrow> (k, v) \<in> set m \<longleftrightarrow> map_of m k = Some v"
  by (simp add: wf_distinct)

lemma erase_set: "map_wf lt ok m \<Longrightarrow> ok k \<Longrightarrow> set (map_erase lt k m) = {e \<in> set m. fst e \<noteq> k}"
  by (rule set_eqI) (auto simp: map_of_set erase_wf erase_map_of split: if_splits)

lemma put_set: "map_wf lt ok m \<Longrightarrow> ok k \<Longrightarrow> set (map_put lt k v m) = insert (k, v) {e \<in> set m. fst e \<noteq> k}"
  by (rule set_eqI) (auto simp: map_of_set put_wf put_map_of split: if_splits)

lemma entry_unique: "map_wf lt ok m \<Longrightarrow> (k, v) \<in> set m \<Longrightarrow> (k, v') \<in> set m \<Longrightarrow> v = v'"
  by (simp add: map_of_set)

lemma find_Some_iff: "map_wf lt ok m \<Longrightarrow> ok k \<Longrightarrow> map_find lt k m = Some v \<longleftrightarrow> (k, v) \<in> set m"
  by (simp add: find_map_of wf_distinct)

lemma find_None_iff: "map_wf lt ok m \<Longrightarrow> ok k \<Longrightarrow> map_find lt k m = None \<longleftrightarrow> k \<notin> fst ` set m"
  by (simp add: find_map_of map_of_eq_None_iff)

lemma has_iff: "set_wf lt ok s \<Longrightarrow> ok k \<Longrightarrow> set_has lt k s \<longleftrightarrow> k \<in> set s"
proof (induction s)
  case Nil
  then show ?case by simp
next
  case (Cons a s)
  then show ?case
    by (metis list.set_intros(1) list.set_intros(2) lt_asym lt_irrefl lt_total set_ConsD
        set_has.simps(2) set_wf_Cons)
qed

lemma set_put_set: "set_wf lt ok s \<Longrightarrow> ok k \<Longrightarrow> set (set_put lt k s) = insert k (set s)"
proof (induction s)
  case Nil
  then show ?case by simp
next
  case (Cons a s)
  then show ?case using lt_total [of a k] by auto
qed

lemma set_put_wf: "set_wf lt ok s \<Longrightarrow> ok k \<Longrightarrow> set_wf lt ok (set_put lt k s)"
proof (induction s)
  case Nil
  then show ?case by simp
next
  case (Cons a s)
  then have s: "set_wf lt ok s" and a: "ok a" and k: "ok k" by auto
  have "lt k x" if "x \<in> set s" "lt k a" for x
    using lt_trans [OF k a set_wf_ok [OF s that(1)] that(2)] Cons.prems that(1) by simp
  with Cons set_put_set [OF s k] show ?case by auto
qed

lemma set_wf_distinct: "set_wf lt ok s \<Longrightarrow> distinct s"
  by (induction s) (auto dest: lt_irrefl)

lemma set_wf_unique: "set_wf lt ok s \<Longrightarrow> set_wf lt ok t \<Longrightarrow> set s = set t \<Longrightarrow> s = t"
proof (induction s arbitrary: t)
  case Nil
  then show ?case by simp
next
  case (Cons a s)
  then obtain b t' where t: "t = b # t'" by (cases t) auto
  have "a = b"
  proof (rule ccontr)
    assume "a \<noteq> b"
    with Cons.prems t have "a \<in> set t'" "b \<in> set s" by auto
    with Cons.prems t have "lt b a" "lt a b" by auto
    with Cons.prems t show False using lt_asym by auto
  qed
  moreover have "a \<notin> set s" "b \<notin> set t'" using Cons.prems t lt_irrefl by auto
  ultimately have "set s = set t'" using Cons.prems(3) t by auto
  with Cons t \<open>a = b\<close> show ?case by auto
qed

lemma fold_set_put:
  "set_wf lt ok s \<Longrightarrow> list_all ok xs \<Longrightarrow>
   set_wf lt ok (fold (set_put lt) xs s) \<and> set (fold (set_put lt) xs s) = set s \<union> set xs"
  by (induction xs arbitrary: s) (auto simp: set_put_wf set_put_set)

lemma fold_put_wf:
  "map_wf lt ok m \<Longrightarrow> list_all (\<lambda>x. ok (f x)) xs \<Longrightarrow>
   map_wf lt ok (fold (\<lambda>x m. map_put lt (f x) (g x) m) xs m)"
  by (induction xs arbitrary: m) (auto simp: put_wf)

lemma fold_put_keys:
  "map_wf lt ok m \<Longrightarrow> list_all (\<lambda>x. ok (f x)) xs \<Longrightarrow>
   fst ` set (fold (\<lambda>x m. map_put lt (f x) (g x) m) xs m) = fst ` set m \<union> f ` set xs"
  by (induction xs arbitrary: m) (auto simp: put_wf put_keys)

lemma fold_erase_wf:
  "map_wf lt ok m \<Longrightarrow> map_wf lt ok (fold (\<lambda>x m. map_erase lt (f x) m) xs m)"
  by (induction xs arbitrary: m) (auto simp: erase_wf)

lemma fold_erase_keys:
  "map_wf lt ok m \<Longrightarrow> list_all (\<lambda>x. ok (f x)) xs \<Longrightarrow>
   fst ` set (fold (\<lambda>x m. map_erase lt (f x) m) xs m) = fst ` set m - f ` set xs"
  by (induction xs arbitrary: m) (auto simp: erase_wf erase_keys)

end

text \<open>Keys of type \<open>long long\<close> and \<open>std::string\<close>.\<close>

abbreviation ll_lt :: "int \<Rightarrow> int \<Rightarrow> bool" where "ll_lt \<equiv> (<)"
abbreviation any_key :: "'k \<Rightarrow> bool" where "any_key \<equiv> (\<lambda>_. True)"

interpretation ll: std_map ll_lt any_key
  by unfold_locales auto

interpretation str: std_map str_lt any_key
  by unfold_locales (auto simp: str_lt_irrefl intro: str_lt_trans dest: str_lt_total)

end
