(* ===== verification/C_Text.thy ===== *)
theory C_Text
  imports Prelude
begin

text \<open>
  The parts of the C library the client calls on text and bytes: \<open>sprintf("%d")\<close>,
  \<open>atoi\<close>, the formatted stream operators on integers, \<open>sprintf("%02X")\<close>,
  \<open>strtoul\<close> in base 16, and the byte order conversions of \<open>SocketUtil.cpp\<close>
  on a little-endian host. Each printer has a round trip lemma with its reader.
\<close>

section \<open>Decimal text\<close>

definition digit_char :: "nat \<Rightarrow> char" where
  "digit_char d = char_of (48 + d)"

definition is_digit :: "char \<Rightarrow> bool" where
  "is_digit c \<longleftrightarrow> 48 \<le> (of_char c :: nat) \<and> (of_char c :: nat) \<le> 57"

definition digit_val :: "char \<Rightarrow> nat" where
  "digit_val c = of_char c - 48"

definition is_space :: "char \<Rightarrow> bool" where
  "is_space c \<longleftrightarrow> (of_char c :: nat) = 32 \<or> (9 \<le> (of_char c :: nat) \<and> (of_char c :: nat) \<le> 13)"

fun show_nat :: "nat \<Rightarrow> string" where
  "show_nat n = (if n < 10 then [digit_char n] else show_nat (n div 10) @ [digit_char (n mod 10)])"

declare show_nat.simps [simp del]

definition show_int :: "int \<Rightarrow> string" where
  "show_int i = (if i < 0 then CHR ''-'' # show_nat (nat (- i)) else show_nat (nat i))"

fun read_digits :: "string \<Rightarrow> nat \<Rightarrow> nat \<times> string" where
  "read_digits [] a = (a, [])"
| "read_digits (c # cs) a = (if is_digit c then read_digits cs (10 * a + digit_val c) else (a, c # cs))"

text \<open>\<open>atoi\<close>: white space, an optional sign, digits; no digits give 0. Out-of-range text
  keeps the low 32 bits, as the \<open>strtol\<close> based implementation does.\<close>

definition atoi :: "string \<Rightarrow> int" where
  "atoi s =
     (case dropWhile is_space (c_str s) of
        [] \<Rightarrow> 0
      | c # cs \<Rightarrow>
          if c = CHR ''-'' then s32 (- int (fst (read_digits cs 0)))
          else if c = CHR ''+'' then s32 (int (fst (read_digits cs 0)))
          else s32 (int (fst (read_digits (c # cs) 0))))"

lemma of_digit_char: "d < 10 \<Longrightarrow> (of_char (digit_char d) :: nat) = 48 + d"
  by (simp add: digit_char_def take_bit_eq_mod)

lemma digit_char_props:
  assumes "d < 10"
  shows "is_digit (digit_char d)" and "digit_val (digit_char d) = d"
    and "\<not> is_space (digit_char d)"
    and "digit_char d \<noteq> CHR ''-''" and "digit_char d \<noteq> CHR ''+''" and "digit_char d \<noteq> CHR 0x00"
  using of_digit_char [OF assms] assms
  by (auto simp: is_digit_def digit_val_def is_space_def simp flip: of_char_nat_inject)

lemma read_digits_show_nat:
  "read_digits (show_nat n @ rest) a = read_digits rest (a * 10 ^ length (show_nat n) + n)"
proof (induction n arbitrary: a rest rule: show_nat.induct)
  case (1 n)
  show ?case
  proof (cases "n < 10")
    case True
    then show ?thesis
      using digit_char_props [OF True] by (simp add: show_nat.simps [of n] mult.commute)
  next
    case False
    have m: "n mod 10 < 10" by simp
    have d: "10 * (n div 10) + n mod 10 = n" by simp
    have "read_digits (show_nat n @ rest) a =
      read_digits (digit_char (n mod 10) # rest) (a * 10 ^ length (show_nat (n div 10)) + n div 10)"
      using False 1 by (simp add: show_nat.simps [of n])
    also have "\<dots> = read_digits rest (a * 10 ^ length (show_nat n) + n)"
      using False digit_char_props [OF m] d
      by (simp add: show_nat.simps [of n] algebra_simps)
    finally show ?thesis .
  qed
qed

lemma show_nat_digits: "\<forall>c \<in> set (show_nat n). is_digit c"
proof (induction n rule: show_nat.induct)
  case (1 n)
  then show ?case
    by (cases "n < 10") (auto simp: show_nat.simps [of n] digit_char_props)
qed

lemma show_nat_nonempty: "show_nat n \<noteq> []"
  by (simp add: show_nat.simps)

lemma is_digit_not: "is_digit c \<Longrightarrow> \<not> is_space c \<and> c \<noteq> CHR ''-'' \<and> c \<noteq> CHR ''+'' \<and> c \<noteq> CHR 0x00"
  by (auto simp: is_digit_def is_space_def)

lemma show_nat_hd:
  obtains c cs where "show_nat n = c # cs" and "is_digit c"
  using show_nat_digits [of n] show_nat_nonempty [of n] by (cases "show_nat n") auto

lemma no_nul_show_int: "no_nul (show_int i)"
  using show_nat_digits is_digit_not by (fastforce simp: show_int_def no_nul_def)

lemma show_int_no_space: "c \<in> set (show_int i) \<Longrightarrow> \<not> is_space c"
  using show_nat_digits is_digit_not by (fastforce simp: show_int_def is_space_def split: if_splits)

lemma atoi_show_int: "is_s32 i \<Longrightarrow> atoi (show_int i) = i"
proof -
  assume i: "is_s32 i"
  have nn: "c_str (show_int i) = show_int i" by (simp add: no_nul_show_int)
  show ?thesis
  proof (cases "i < 0")
    case True
    then have "show_int i = CHR ''-'' # show_nat (nat (- i))" by (simp add: show_int_def)
    then show ?thesis
      using nn True i read_digits_show_nat [of "nat (- i)" "[]" 0]
      by (simp add: atoi_def is_space_def s32_id)
  next
    case False
    then have s: "show_int i = show_nat (nat i)" by (simp add: show_int_def)
    obtain c cs where c: "show_nat (nat i) = c # cs" "is_digit c" by (rule show_nat_hd)
    have "fst (read_digits (c # cs) 0) = nat i"
      using read_digits_show_nat [of "nat i" "[]" 0] c(1) by simp
    then show ?thesis
      using nn s c is_digit_not [OF c(2)] False i by (simp add: atoi_def s32_id)
  qed
qed

section \<open>Formatted stream input\<close>

text \<open>The state of an \<open>std::stringstream\<close> being read: the unread text and the fail bit.\<close>

record istream =
  is_rest :: string
  is_fail :: bool

text \<open>\<open>ss >> s\<close> for a string: skip white space, take up to the next one; nothing left sets
  the fail bit and leaves the variable as it was.\<close>

definition get_word :: "istream \<Rightarrow> string \<Rightarrow> string \<times> istream" where
  "get_word st old =
     (if is_fail st then (old, st)
      else let r = dropWhile is_space (is_rest st) in
        if r = [] then (old, st\<lparr>is_rest := [], is_fail := True\<rparr>)
        else (takeWhile (\<lambda>c. \<not> is_space c) r, st\<lparr>is_rest := dropWhile (\<lambda>c. \<not> is_space c) r\<rparr>))"

text \<open>\<open>ss >> i\<close> for an \<open>int\<close>: on no digits the variable becomes 0, on overflow it is clamped;
  both set the fail bit. A stream that already failed leaves the variable alone.\<close>

definition get_int :: "istream \<Rightarrow> int \<Rightarrow> int \<times> istream" where
  "get_int st old =
     (if is_fail st then (old, st)
      else let r = dropWhile is_space (is_rest st);
               neg = (r \<noteq> [] \<and> hd r = CHR ''-'');
               body = (if r \<noteq> [] \<and> (hd r = CHR ''-'' \<or> hd r = CHR ''+'') then tl r else r);
               (n, rest) = read_digits body 0;
               v = (if neg then - int n else int n)
           in if body = [] \<or> \<not> is_digit (hd body) then (0, st\<lparr>is_rest := rest, is_fail := True\<rparr>)
              else if v < - (2 ^ 31) then (- (2 ^ 31), st\<lparr>is_rest := rest, is_fail := True\<rparr>)
              else if 2 ^ 31 \<le> v then (2 ^ 31 - 1, st\<lparr>is_rest := rest, is_fail := True\<rparr>)
              else (v, st\<lparr>is_rest := rest\<rparr>))"

definition word_sep :: "string \<Rightarrow> bool" where
  "word_sep rest \<longleftrightarrow> rest = [] \<or> is_space (hd rest)"

lemma get_word_sep:
  assumes "w \<noteq> []" "\<forall>c \<in> set w. \<not> is_space c" "word_sep rest" "\<forall>c \<in> set sp. is_space c"
  shows "get_word \<lparr>is_rest = sp @ w @ rest, is_fail = False\<rparr> old
         = (w, \<lparr>is_rest = rest, is_fail = False\<rparr>)"
proof -
  have d: "dropWhile is_space (sp @ w @ rest) = w @ rest"
    using assms(1,2,4) by (cases w) (auto simp: dropWhile_append3 dropWhile_append)
  have "takeWhile (\<lambda>c. \<not> is_space c) (w @ rest) = w"
    and "dropWhile (\<lambda>c. \<not> is_space c) (w @ rest) = rest"
    using assms(2,3) by (cases rest; auto simp: word_sep_def takeWhile_append dropWhile_append)+
  with d assms(1) show ?thesis by (simp add: get_word_def)
qed

lemma is_space_not_digit: "is_space c \<Longrightarrow> \<not> is_digit c"
  using is_digit_not by blast

lemma read_digits_sep: "word_sep rest \<Longrightarrow> read_digits rest a = (a, rest)"
  by (cases rest) (auto simp: word_sep_def is_space_not_digit)

lemma get_int_sep:
  assumes "is_s32 i" "word_sep rest" "\<forall>c \<in> set sp. is_space c"
  shows "get_int \<lparr>is_rest = sp @ show_int i @ rest, is_fail = False\<rparr> old
         = (i, \<lparr>is_rest = rest, is_fail = False\<rparr>)"
proof -
  obtain c cs where c: "show_nat (nat \<bar>i\<bar>) = c # cs" "is_digit c" by (rule show_nat_hd)
  have rd: "read_digits (c # cs @ rest) 0 = (nat \<bar>i\<bar>, rest)"
    using read_digits_show_nat [of "nat \<bar>i\<bar>" rest 0] c(1) read_digits_sep [OF assms(2)] by simp
  have ns: "\<not> is_space c" "c \<noteq> CHR ''-''" "c \<noteq> CHR ''+''" using is_digit_not [OF c(2)] by auto
  show ?thesis
  proof (cases "i < 0")
    case True
    then have s: "show_int i = CHR ''-'' # c # cs" using c(1) by (simp add: show_int_def)
    have "\<not> is_space (CHR ''-'')" by (simp add: is_space_def)
    then have "dropWhile is_space (sp @ show_int i @ rest) = CHR ''-'' # c # cs @ rest"
      using assms(3) s by (simp add: dropWhile_append3)
    with rd c True assms(1) show ?thesis by (simp add: get_int_def Let_def)
  next
    case False
    then have s: "show_int i = c # cs" using c(1) by (simp add: show_int_def)
    then have "dropWhile is_space (sp @ show_int i @ rest) = c # cs @ rest"
      using assms(3) ns by (simp add: dropWhile_append3)
    with rd c ns False assms(1) show ?thesis by (simp add: get_int_def Let_def)
  qed
qed

section \<open>Bytes and byte order\<close>

text \<open>Reading and writing \<open>n\<close> bytes most significant first (network order) and least
  significant first (memory order of a little-endian host).\<close>

fun be_val :: "string \<Rightarrow> int" where
  "be_val [] = 0"
| "be_val (c # cs) = of_char c * 256 ^ length cs + be_val cs"

fun be_bytes :: "nat \<Rightarrow> int \<Rightarrow> string" where
  "be_bytes 0 v = []"
| "be_bytes (Suc n) v = be_bytes n (v div 256) @ [char_of (v mod 256)]"

definition le_val :: "string \<Rightarrow> int" where
  "le_val s = be_val (rev s)"

definition le_bytes :: "nat \<Rightarrow> int \<Rightarrow> string" where
  "le_bytes n v = rev (be_bytes n v)"

text \<open>\<open>htonl\<close>/\<open>ntohl\<close>, \<open>htons\<close>/\<open>ntohs\<close> and \<open>swapll\<close>: reverse the bytes of the low 4, 2, 8 bytes.\<close>

definition swap_bytes :: "nat \<Rightarrow> int \<Rightarrow> int" where
  "swap_bytes n v = le_val (be_bytes n v)"

lemma of_char_int_bounds [simp]: "0 \<le> (of_char c :: int)" "(of_char c :: int) < 256"
proof -
  have "(of_char c :: int) = int (of_char c :: nat)" by (simp add: of_nat_of_char)
  moreover have "(of_char c :: nat) < 256" by simp
  ultimately show "0 \<le> (of_char c :: int)" "(of_char c :: int) < 256" by linarith+
qed

lemma be_val_snoc: "be_val (cs @ [c]) = be_val cs * 256 + of_char c"
  by (induction cs) (auto simp: algebra_simps)

lemma length_be_bytes [simp]: "length (be_bytes n v) = n"
  by (induction n arbitrary: v) auto

lemma of_char_char_of_int: "(of_char (char_of (x :: int)) :: int) = x mod 256"
  by (simp add: take_bit_eq_mod)

lemma be_val_bytes: "be_val (be_bytes n v) = v mod 256 ^ n"
proof (induction n arbitrary: v)
  case 0
  then show ?case by simp
next
  case (Suc n)
  have "be_val (be_bytes (Suc n) v) = (v div 256 mod 256 ^ n) * 256 + v mod 256"
    by (simp add: be_val_snoc Suc of_char_char_of_int)
  also have "\<dots> = v mod (256 * 256 ^ n)"
    using zmod_zmult2_eq [of "256 ^ n" v 256] by simp
  finally show ?case by simp
qed

lemma be_val_bounds: "0 \<le> be_val s \<and> be_val s < 256 ^ length s"
proof (induction s rule: rev_induct)
  case Nil
  then show ?case by simp
next
  case (snoc c s)
  then have "0 \<le> be_val s" "be_val s + 1 \<le> 256 ^ length s" by auto
  then have "(be_val s + 1) * 256 \<le> 256 ^ length s * 256" by simp
  with \<open>0 \<le> be_val s\<close> show ?case
    using of_char_int_bounds [of c] by (simp add: be_val_snoc del: of_char_int_bounds)
qed

lemma be_bytes_val: "be_bytes (length s) (be_val s) = s"
proof (induction s rule: rev_induct)
  case Nil
  then show ?case by simp
next
  case (snoc c s)
  have "be_val (s @ [c]) div 256 = be_val s"
    and "be_val (s @ [c]) mod 256 = of_char c"
    by (simp_all add: be_val_snoc)
  then show ?case using snoc by simp
qed

lemma le_val_bytes: "le_val (le_bytes n v) = v mod 256 ^ n"
  by (simp add: le_val_def le_bytes_def be_val_bytes)

text \<open>Loading a big-endian field into memory and swapping it yields its value: the idiom
  \<open>memcpy(&x, p, 4); x = ntohl(x)\<close>.\<close>

lemma swap_load: "length s = n \<Longrightarrow> swap_bytes n (le_val s) = be_val s"
proof -
  assume n: "length s = n"
  have "be_bytes n (be_val (rev s)) = rev s"
    using be_bytes_val [of "rev s"] n by simp
  then show ?thesis by (simp add: swap_bytes_def le_val_def)
qed

lemma swap_store: "le_bytes n (swap_bytes n v) = be_bytes n v"
proof -
  have "be_bytes n (be_val (rev (be_bytes n v))) = rev (be_bytes n v)"
    using be_bytes_val [of "rev (be_bytes n v)"] by simp
  then show ?thesis by (simp add: le_bytes_def swap_bytes_def le_val_def)
qed

section \<open>Hexadecimal text\<close>

definition hex_char :: "int \<Rightarrow> char" where
  \<comment> \<open>one upper-case digit of \<open>%02X\<close>\<close>
  "hex_char d = (if d < 10 then char_of (48 + d) else char_of (55 + d))"

definition hex_byte :: "char \<Rightarrow> string" where
  "hex_byte c = [hex_char (of_char c div 16), hex_char (of_char c mod 16)]"

definition hex_string :: "string \<Rightarrow> string" where
  "hex_string s = concat (map hex_byte s)"

definition hex_digit :: "char \<Rightarrow> int option" where
  "hex_digit c =
     (let n = (of_char c :: int) in
      if 48 \<le> n \<and> n \<le> 57 then Some (n - 48)
      else if 65 \<le> n \<and> n \<le> 70 then Some (n - 55)
      else if 97 \<le> n \<and> n \<le> 102 then Some (n - 87)
      else None)"

text \<open>\<open>strtoul(s, &end, 16)\<close> and \<open>strtoull\<close> with 64-bit results: white space, a sign, an
  optional \<open>0x\<close> before a digit, then the leading hexadecimal digits; a value that does not fit is
  \<open>ULONG_MAX\<close>, a negative one wraps around.\<close>

definition skip_0x :: "string \<Rightarrow> string" where
  "skip_0x s =
     (case s of a # b # c # r \<Rightarrow>
        if a = CHR ''0'' \<and> (b = CHR ''x'' \<or> b = CHR ''X'') \<and> hex_digit c \<noteq> None then c # r else s
      | _ \<Rightarrow> s)"

fun hex_digits :: "string \<Rightarrow> int \<Rightarrow> int" where
  "hex_digits [] a = a"
| "hex_digits (c # cs) a = (case hex_digit c of None \<Rightarrow> a | Some d \<Rightarrow> hex_digits cs (16 * a + d))"

definition strtoul16 :: "string \<Rightarrow> int" where
  "strtoul16 s =
     (let r = dropWhile is_space (c_str s);
          neg = (r \<noteq> [] \<and> hd r = CHR ''-'');
          r = (if r \<noteq> [] \<and> (hd r = CHR ''-'' \<or> hd r = CHR ''+'') then tl r else r);
          n = hex_digits (skip_0x r) 0
      in if n \<ge> 2 ^ 64 then 2 ^ 64 - 1 else if neg then (- n) mod 2 ^ 64 else n)"

lemma hex_digit_hex_char: "0 \<le> d \<Longrightarrow> d < 16 \<Longrightarrow> hex_digit (hex_char d) = Some d"
  by (auto simp: hex_digit_def hex_char_def of_char_char_of_int Let_def)

lemma hex_digits_hex: "hex_digits (hex_string s @ rest) a = hex_digits rest (a * 256 ^ length s + be_val s)"
proof (induction s arbitrary: a)
  case Nil
  then show ?case by (simp add: hex_string_def)
next
  case (Cons c s)
  let ?n = "of_char c :: int"
  have "?n div 16 < 16" "0 \<le> ?n div 16"
    using of_char_int_bounds [of c] by (simp_all add: div_less_iff_less_mult del: of_char_int_bounds)
  then have hd: "hex_digit (hex_char (?n div 16)) = Some (?n div 16)"
    by (simp add: hex_digit_hex_char)
  have hm: "hex_digit (hex_char (?n mod 16)) = Some (?n mod 16)"
    by (simp add: hex_digit_hex_char)
  have e: "16 * (16 * a + ?n div 16) + ?n mod 16 = a * 256 + ?n" by simp
  have "hex_digits (hex_string (c # s) @ rest) a = hex_digits (hex_string s @ rest) (a * 256 + ?n)"
    using hd hm e by (simp add: hex_string_def hex_byte_def add.commute mult.commute)
  also have "\<dots> = hex_digits rest (a * 256 ^ length (c # s) + be_val (c # s))"
    by (simp add: Cons algebra_simps)
  finally show ?case .
qed

lemma length_hex_string [simp]: "length (hex_string s) = 2 * length s"
  by (induction s) (auto simp: hex_string_def hex_byte_def)

lemma hex_char_props:
  assumes "0 \<le> d" "d < 16"
  shows "\<not> is_space (hex_char d)" "hex_char d \<noteq> CHR ''-''" "hex_char d \<noteq> CHR ''+''" "hex_char d \<noteq> CHR 0x00"
    "hex_char d \<noteq> CHR ''x''" "hex_char d \<noteq> CHR ''X''"
proof -
  have n: "(of_char (hex_char d) :: nat) = nat (if d < 10 then 48 + d else 55 + d)"
    using assms by (auto simp: hex_char_def take_bit_eq_mod nat_mod_distrib simp flip: nat_of_char)
  show "\<not> is_space (hex_char d)" "hex_char d \<noteq> CHR ''-''" "hex_char d \<noteq> CHR ''+''" "hex_char d \<noteq> CHR 0x00"
    "hex_char d \<noteq> CHR ''x''" "hex_char d \<noteq> CHR ''X''"
    using n assms by (auto simp: is_space_def split: if_splits)
qed

lemma hex_string_Cons:
  "\<exists>x y. hex_string (c # s) = hex_char x # hex_char y # hex_string s \<and> 0 \<le> x \<and> x < 16 \<and> 0 \<le> y \<and> y < 16"
proof -
  have "(of_char c :: int) div 16 < 16" "0 \<le> (of_char c :: int) div 16"
    using of_char_int_bounds [of c] by (simp_all add: div_less_iff_less_mult del: of_char_int_bounds)
  then show ?thesis by (intro exI [of _ "of_char c div 16"] exI [of _ "of_char c mod 16"]) (simp add: hex_string_def hex_byte_def)
qed

lemma hex_string_no_nul: "no_nul (hex_string s)"
proof (induction s)
  case Nil
  then show ?case by (simp add: hex_string_def no_nul_def)
next
  case (Cons c s)
  obtain x y where "hex_string (c # s) = hex_char x # hex_char y # hex_string s" "0 \<le> x" "x < 16" "0 \<le> y" "y < 16"
    using hex_string_Cons by blast
  with Cons hex_char_props(4) [of x] hex_char_props(4) [of y] show ?case by (auto simp: no_nul_def)
qed

lemma strtoul16_hex: "length s \<le> 8 \<Longrightarrow> strtoul16 (hex_string s) = be_val s"
proof (cases s)
  case Nil
  then show ?thesis by (simp add: strtoul16_def hex_string_def c_str_def skip_0x_def)
next
  case (Cons c r)
  assume len: "length s \<le> 8"
  obtain x y where h: "hex_string s = hex_char x # hex_char y # hex_string r" "0 \<le> x" "x < 16" "0 \<le> y" "y < 16"
    using hex_string_Cons Cons by blast
  note px = hex_char_props [OF h(2,3)] and py = hex_char_props [OF h(4,5)]
  have d: "dropWhile is_space (c_str (hex_string s)) = hex_string s"
    unfolding c_str_id [OF hex_string_no_nul] using h(1) px by simp
  have k: "skip_0x (hex_string s) = hex_string s"
    using py unfolding h(1) by (simp add: skip_0x_def split: list.split)
  have n: "hex_digits (hex_string s) 0 = be_val s" using hex_digits_hex [of s "[]" 0] by simp
  have "be_val s < 256 ^ length s" using be_val_bounds by blast
  also have "(256 :: int) ^ length s \<le> 256 ^ 8" using len by (intro power_increasing) auto
  finally have "be_val s < 2 ^ 64" by simp
  then show ?thesis unfolding strtoul16_def d Let_def using h(1) px k n by simp
qed

lemma mod_256_take_bit: "(x :: int) mod 256 = take_bit 8 x"
  by (simp add: take_bit_eq_mod)

lemma le_val_Cons: "le_val (c # cs) = of_char c + 256 * le_val cs"
  by (simp add: le_val_def be_val_snoc)

lemma bit_of_char_div: "(n :: nat) \<ge> 8 \<Longrightarrow> \<not> bit (of_char c :: int) n"
proof -
  assume "8 \<le> n"
  have "take_bit 8 (of_char c :: int) = of_char c" by (rule take_bit_int_eq_self) simp_all
  then have "bit (of_char c :: int) n = bit (take_bit 8 (of_char c :: int)) n" by (simp only:)
  with \<open>8 \<le> n\<close> show ?thesis by (simp only: bit_take_bit_iff) simp
qed

lemma bit_le_val: "bit (le_val s) n \<longleftrightarrow> n div 8 < length s \<and> bit (of_char (s ! (n div 8)) :: int) (n mod 8)"
proof (induction s arbitrary: n)
  case Nil
  then show ?case by (simp add: le_val_def)
next
  case (Cons c cs)
  have "le_val (c # cs) = of_char c + push_bit 8 (le_val cs)"
    by (simp add: le_val_Cons push_bit_eq_mult)
  also have "\<dots> = of_char c OR push_bit 8 (le_val cs)"
    by (rule disjunctive_add) (auto simp: bit_push_bit_iff bit_of_char_div)
  finally have e: "bit (le_val (c # cs)) n \<longleftrightarrow> bit (of_char c :: int) n \<or> 8 \<le> n \<and> bit (le_val cs) (n - 8)"
    by (auto simp: bit_or_iff bit_push_bit_iff)
  show ?case
  proof (cases "n < 8")
    case True
    then show ?thesis by (simp add: e)
  next
    case False
    then have "n div 8 = Suc ((n - 8) div 8)" "n mod 8 = (n - 8) mod 8"
      by (simp_all add: le_div_geq le_mod_geq)
    with False show ?thesis by (simp add: e Cons bit_of_char_div)
  qed
qed

lemma nth_be_bytes: "i < n \<Longrightarrow> be_bytes n v ! i = char_of (v div 256 ^ (n - 1 - i))"
proof (induction n arbitrary: v)
  case 0
  then show ?case by simp
next
  case (Suc n)
  show ?case
  proof (cases "i < n")
    case True
    then have "n - i = Suc (n - 1 - i)" by simp
    with True Suc.IH [of "v div 256"] show ?thesis
      by (simp add: nth_append zdiv_zmult2_eq)
  next
    case False
    with Suc.prems have "i = n" by simp
    then show ?thesis by (simp add: nth_append)
  qed
qed

text \<open>What reversing the bytes does to each bit.\<close>

lemma bit_swap_bytes: "bit (swap_bytes n v) k \<longleftrightarrow> k div 8 < n \<and> bit v (8 * (n - 1 - k div 8) + k mod 8)"
proof (cases "k div 8 < n")
  case True
  let ?j = "n - 1 - k div 8"
  have "v div 256 ^ ?j = drop_bit (8 * ?j) v" by (simp add: drop_bit_eq_div power_mult)
  then have "bit (of_char (be_bytes n v ! (k div 8)) :: int) (k mod 8) \<longleftrightarrow> bit v (8 * ?j + k mod 8)"
    using True by (simp add: nth_be_bytes bit_take_bit_iff bit_drop_bit_eq mod_256_take_bit)
  with True show ?thesis by (simp add: swap_bytes_def bit_le_val)
next
  case False
  then show ?thesis by (simp add: swap_bytes_def bit_le_val)
qed

end
