(* ===== verification/Message_Data.thy ===== *)
theory Message_Data
  imports C_Text
begin

text \<open>
  \<open>Message\<close> and \<open>MessageExt\<close> (\<open>src/src/message/Message.cpp\<close>, \<open>MessageExt.cpp\<close>). A message
  is a record; \<open>m_body\<close> is \<open>None\<close> for the null pointer. \<open>MessageExt\<close> extends
  \<open>Message\<close>, so the operations of the base class apply to both. \<open>sockaddr\<close> keeps the
  two fields the client uses, in memory order.
\<close>

record sockaddr =
  sin_addr :: int
  sin_port :: int

record Message =
  msg_topic :: string
  msg_flag :: int
  msg_properties :: "(string, string) smap"
  msg_body :: "string option"
  msg_bodyLen :: int

record MessageExt = Message +
  ext_queueOffset :: int
  ext_commitLogOffset :: int
  ext_bornTimestamp :: int
  ext_storeTimestamp :: int
  ext_preparedTransactionOffset :: int
  ext_queueId :: int
  ext_storeSize :: int
  ext_sysFlag :: int
  ext_bodyCRC :: int
  ext_reconsumeTimes :: int
  ext_bornHost :: sockaddr
  ext_storeHost :: sockaddr
  ext_msgId :: string

definition PROPERTY_KEYS :: string where "PROPERTY_KEYS = ''KEYS''"
definition PROPERTY_TAGS :: string where "PROPERTY_TAGS = ''TAGS''"
definition PROPERTY_WAIT_STORE_MSG_OK :: string where "PROPERTY_WAIT_STORE_MSG_OK = ''WAIT''"
definition PROPERTY_DELAY_TIME_LEVEL :: string where "PROPERTY_DELAY_TIME_LEVEL = ''DELAY''"
definition PROPERTY_RETRY_TOPIC :: string where "PROPERTY_RETRY_TOPIC = ''RETRY_TOPIC''"
definition KEY_SEPARATOR :: string where "KEY_SEPARATOR = '' ''"

lemmas property_names =
  PROPERTY_KEYS_def PROPERTY_TAGS_def PROPERTY_WAIT_STORE_MSG_OK_def
  PROPERTY_DELAY_TIME_LEVEL_def PROPERTY_RETRY_TOPIC_def

definition clearProperty :: "string \<Rightarrow> ('a Message_scheme) \<Rightarrow> 'a Message_scheme" where
  "clearProperty name m = m\<lparr>msg_properties := map_erase str_lt name (msg_properties m)\<rparr>"

definition putProperty :: "string \<Rightarrow> string \<Rightarrow> ('a Message_scheme) \<Rightarrow> 'a Message_scheme" where
  "putProperty name v m = m\<lparr>msg_properties := map_put str_lt name v (msg_properties m)\<rparr>"

definition getProperty :: "string \<Rightarrow> ('a Message_scheme) \<Rightarrow> string" where
  "getProperty name m =
     (case map_find str_lt name (msg_properties m) of None \<Rightarrow> '''' | Some v \<Rightarrow> v)"

definition getTags :: "('a Message_scheme) \<Rightarrow> string" where
  "getTags m = getProperty PROPERTY_TAGS m"

definition setTags :: "string \<Rightarrow> ('a Message_scheme) \<Rightarrow> 'a Message_scheme" where
  "setTags tags m = putProperty PROPERTY_TAGS tags m"

definition getKeys :: "('a Message_scheme) \<Rightarrow> string" where
  "getKeys m = getProperty PROPERTY_KEYS m"

definition setKeys :: "string \<Rightarrow> ('a Message_scheme) \<Rightarrow> 'a Message_scheme" where
  "setKeys keys m = putProperty PROPERTY_KEYS keys m"

fun join_keys :: "string \<Rightarrow> string list \<Rightarrow> string" where
  "join_keys str [] = str"
| "join_keys str (k # ks) = join_keys (str @ KEY_SEPARATOR @ k) ks"

definition setKeys_list :: "string list \<Rightarrow> ('a Message_scheme) \<Rightarrow> 'a Message_scheme" where
  "setKeys_list keys m =
     (case keys of [] \<Rightarrow> m | k # ks \<Rightarrow> setKeys (join_keys k ks) m)"

definition getDelayTimeLevel :: "('a Message_scheme) \<Rightarrow> int" where
  "getDelayTimeLevel m =
     (let tmp = getProperty PROPERTY_DELAY_TIME_LEVEL m in
      if tmp \<noteq> [] then atoi tmp else 0)"

definition setDelayTimeLevel :: "int \<Rightarrow> ('a Message_scheme) \<Rightarrow> 'a Message_scheme" where
  "setDelayTimeLevel level m = putProperty PROPERTY_DELAY_TIME_LEVEL (show_int level) m"

definition isWaitStoreMsgOK :: "('a Message_scheme) \<Rightarrow> bool" where
  "isWaitStoreMsgOK m =
     (let tmp = getProperty PROPERTY_WAIT_STORE_MSG_OK m in
      if tmp = [] then True else if tmp = ''true'' then True else False)"

definition setWaitStoreMsgOK :: "bool \<Rightarrow> ('a Message_scheme) \<Rightarrow> 'a Message_scheme" where
  "setWaitStoreMsgOK b m =
     (if b then putProperty PROPERTY_WAIT_STORE_MSG_OK ''true'' m
      else putProperty PROPERTY_WAIT_STORE_MSG_OK ''false'' m)"

text \<open>\<open>body\<close> is the caller's memory from the pointer on; \<open>len\<close> bytes of it are copied.\<close>

definition setBody :: "string \<Rightarrow> int \<Rightarrow> ('a Message_scheme) \<Rightarrow> 'a Message_scheme" where
  "setBody body len m =
     (if len > 0 then m\<lparr>msg_bodyLen := len, msg_body := Some (take (nat len) body)\<rparr> else m)"

definition setProperties :: "(string, string) smap \<Rightarrow> ('a Message_scheme) \<Rightarrow> 'a Message_scheme" where
  "setProperties ps m = m\<lparr>msg_properties := ps\<rparr>"

definition Message_Init ::
  "string \<Rightarrow> string \<Rightarrow> string \<Rightarrow> int \<Rightarrow> string \<Rightarrow> int \<Rightarrow> bool \<Rightarrow> Message" where
  "Message_Init topic tags keys flag body len waitStoreMsgOK =
     (let m = \<lparr>msg_topic = topic, msg_flag = flag, msg_properties = [],
               msg_body = (if len > 0 then Some (take (nat len) body) else None),
               msg_bodyLen = len\<rparr>;
          m = (if length tags > 0 then setTags tags m else m);
          m = (if length keys > 0 then setKeys keys m else m)
      in setWaitStoreMsgOK waitStoreMsgOK m)"

text \<open>The constructors of \<open>Message\<close>; the destructor releases \<open>m_body\<close>.\<close>

definition Message_new :: Message where
  "Message_new = Message_Init '''' '''' '''' 0 [] 0 True"

definition Message_new_body :: "string \<Rightarrow> string \<Rightarrow> int \<Rightarrow> Message" where
  "Message_new_body topic body len = Message_Init topic '''' '''' 0 body len True"

definition Message_new_tags :: "string \<Rightarrow> string \<Rightarrow> string \<Rightarrow> int \<Rightarrow> Message" where
  "Message_new_tags topic tags body len = Message_Init topic tags '''' 0 body len True"

definition Message_new_keys :: "string \<Rightarrow> string \<Rightarrow> string \<Rightarrow> string \<Rightarrow> int \<Rightarrow> Message" where
  "Message_new_keys topic tags keys body len = Message_Init topic tags keys 0 body len True"

text \<open>The copy constructor allocates \<open>other.m_bodyLen\<close> bytes even for a null body, so a copy
  of an empty message has a non-null body of length 0. A copy of a message whose stated
  length is negative throws \<open>bad_alloc\<close>.\<close>

definition Message_copy :: "('a Message_scheme) \<Rightarrow> Message option" where
  "Message_copy other =
     (if msg_bodyLen other < 0 then None
      else Some \<lparr>msg_topic = msg_topic other, msg_flag = msg_flag other,
        msg_properties = msg_properties other,
        msg_body = Some (take (nat (msg_bodyLen other)) (case msg_body other of None \<Rightarrow> [] | Some b \<Rightarrow> b)),
        msg_bodyLen = msg_bodyLen other\<rparr>)"

definition MessageExt_new :: MessageExt where
  "MessageExt_new = Message.extend Message_new
     (MessageExt.fields 0 0 0 0 0 0 0 0 0 3 \<lparr>sin_addr = 0, sin_port = 0\<rparr> \<lparr>sin_addr = 0, sin_port = 0\<rparr> '''')"

definition props_wf :: "('a Message_scheme) \<Rightarrow> bool" where
  "props_wf m \<longleftrightarrow> map_wf str_lt any_key (msg_properties m)"

definition body_wf :: "('a Message_scheme) \<Rightarrow> bool" where
  \<comment> \<open>the stored length is the length of the stored body\<close>
  "body_wf m \<longleftrightarrow>
     (case msg_body m of None \<Rightarrow> msg_bodyLen m = 0 | Some b \<Rightarrow> msg_bodyLen m = int (length b))"

section \<open>Properties of a message\<close>

lemma getProperty_put:
  "props_wf m \<Longrightarrow> getProperty n (putProperty k v m) = (if n = k then v else getProperty n m)"
  by (simp add: getProperty_def putProperty_def props_wf_def str.find_put)

lemma getProperty_clear:
  "props_wf m \<Longrightarrow> getProperty n (clearProperty k m) = (if n = k then '''' else getProperty n m)"
  by (simp add: getProperty_def clearProperty_def props_wf_def str.find_erase)

lemma props_wf_put [simp]: "props_wf m \<Longrightarrow> props_wf (putProperty k v m)"
  by (simp add: props_wf_def putProperty_def str.put_wf)

lemma props_wf_clear [simp]: "props_wf m \<Longrightarrow> props_wf (clearProperty k m)"
  by (simp add: props_wf_def clearProperty_def str.erase_wf)

lemma body_wf_putProperty [simp]: "body_wf (putProperty k v m) \<longleftrightarrow> body_wf m"
  by (simp add: body_wf_def putProperty_def split: option.split)

lemma join_keys_eq: "join_keys s ks = s @ concat (map (\<lambda>k. KEY_SEPARATOR @ k) ks)"
  by (induction ks arbitrary: s) auto

lemma Message_Init_props: "props_wf (Message_Init topic tags keys flag body len w)"
proof -
  have "props_wf \<lparr>msg_topic = topic, msg_flag = flag, msg_properties = [],
               msg_body = b, msg_bodyLen = len\<rparr>" for b
    by (simp add: props_wf_def)
  then show ?thesis
    by (simp add: Message_Init_def Let_def setTags_def setKeys_def setWaitStoreMsgOK_def)
qed

lemma Message_Init_body:
  "0 \<le> len \<Longrightarrow> len \<le> int (length body) \<Longrightarrow> body_wf (Message_Init topic tags keys flag body len w)"
  by (auto simp: Message_Init_def Let_def setTags_def setKeys_def setWaitStoreMsgOK_def body_wf_def
      putProperty_def)

lemma body_wf_setBody:
  "body_wf m \<Longrightarrow> len \<le> int (length body) \<Longrightarrow> body_wf (setBody body len m)"
  by (auto simp: setBody_def body_wf_def)

end
