(* ===== verification/Util_All.thy ===== *)
theory Util_All
  imports Message_Data
begin

text \<open>
  Text helpers: \<open>UtilAll::Split\<close>, \<open>Trim\<close>, \<open>isBlank\<close> and \<open>hashCode\<close>
  (\<open>src/src/common/UtilAll.cpp\<close>, \<open>UtilAll.h\<close>), the checks of \<open>Validators.cpp\<close>, and the
  virtual environment suffixes of \<open>VirtualEnvUtil.cpp\<close>. \<open>Split\<close> with an empty delimiter never
  returns, which is \<open>None\<close>. \<open>hashCode\<close> is computed in wrapping \<open>int\<close> on signed \<open>char\<close>.
\<close>

section \<open>std::string searches\<close>

text \<open>\<open>s.find(d)\<close>: the first position at which \<open>d\<close> stands.\<close>

fun str_find :: "string \<Rightarrow> string \<Rightarrow> nat option" where
  "str_find d s =
     (if starts_with d s then Some 0
      else case s of [] \<Rightarrow> None | _ # r \<Rightarrow> map_option Suc (str_find d r))"

declare str_find.simps [simp del]

text \<open>\<open>s.find_last_of(cs)\<close>: the last position holding one of the characters \<open>cs\<close>.\<close>

definition find_last_of :: "string \<Rightarrow> string \<Rightarrow> nat option" where
  "find_last_of cs s =
     (let n = length (dropWhile (\<lambda>c. c \<notin> set cs) (rev s)) in if n = 0 then None else Some (n - 1))"

definition WHITESPACE :: string where
  "WHITESPACE = [CHR '' '', CHR 0x09, CHR 0x0D, CHR 0x0A]"

definition find_first_not_of :: "string \<Rightarrow> string \<Rightarrow> nat option" where
  "find_first_not_of cs s =
     (let n = length (takeWhile (\<lambda>c. c \<in> set cs) s) in if n = length s then None else Some n)"

definition find_last_not_of :: "string \<Rightarrow> string \<Rightarrow> nat option" where
  "find_last_not_of cs s =
     (let n = length (dropWhile (\<lambda>c. c \<in> set cs) (rev s)) in if n = 0 then None else Some (n - 1))"

section \<open>UtilAll\<close>

text \<open>The loop works on \<open>in\<close> from \<open>left\<close> on; here that suffix is the argument.\<close>

partial_function (option) split_loop :: "string \<Rightarrow> string \<Rightarrow> string list option" where
  "split_loop delimiter s =
     (case str_find delimiter s of
        None \<Rightarrow> Some [s]
      | Some right \<Rightarrow> Option.bind (split_loop delimiter (drop (right + length delimiter) s))
                         (\<lambda>r. Some (take right s # r)))"

declare split_loop.simps [code]

definition Split :: "string list \<Rightarrow> string \<Rightarrow> string \<Rightarrow> string list option" where
  \<comment> \<open>the vector after the call; the returned count is its length\<close>
  "Split out s delimiter = map_option (\<lambda>r. out @ r) (split_loop delimiter s)"

definition Split_char :: "string list \<Rightarrow> string \<Rightarrow> char \<Rightarrow> string list option" where
  "Split_char out s delimiter = map_option (\<lambda>r. out @ r) (split_loop [delimiter] s)"

definition Trim :: "string \<Rightarrow> string" where
  "Trim str =
     (if str = [] then str
      else case find_first_not_of WHITESPACE str of
        None \<Rightarrow> ''''
      | Some left \<Rightarrow>
          (case find_last_not_of WHITESPACE str of
             None \<Rightarrow> drop left str
           | Some right \<Rightarrow> take (right - left + 1) (drop left str)))"

definition isBlank :: "string \<Rightarrow> bool" where
  "isBlank str = (if str = [] then True else find_first_not_of WHITESPACE str = None)"

definition schar :: "char \<Rightarrow> int" where
  "schar c = (let n = of_char c in if n < 128 then n else n - 256)"

definition hashCode :: "string \<Rightarrow> int" where
  "hashCode s = foldl (\<lambda>h c. s32 (31 * h + schar c)) 0 s"

section \<open>Validators\<close>

definition validPatternStr :: string where "validPatternStr = ''^[a-zA-Z0-9_-]+$''"
definition CHARACTER_MAX_LENGTH :: nat where "CHARACTER_MAX_LENGTH = 255"
definition DEFAULT_TOPIC :: string where "DEFAULT_TOPIC = ''TBW102''"

definition regularExpressionMatcher :: "string \<Rightarrow> string \<Rightarrow> bool" where
  "regularExpressionMatcher origin patternStr =
     (if isBlank origin then False else if isBlank patternStr then True else True)"

definition checkTopic :: "string \<Rightarrow> mq_exception option" where
  "checkTopic topic =
     (if isBlank topic then Some (MQClientException ''the specified topic is blank'' (-1))
      else if length topic > CHARACTER_MAX_LENGTH
        then Some (MQClientException ''the specified topic is longer than topic max length 255.'' (-1))
      else if topic = DEFAULT_TOPIC
        then Some (MQClientException (''the topic['' @ topic @ ''] is conflict with default topic.'') (-1))
      else if \<not> regularExpressionMatcher topic validPatternStr
        then Some (MQClientException
               (''the specified topic['' @ topic @ ''] contains illegal characters, allowing only'' @ validPatternStr) (-1))
      else None)"

definition checkGroup :: "string \<Rightarrow> mq_exception option" where
  "checkGroup grp =
     (if isBlank grp then Some (MQClientException ''the specified group is blank'' (-1))
      else if \<not> regularExpressionMatcher grp validPatternStr
        then Some (MQClientException
               (''the specified group['' @ grp @ ''] contains illegal characters, allowing only'' @ validPatternStr) (-1))
      else if length grp > CHARACTER_MAX_LENGTH
        then Some (MQClientException ''the specified group is longer than group max length 255.'' (-1))
      else None)"

definition checkMessage :: "'a Message_scheme \<Rightarrow> int \<Rightarrow> mq_exception option" where
  "checkMessage msg maxMessageSize =
     (case checkTopic (msg_topic msg) of
        Some e \<Rightarrow> Some e
      | None \<Rightarrow>
          if msg_body msg = None then Some (MQClientException ''the message body is null'' (-1))
          else if msg_bodyLen msg = 0 then Some (MQClientException ''the message body length is zero'' (-1))
          else if msg_bodyLen msg > maxMessageSize
            then Some (MQClientException (''the message body size over max value, MAX: '' @ show_int maxMessageSize) (-1))
          else None)"

section \<open>VirtualEnvUtil\<close>

text \<open>\<open>sprintf(prefix, "%%PROJECT_%s%%", ...)\<close> into a buffer of 1024 bytes; \<open>None\<close> when it overflows.\<close>

definition project_prefix :: "string \<Rightarrow> string option" where
  "project_prefix projectGroup =
     (let p = ''%PROJECT_'' @ c_str projectGroup @ ''%'' in if length p < 1024 then Some p else None)"

definition buildWithProjectGroup :: "string \<Rightarrow> string \<Rightarrow> string option" where
  "buildWithProjectGroup origin projectGroup =
     (if \<not> isBlank projectGroup
      then (case project_prefix projectGroup of None \<Rightarrow> None
            | Some prefix \<Rightarrow>
                if find_last_of prefix origin = None then Some (origin @ prefix) else Some origin)
      else Some origin)"

definition clearProjectGroup :: "string \<Rightarrow> string \<Rightarrow> string option" where
  "clearProjectGroup origin projectGroup =
     (case project_prefix projectGroup of None \<Rightarrow> None
      | Some prefix \<Rightarrow>
          (case find_last_of prefix origin of
             None \<Rightarrow> Some origin
           | Some pos \<Rightarrow> if \<not> isBlank prefix then Some (take pos origin) else Some origin))"

section \<open>Lemmas\<close>

lemma str_find_Some:
  "str_find d s = Some i \<Longrightarrow> starts_with d (drop i s) \<and> i + length d \<le> length s \<and> (\<forall>j < i. \<not> starts_with d (drop j s))"
proof (induction s arbitrary: i)
  case Nil
  then show ?case by (auto simp: str_find.simps [of d "[]"] starts_with_def split: if_splits)
next
  case (Cons c s)
  show ?case
  proof (cases "starts_with d (c # s)")
    case True
    then have "length (take (length d) (c # s)) = length d" by (simp add: starts_with_def)
    with True Cons.prems show ?thesis by (simp add: str_find.simps [of d "c # s"])
  next
    case False
    with Cons.prems obtain k where k: "str_find d s = Some k" "i = Suc k"
      by (auto simp: str_find.simps [of d "c # s"])
    with Cons.IH [OF k(1)] False show ?thesis by (auto simp: less_Suc_eq_0_disj)
  qed
qed

lemma str_find_None: "str_find d s = None \<Longrightarrow> \<not> starts_with d (drop j s)"
proof (induction s arbitrary: j)
  case Nil
  then show ?case by (auto simp: str_find.simps [of d "[]"] split: if_splits)
next
  case (Cons c s)
  then show ?case
    by (cases j) (auto simp: str_find.simps [of d "c # s"] split: if_splits)
qed

text \<open>Joining pieces with a delimiter, and a piece that holds no delimiter.\<close>

fun join :: "string \<Rightarrow> string list \<Rightarrow> string" where
  "join d [] = ''''"
| "join d [x] = x"
| "join d (x # y # ys) = x @ d @ join d (y # ys)"

definition free_of :: "string \<Rightarrow> string \<Rightarrow> bool" where
  "free_of d s \<longleftrightarrow> (\<forall>j. \<not> starts_with d (drop j s))"

lemma free_of_take:
  assumes "\<forall>j < i. \<not> starts_with d (drop j s)" "d \<noteq> []"
  shows "free_of d (take i s)"
  unfolding free_of_def
proof
  fix j
  show "\<not> starts_with d (drop j (take i s))"
  proof
    assume a: "starts_with d (drop j (take i s))"
    then have "length (take (length d) (drop j (take i s))) = length d" by (simp add: starts_with_def)
    with assms(2) have j: "j < i" "length d \<le> i - j" by (cases "j < i"; auto simp: min_def split: if_splits)+
    then have "starts_with d (drop j s)"
      using a by (simp add: starts_with_def drop_take min_def)
    with assms(1) j show False by blast
  qed
qed

lemma split_loop_Some:
  assumes "d \<noteq> []"
  shows "\<exists>r. split_loop d s = Some r \<and> r \<noteq> [] \<and> join d r = s \<and> (\<forall>x \<in> set r. free_of d x)"
proof (induction "length s" arbitrary: s rule: less_induct)
  case less
  show ?case
  proof (cases "str_find d s")
    case None
    then show ?thesis by (simp add: split_loop.simps [of d s] free_of_def str_find_None)
  next
    case (Some i)
    note f = str_find_Some [OF Some]
    then have "length (drop (i + length d) s) < length s" using assms by (cases s) auto
    from less [OF this] obtain r where r: "split_loop d (drop (i + length d) s) = Some r" "r \<noteq> []"
      "join d r = drop (i + length d) s" "\<forall>x \<in> set r. free_of d x" by blast
    have "take i s @ d @ drop (i + length d) s = s"
      using f by (metis append_take_drop_id drop_drop starts_with_def add.commute)
    moreover have "free_of d (take i s)" using free_of_take f assms by blast
    ultimately show ?thesis
      using r Some by (cases r) (auto simp: split_loop.simps [of d s])
  qed
qed

lemma split_loop_empty: "split_loop [] s = None"
proof (rule ccontr)
  assume "split_loop [] s \<noteq> None"
  then obtain r where "split_loop [] s = Some r" by blast
  then have "[] \<noteq> ([] :: string)"
  proof (rule split_loop.raw_induct [where P = "\<lambda>d s r. d \<noteq> []", rotated])
    fix f and d s :: string and r
    assume IH: "\<And>d s r. f d s = Some r \<Longrightarrow> d \<noteq> []"
      and e: "(case str_find d s of None \<Rightarrow> Some [s]
        | Some right \<Rightarrow> Option.bind (f d (drop (right + length d) s)) (\<lambda>r. Some (take right s # r))) = Some r"
    show "d \<noteq> []"
    proof
      assume "d = []"
      then have "str_find d s = Some 0" by (simp add: str_find.simps [of "[]" s] starts_with_def)
      with e obtain r' where "f d (drop (length d) s) = Some r'"
        by (cases "f d (drop (length d) s)") auto
      with IH \<open>d = []\<close> show False by blast
    qed
  qed
  then show False by simp
qed

abbreviation is_ws :: "char \<Rightarrow> bool" where "is_ws c \<equiv> c \<in> set WHITESPACE"

lemma find_first_not_of_eq:
  "find_first_not_of cs s = (if dropWhile (\<lambda>c. c \<in> set cs) s = [] then None
     else Some (length (takeWhile (\<lambda>c. c \<in> set cs) s)))"
proof -
  have "length (takeWhile (\<lambda>c. c \<in> set cs) s) = length s \<longleftrightarrow> dropWhile (\<lambda>c. c \<in> set cs) s = []"
    by (metis append.right_neutral append_eq_append_conv takeWhile_dropWhile_id)
  then show ?thesis by (simp add: find_first_not_of_def Let_def)
qed

lemma isBlank_iff: "isBlank s \<longleftrightarrow> (\<forall>c \<in> set s. is_ws c)"
  by (auto simp: isBlank_def find_first_not_of_eq dropWhile_eq_Nil_conv)

lemma Trim_eq: "Trim s = rev (dropWhile is_ws (rev (dropWhile is_ws s)))"
proof (cases "dropWhile is_ws s = []")
  case True
  then have "Trim s = []" by (simp add: Trim_def find_first_not_of_eq)
  with True show ?thesis by (simp only: rev.simps dropWhile.simps)
next
  case False
  define l where "l = takeWhile is_ws s"
  define b where "b = dropWhile is_ws s"
  define m where "m = rev (dropWhile is_ws (rev b))"
  define t where "t = rev (takeWhile is_ws (rev b))"
  have b: "b = m @ t" unfolding m_def t_def by (metis rev_append rev_rev_ident takeWhile_dropWhile_id)
  have s: "s = l @ m @ t" unfolding b [symmetric] by (simp add: l_def b_def)
  have "\<not> is_ws (hd b)" "hd b \<in> set b" using False hd_dropWhile [of is_ws s] by (simp_all add: b_def)
  then have "\<not> (\<forall>c \<in> set (rev b). is_ws c)" by auto
  then have mne: "m \<noteq> []" unfolding m_def rev_is_Nil_conv dropWhile_eq_Nil_conv .
  have dl: "dropWhile is_ws (rev s) = rev m @ rev l"
  proof -
    have "\<forall>c \<in> set (rev t). is_ws c" by (auto simp: t_def dest: set_takeWhileD)
    then have "dropWhile is_ws (rev t @ rev m @ rev l) = dropWhile is_ws (rev m @ rev l)"
      by (intro dropWhile_append2) blast
    then have "dropWhile is_ws (rev s) = dropWhile is_ws (rev m @ rev l)" by (simp add: s)
    also have "\<dots> = rev m @ rev l"
    proof -
      have "\<not> is_ws (hd (rev m))" using mne hd_dropWhile [of is_ws "rev b"] by (auto simp: m_def)
      then show ?thesis using mne by (cases "rev m") auto
    qed
    finally show ?thesis .
  qed
  have "Trim s = take (length m) (drop (length l) s)"
    using False mne
    by (auto simp: Trim_def find_first_not_of_eq find_last_not_of_def Let_def dl b_def simp flip: l_def)
  also have "\<dots> = m" by (simp add: s)
  finally show ?thesis by (simp add: m_def b_def)
qed

section \<open>Claims\<close>

text \<open>
  \<open>UtilAll::Split\<close> is the inverse of joining: for a non-empty delimiter it returns, the pieces
  joined with the delimiter are the input again and no piece holds the delimiter; earlier contents
  of the vector are kept in front. With an empty delimiter the loop never ends.
\<close>

theorem Split_join:
  "(d \<noteq> [] \<longrightarrow> (\<exists>r. Split out s d = Some (out @ r) \<and> r \<noteq> [] \<and> join d r = s \<and> (\<forall>x \<in> set r. free_of d x))) \<and>
   Split out s [] = None"
  using split_loop_Some [of d s] by (auto simp: Split_def split_loop_empty)

theorem Split_join_witness:
  "\<exists>r. Split [] ''a||b'' ''||'' = Some ([] @ r) \<and> r \<noteq> [] \<and> join ''||'' r = ''a||b'' \<and> (\<forall>x \<in> set r. free_of ''||'' x)"
  using Split_join [of "''||''" "[]" "''a||b''"] by simp

lemma project_prefix_shape:
  "project_prefix g = Some p \<Longrightarrow> \<exists>q. p = q @ ''%'' \<and> q \<noteq> [] \<and> \<not> isBlank p"
  by (auto simp: project_prefix_def Let_def isBlank_iff WHITESPACE_def split: if_splits)

text \<open>
  Removing the project suffix does not undo adding it: whenever \<open>buildWithProjectGroup\<close> appends its
  suffix, \<open>clearProjectGroup\<close> only cuts the closing percent sign off again, because it looks for the
  last character out of the suffix and not for the suffix.
\<close>

theorem clearProjectGroup_not_inverse:
  assumes "\<not> isBlank g" "project_prefix g = Some p" "find_last_of p origin = None"
  shows "buildWithProjectGroup origin g = Some (origin @ p) \<and>
    clearProjectGroup (origin @ p) g = Some (origin @ butlast p) \<and> origin @ butlast p \<noteq> origin"
proof -
  obtain q where q: "p = q @ ''%''" "q \<noteq> []" "\<not> isBlank p" using project_prefix_shape [OF assms(2)] by blast
  then have "find_last_of p (origin @ p) = Some (length origin + length q)"
    by (simp add: find_last_of_def)
  with assms q show ?thesis by (simp add: buildWithProjectGroup_def clearProjectGroup_def)
qed

theorem clearProjectGroup_not_inverse_witness:
  "clearProjectGroup ''abc%PROJECT_x%'' ''x'' = Some ''abc%PROJECT_x''"
  using clearProjectGroup_not_inverse [of "''x''" "''%PROJECT_x%''" "''abc''"]
  by (simp add: isBlank_iff WHITESPACE_def project_prefix_def Let_def find_last_of_def c_str_def)

text \<open>
  What the validators accept: a topic passes exactly when it is not blank, has at most 255 characters
  and is not the default topic (the character pattern that the error text promises is never tested), a
  group likewise, and a message passes exactly when its topic does and its body is present, not empty and
  within the limit.
\<close>

theorem validators_accept:
  "(checkTopic t = None \<longleftrightarrow> (\<exists>c \<in> set t. \<not> is_ws c) \<and> length t \<le> 255 \<and> t \<noteq> ''TBW102'') \<and>
   (checkGroup t = None \<longleftrightarrow> (\<exists>c \<in> set t. \<not> is_ws c) \<and> length t \<le> 255) \<and>
   (checkMessage m k = None \<longleftrightarrow>
      checkTopic (msg_topic m) = None \<and> msg_body m \<noteq> None \<and> msg_bodyLen m \<noteq> 0 \<and> msg_bodyLen m \<le> k)"
proof (intro conjI)
  show "checkTopic t = None \<longleftrightarrow> (\<exists>c \<in> set t. \<not> is_ws c) \<and> length t \<le> 255 \<and> t \<noteq> ''TBW102''"
    by (simp add: checkTopic_def regularExpressionMatcher_def CHARACTER_MAX_LENGTH_def DEFAULT_TOPIC_def isBlank_iff not_le)
  show "checkGroup t = None \<longleftrightarrow> (\<exists>c \<in> set t. \<not> is_ws c) \<and> length t \<le> 255"
    by (simp add: checkGroup_def regularExpressionMatcher_def CHARACTER_MAX_LENGTH_def isBlank_iff not_le)
  show "checkMessage m k = None \<longleftrightarrow>
      checkTopic (msg_topic m) = None \<and> msg_body m \<noteq> None \<and> msg_bodyLen m \<noteq> 0 \<and> msg_bodyLen m \<le> k"
    by (auto simp: checkMessage_def split: option.splits)
qed

end
