(* ===== verification/Flags_Config.thy ===== *)
theory Flags_Config
  imports Util_All
begin

text \<open>
  The bit flags of \<open>PullSysFlag.cpp\<close>, \<open>MessageSysFlag.cpp\<close> and \<open>PermName.cpp\<close>, and
  \<open>TopicConfig.cpp\<close> with its text form. \<open>std::string::replace\<close> is \<open>str_replace\<close>; a position
  past the end throws, which is \<open>None\<close>. In \<open>TopicConfig::decode\<close> the local \<open>type\<close> is not
  initialised; what it holds is the argument \<open>junk\<close>.
\<close>

unbundle bit_operations_syntax

section \<open>PullSysFlag\<close>

definition FLAG_COMMIT_OFFSET :: int where "FLAG_COMMIT_OFFSET = 1"
definition FLAG_SUSPEND :: int where "FLAG_SUSPEND = 2"
definition FLAG_SUBSCRIPTION :: int where "FLAG_SUBSCRIPTION = 4"

definition buildSysFlag :: "bool \<Rightarrow> bool \<Rightarrow> bool \<Rightarrow> int" where
  "buildSysFlag commitOffset suspend subscription =
     (let flag = 0;
          flag = (if commitOffset then flag OR FLAG_COMMIT_OFFSET else flag);
          flag = (if suspend then flag OR FLAG_SUSPEND else flag);
          flag = (if subscription then flag OR FLAG_SUBSCRIPTION else flag)
      in flag)"

definition clearCommitOffsetFlag :: "int \<Rightarrow> int" where
  "clearCommitOffsetFlag sysFlag = sysFlag AND (NOT FLAG_COMMIT_OFFSET)"

definition hasCommitOffsetFlag :: "int \<Rightarrow> bool" where
  "hasCommitOffsetFlag sysFlag \<longleftrightarrow> sysFlag AND FLAG_COMMIT_OFFSET = FLAG_COMMIT_OFFSET"

definition hasSuspendFlag :: "int \<Rightarrow> bool" where
  "hasSuspendFlag sysFlag \<longleftrightarrow> sysFlag AND FLAG_SUSPEND = FLAG_SUSPEND"

definition hasSubscriptionFlag :: "int \<Rightarrow> bool" where
  "hasSubscriptionFlag sysFlag \<longleftrightarrow> sysFlag AND FLAG_SUBSCRIPTION = FLAG_SUBSCRIPTION"

section \<open>MessageSysFlag\<close>

definition CompressedFlag :: int where "CompressedFlag = 1"
definition MultiTagsFlag :: int where "MultiTagsFlag = 2"
definition TransactionNotType :: int where "TransactionNotType = 0"
definition TransactionPreparedType :: int where "TransactionPreparedType = 4"
definition TransactionCommitType :: int where "TransactionCommitType = 8"
definition TransactionRollbackType :: int where "TransactionRollbackType = 12"

definition getTransactionValue :: "int \<Rightarrow> int" where
  "getTransactionValue flag = flag AND TransactionRollbackType"

definition resetTransactionValue :: "int \<Rightarrow> int \<Rightarrow> int" where
  "resetTransactionValue flag type = (flag AND (NOT TransactionRollbackType)) OR type"

section \<open>PermName\<close>

definition PERM_READ :: int where "PERM_READ = 4"
definition PERM_WRITE :: int where "PERM_WRITE = 2"
definition PERM_INHERIT :: int where "PERM_INHERIT = 1"

definition isReadable :: "int \<Rightarrow> bool" where "isReadable perm \<longleftrightarrow> perm AND PERM_READ = PERM_READ"
definition isWriteable :: "int \<Rightarrow> bool" where "isWriteable perm \<longleftrightarrow> perm AND PERM_WRITE = PERM_WRITE"
definition isInherited :: "int \<Rightarrow> bool" where "isInherited perm \<longleftrightarrow> perm AND PERM_INHERIT = PERM_INHERIT"

definition str_replace :: "nat \<Rightarrow> nat \<Rightarrow> string \<Rightarrow> string \<Rightarrow> string option" where
  "str_replace pos n r s = (if pos > length s then None else Some (take pos s @ r @ drop (pos + n) s))"

definition perm2String :: "int \<Rightarrow> string option" where
  "perm2String perm =
     (let pm = Some ''---'';
          pm = (if isReadable perm then Option.bind pm (str_replace 0 1 ''R'') else pm);
          pm = (if isWriteable perm then Option.bind pm (str_replace 1 2 ''W'') else pm);
          pm = (if isInherited perm then Option.bind pm (str_replace 2 3 ''X'') else pm)
      in pm)"

section \<open>TopicConfig\<close>

record TopicConfig =
  tc_topicName :: string
  tc_readQueueNums :: int
  tc_writeQueueNums :: int
  tc_perm :: int
  tc_topicFilterType :: int

definition DefaultReadQueueNums :: int where "DefaultReadQueueNums = 16"
definition DefaultWriteQueueNums :: int where "DefaultWriteQueueNums = 16"
definition SEPARATOR :: string where "SEPARATOR = '' ''"
definition SINGLE_TAG :: int where "SINGLE_TAG = 0"

definition TopicConfig_new :: "string \<Rightarrow> TopicConfig" where
  "TopicConfig_new topicName =
     \<lparr>tc_topicName = topicName, tc_readQueueNums = DefaultReadQueueNums,
      tc_writeQueueNums = DefaultWriteQueueNums, tc_perm = PERM_READ OR PERM_WRITE,
      tc_topicFilterType = SINGLE_TAG\<rparr>"

definition TopicConfig_make :: "string \<Rightarrow> int \<Rightarrow> int \<Rightarrow> int \<Rightarrow> TopicConfig" where
  "TopicConfig_make topicName readQueueNums writeQueueNums perm =
     \<lparr>tc_topicName = topicName, tc_readQueueNums = readQueueNums, tc_writeQueueNums = writeQueueNums,
      tc_perm = perm, tc_topicFilterType = SINGLE_TAG\<rparr>"

definition tc_encode :: "TopicConfig \<Rightarrow> string" where
  "tc_encode c = tc_topicName c @ SEPARATOR @ show_int (tc_readQueueNums c) @ SEPARATOR @
     show_int (tc_writeQueueNums c) @ SEPARATOR @ show_int (tc_perm c) @ SEPARATOR @
     show_int (tc_topicFilterType c)"

definition tc_decode :: "int \<Rightarrow> string \<Rightarrow> TopicConfig \<Rightarrow> bool \<times> TopicConfig" where
  "tc_decode junk s c =
     (let ss = \<lparr>is_rest = s, is_fail = False\<rparr>;
          (n, ss) = get_word ss (tc_topicName c);
          (r, ss) = get_int ss (tc_readQueueNums c);
          (w, ss) = get_int ss (tc_writeQueueNums c);
          (p, ss) = get_int ss (tc_perm c);
          (type, ss) = get_int ss junk
      in (True, c\<lparr>tc_topicName := n, tc_readQueueNums := r, tc_writeQueueNums := w, tc_perm := p,
                  tc_topicFilterType := type\<rparr>))"

section \<open>Lemmas\<close>

lemma mask_bit: "(x :: int) AND 2 ^ k = 2 ^ k \<longleftrightarrow> bit x k"
  by (subst bit_eq_iff) (auto simp: bit_and_iff bit_exp_iff)

lemma flag_bits:
  "hasCommitOffsetFlag x \<longleftrightarrow> bit x 0" "hasSuspendFlag x \<longleftrightarrow> bit x 1" "hasSubscriptionFlag x \<longleftrightarrow> bit x 2"
  "isReadable x \<longleftrightarrow> bit x 2" "isWriteable x \<longleftrightarrow> bit x 1" "isInherited x \<longleftrightarrow> bit x 0"
  using mask_bit [of x 0] mask_bit [of x 1] mask_bit [of x 2]
  by (simp_all add: hasCommitOffsetFlag_def hasSuspendFlag_def hasSubscriptionFlag_def isReadable_def
      isWriteable_def isInherited_def FLAG_COMMIT_OFFSET_def FLAG_SUSPEND_def FLAG_SUBSCRIPTION_def
      PERM_READ_def PERM_WRITE_def PERM_INHERIT_def)

section \<open>Claims\<close>

text \<open>
  The flag word of a pull request carries exactly the three booleans it is built from, and
  \<open>clearCommitOffsetFlag\<close> clears the commit bit of any word and no other bit.
\<close>

theorem sysFlag_roundtrip:
  "(hasCommitOffsetFlag (buildSysFlag c s u) \<longleftrightarrow> c) \<and> (hasSuspendFlag (buildSysFlag c s u) \<longleftrightarrow> s) \<and>
   (hasSubscriptionFlag (buildSysFlag c s u) \<longleftrightarrow> u) \<and>
   (bit (clearCommitOffsetFlag x) n \<longleftrightarrow> n \<noteq> 0 \<and> bit x n)"
proof -
  have "bit (clearCommitOffsetFlag x) n \<longleftrightarrow> n \<noteq> 0 \<and> bit x n"
    by (auto simp: clearCommitOffsetFlag_def FLAG_COMMIT_OFFSET_def bit_simps)
  moreover have "(hasCommitOffsetFlag (buildSysFlag c s u) \<longleftrightarrow> c) \<and> (hasSuspendFlag (buildSysFlag c s u) \<longleftrightarrow> s) \<and>
    (hasSubscriptionFlag (buildSysFlag c s u) \<longleftrightarrow> u)"
    by (cases c; cases s; cases u) (simp_all add: buildSysFlag_def hasCommitOffsetFlag_def hasSuspendFlag_def
        hasSubscriptionFlag_def FLAG_COMMIT_OFFSET_def FLAG_SUSPEND_def FLAG_SUBSCRIPTION_def)
  ultimately show ?thesis by blast
qed

text \<open>
  The transaction state is a two-bit field: \<open>resetTransactionValue\<close> with one of the four states makes
  \<open>getTransactionValue\<close> return it and leaves every other bit of the flag as it was.
\<close>

theorem transactionValue_roundtrip:
  assumes "type \<in> {TransactionNotType, TransactionPreparedType, TransactionCommitType, TransactionRollbackType}"
  shows "getTransactionValue (resetTransactionValue flag type) = type \<and>
    (n \<notin> {2, 3} \<longrightarrow> bit (resetTransactionValue flag type) n = bit flag n)"
proof -
  have m: "bit (12 :: int) i \<longleftrightarrow> i = 2 \<or> i = 3" for i
  proof -
    have "(12 :: int) = 2 ^ 2 OR 2 ^ 3" by simp
    then show ?thesis by (simp only: bit_or_iff bit_exp_iff) simp
  qed
  have nm: "bit (- 13 :: int) i \<longleftrightarrow> i \<noteq> 2 \<and> i \<noteq> 3" for i
    using bit_not_iff [of "12 :: int" i] m [of i] by simp
  have t: "bit type i \<Longrightarrow> i = 2 \<or> i = 3" for i
  proof -
    assume "bit type i"
    moreover have "type AND 12 = type"
      using assms by (auto simp: TransactionNotType_def TransactionPreparedType_def TransactionCommitType_def
          TransactionRollbackType_def)
    ultimately have "bit (type AND 12) i" by simp
    then show ?thesis by (simp add: bit_simps m)
  qed
  have "getTransactionValue (resetTransactionValue flag type) = type"
    using t by (subst bit_eq_iff) (auto simp: getTransactionValue_def resetTransactionValue_def
        TransactionRollbackType_def bit_and_iff bit_or_iff m nm)
  moreover have "n \<notin> {2, 3} \<longrightarrow> bit (resetTransactionValue flag type) n = bit flag n"
    using t by (auto simp: resetTransactionValue_def TransactionRollbackType_def bit_and_iff bit_or_iff m nm)
  ultimately show ?thesis by blast
qed

theorem transactionValue_roundtrip_witness:
  "getTransactionValue (resetTransactionValue 5 TransactionCommitType) = TransactionCommitType"
  using transactionValue_roundtrip [of TransactionCommitType 5 0] by simp

text \<open>
  What \<open>perm2String\<close> prints: it never throws, the read and write positions are right, but a writeable
  topic loses the third position unless it is also inherited, because \<open>replace(1, 2, ...)\<close> takes two
  characters away.
\<close>

theorem perm2String_table:
  "perm2String perm = Some ((if isReadable perm then ''R'' else ''-'') @ (if isWriteable perm then ''W'' else ''-'') @
     (if isInherited perm then ''X'' else if isWriteable perm then '''' else ''-''))"
  by (simp add: perm2String_def str_replace_def Let_def)

text \<open>
  The text form of a topic configuration is read back exactly, whatever the object held before and
  whatever the uninitialised local of \<open>decode\<close> contains, for a name without white space and 32-bit numbers.
\<close>

theorem TopicConfig_roundtrip:
  assumes "tc_topicName c \<noteq> []" "\<forall>x \<in> set (tc_topicName c). \<not> is_space x"
    and "is_s32 (tc_readQueueNums c)" "is_s32 (tc_writeQueueNums c)" "is_s32 (tc_perm c)" "is_s32 (tc_topicFilterType c)"
  shows "tc_decode junk (tc_encode c) old = (True, c)"
proof -
  have sp: "\<forall>x \<in> set '' ''. is_space x" by (simp add: is_space_def)
  have ws: "word_sep ('' '' @ r)" for r by (simp add: word_sep_def is_space_def)
  note w = get_word_sep [where sp = "[]", simplified, OF assms(1,2)]
  note i = get_int_sep [OF _ _ sp]
  show ?thesis
    using w [OF ws] i [OF assms(3) ws] i [OF assms(4) ws] i [OF assms(5) ws] i [OF assms(6), of "[]"]
    by (simp add: tc_decode_def tc_encode_def SEPARATOR_def Let_def word_sep_def)
qed

theorem TopicConfig_roundtrip_witness:
  "tc_decode 77 (tc_encode (TopicConfig_new ''orders'')) (TopicConfig_new ''x'') = (True, TopicConfig_new ''orders'')"
  by (rule TopicConfig_roundtrip)
    (simp_all add: TopicConfig_new_def is_space_def DefaultReadQueueNums_def DefaultWriteQueueNums_def SINGLE_TAG_def
      PERM_READ_def PERM_WRITE_def)

end
