(* ===== verification/Message_Codec.thy ===== *)
theory Message_Codec
  imports Flags_Config
begin

text \<open>
  \<open>MessageDecoder\<close> (\<open>src/src/message/MessageDecoder.cpp\<close>): the wire form of stored messages, the
  property string and message ids. Memory is a byte string: a read that leaves it is undefined
  behaviour. \<open>decode\<close> ignores its \<open>len\<close> argument, and so does the model. \<open>NullMessage\<close> is the null
  pointer returned from \<open>catch (...)\<close>, which leaves the caller's \<open>offset\<close> unwritten. The host is
  little-endian, \<open>char\<close> is signed. \<open>decompress\<close> is the zlib wrapper, an argument.

  \<open>wire\<close> is the format as the numbered comments of \<open>decode\<close> give it; the lemmas show that \<open>decode\<close> and
  \<open>decodes\<close> read it back.
\<close>

section \<open>Properties as text\<close>

definition NAME_VALUE_SEPARATOR :: char where "NAME_VALUE_SEPARATOR = CHR 0x01"
definition PROPERTY_SEPARATOR :: char where "PROPERTY_SEPARATOR = CHR 0x02"
definition MSG_ID_LENGTH :: nat where "MSG_ID_LENGTH = 16"

fun messageProperties2String :: "(string, string) smap \<Rightarrow> string" where
  "messageProperties2String [] = ''''"
| "messageProperties2String ((k, v) # ps) =
     k @ [NAME_VALUE_SEPARATOR] @ v @ [PROPERTY_SEPARATOR] @ messageProperties2String ps"

fun add_properties :: "string list \<Rightarrow> (string, string) smap \<Rightarrow> (string, string) smap option" where
  "add_properties [] properties = Some properties"
| "add_properties (s # ss) properties =
     (case Split_char [] s NAME_VALUE_SEPARATOR of None \<Rightarrow> None
      | Some outValue \<Rightarrow>
          add_properties ss
            (if length outValue = 2 then map_put str_lt (outValue ! 0) (outValue ! 1) properties else properties))"

definition string2messageProperties :: "(string, string) smap \<Rightarrow> string \<Rightarrow> (string, string) smap option" where
  "string2messageProperties properties propertiesString =
     Option.bind (Split_char [] propertiesString PROPERTY_SEPARATOR) (\<lambda>out. add_properties out properties)"

section \<open>Byte order\<close>

definition ntohl :: "int \<Rightarrow> int" where "ntohl v = s32 (swap_bytes 4 v)"
definition ntohs :: "int \<Rightarrow> int" where "ntohs v = swap_bytes 2 v"

definition swapll :: "64 word \<Rightarrow> 64 word" where
  \<comment> \<open>the branch of a little-endian host\<close>
  "swapll v =
     (push_bit 56 v OR push_bit 40 (v AND 0xff00) OR push_bit 24 (v AND 0xff0000) OR push_bit 8 (v AND 0xff000000)
      OR (drop_bit 8 v AND 0xff000000) OR (drop_bit 24 v AND 0xff0000) OR (drop_bit 40 v AND 0xff00) OR drop_bit 56 v)"

text \<open>Callers pass and keep a \<open>long long\<close>.\<close>

definition h2nll :: "int \<Rightarrow> int" where "h2nll v = sint (swapll (word_of_int v))"
definition n2hll :: "int \<Rightarrow> int" where "n2hll v = sint (swapll (word_of_int v))"

section \<open>Message ids\<close>

definition createMessageId :: "sockaddr \<Rightarrow> int \<Rightarrow> string" where
  "createMessageId addr offset =
     (let port = ntohs (sin_port addr);
          port = ntohl port;
          ip = s32 (sin_addr addr);
          offset = h2nll offset
      in hex_string (le_bytes 4 ip @ le_bytes 4 port @ le_bytes 8 offset))"

definition hexstr2ull :: "string \<Rightarrow> int" where "hexstr2ull str = strtoul16 str"

definition decodeMessageId :: "string \<Rightarrow> (sockaddr \<times> int) option" where
  \<comment> \<open>\<open>None\<close>: \<open>substr\<close> throws \<open>std::out_of_range\<close>\<close>
  "decodeMessageId msgId =
     (if length msgId < 16 then None
      else
        let ipstr = take 8 msgId; portstr = take 8 (drop 8 msgId); offsetstr = drop 16 msgId;
            ipint = s32 (strtoul16 ipstr);
            portint = s32 (strtoul16 portstr);
            offset = s64 (hexstr2ull offsetstr);
            offset = n2hll offset;
            portint = ntohl portint;
            port = s16 portint
        in Some (\<lparr>sin_addr = take_bit 32 ipint, sin_port = swap_bytes 2 port\<rparr>, offset))"

section \<open>Decoding a message\<close>

text \<open>A position is relative to \<open>pData = buf + base\<close>; reading before \<open>base\<close> is possible inside the buffer.\<close>

definition rd :: "string \<Rightarrow> nat \<Rightarrow> int \<Rightarrow> int \<Rightarrow> string option" where
  \<comment> \<open>\<open>memcpy\<close> of \<open>n\<close> bytes from \<open>pData + pos\<close>\<close>
  "rd buf base pos n =
     (let p = int base + pos in
      if 0 \<le> p \<and> 0 \<le> n \<and> p + n \<le> int (length buf) then Some (take (nat n) (drop (nat p) buf)) else None)"

definition rd_int :: "string \<Rightarrow> nat \<Rightarrow> int \<Rightarrow> int option" where
  \<comment> \<open>\<open>memcpy(&x, pData + pos, 4); x = ntohl(x);\<close>\<close>
  "rd_int buf base pos = map_option (\<lambda>b. ntohl (s32 (le_val b))) (rd buf base pos 4)"

definition rd_raw :: "string \<Rightarrow> nat \<Rightarrow> int \<Rightarrow> int option" where
  "rd_raw buf base pos = map_option (\<lambda>b. s32 (le_val b)) (rd buf base pos 4)"

definition rd_ll :: "string \<Rightarrow> nat \<Rightarrow> int \<Rightarrow> int option" where
  "rd_ll buf base pos = map_option (\<lambda>b. n2hll (s64 (le_val b))) (rd buf base pos 8)"

definition rd_host :: "string \<Rightarrow> nat \<Rightarrow> int \<Rightarrow> sockaddr option" where
  \<comment> \<open>address as it is, port through \<open>htonl\<close> and \<open>htons\<close>\<close>
  "rd_host buf base pos =
     (case (rd_raw buf base pos, rd_int buf base (pos + 4)) of
        (Some ip, Some port) \<Rightarrow> Some \<lparr>sin_addr = take_bit 32 ip, sin_port = swap_bytes 2 port\<rparr>
      | _ \<Rightarrow> None)"

datatype decoded = Decoded MessageExt int | NullMessage | BadRead

definition set_body :: "(string \<Rightarrow> string option) \<Rightarrow> bool \<Rightarrow> int \<Rightarrow> string \<Rightarrow> MessageExt \<Rightarrow> MessageExt" where
  "set_body decompress readBody sysFlag body m =
     (if body \<noteq> [] \<and> readBody then
        (if sysFlag AND CompressedFlag = CompressedFlag then
           (case decompress body of
              Some out \<Rightarrow> setBody out (int (length out)) m
            | None \<Rightarrow> setBody body (int (length body)) m)
         else setBody body (int (length body)) m)
      else m)"

text \<open>The fixed part: fields 1 to 15, up to the body length.\<close>

definition decode_fixed :: "string \<Rightarrow> nat \<Rightarrow> (MessageExt \<times> int) option" where
  "decode_fixed buf base =
     (case (rd_int buf base 0, rd_int buf base 8, rd_int buf base 12, rd_int buf base 16, rd_ll buf base 20, rd_ll buf base 28, rd_int buf base 36, rd_ll buf base 40) of
        (Some storeSize, Some bodyCRC, Some queueId, Some flag, Some queueOffset, Some physicOffset, Some sysFlag, Some bornTimeStamp) \<Rightarrow>
          (case (rd_host buf base 48, rd_ll buf base 56, rd_host buf base 64, rd_int buf base 72, rd_ll buf base 76, rd_int buf base 84) of
             (Some bornAddr, Some storeTimestamp, Some storeAddr, Some reconsumeTimes, Some preparedOffset, Some bodyLen) \<Rightarrow>
               Some (MessageExt_new\<lparr>ext_storeSize := storeSize, ext_bodyCRC := bodyCRC, ext_queueId := queueId,
                       msg_flag := flag, ext_queueOffset := queueOffset, ext_commitLogOffset := physicOffset,
                       ext_sysFlag := sysFlag, ext_bornTimestamp := bornTimeStamp, ext_bornHost := bornAddr,
                       ext_storeTimestamp := storeTimestamp, ext_storeHost := storeAddr,
                       ext_reconsumeTimes := reconsumeTimes, ext_preparedTransactionOffset := preparedOffset\<rparr>, bodyLen)
           | _ \<Rightarrow> None)
      | _ \<Rightarrow> None)"

definition decode :: "(string \<Rightarrow> string option) \<Rightarrow> bool \<Rightarrow> string \<Rightarrow> nat \<Rightarrow> decoded" where
  "decode decompress readBody buf base =
     (case decode_fixed buf base of None \<Rightarrow> BadRead
      | Some (m, bodyLen) \<Rightarrow>
          (case (if bodyLen > 0 \<and> readBody then rd buf base 88 bodyLen else Some []) of None \<Rightarrow> BadRead
           | Some body \<Rightarrow>
               let m = set_body decompress readBody (ext_sysFlag m) body m in
               (case rd buf base (88 + bodyLen) 1 of None \<Rightarrow> BadRead
                | Some c \<Rightarrow>
                    let topicLen = schar (hd c) in
                    if topicLen + 1 < 0 then NullMessage
                    else
                      (case rd buf base (88 + bodyLen + 1) topicLen of None \<Rightarrow> BadRead
                       | Some tmp \<Rightarrow>
                           let m = m\<lparr>msg_topic := c_str tmp\<rparr> in
                           (case rd buf base (88 + bodyLen + 1 + topicLen) 2 of None \<Rightarrow> BadRead
                            | Some pl \<Rightarrow>
                                let propertiesLength = s16 (ntohs (s16 (le_val pl)));
                                    offset = s32 (88 + bodyLen + 1 + topicLen + 2 + propertiesLength);
                                    finish = (\<lambda>m. Decoded (m\<lparr>ext_msgId := createMessageId (ext_storeHost m) (ext_commitLogOffset m)\<rparr>) offset)
                                in if propertiesLength > 0
                                   then (case rd buf base (88 + bodyLen + 1 + topicLen + 2) propertiesLength of None \<Rightarrow> BadRead
                                         | Some ps \<Rightarrow>
                                             (case string2messageProperties [] (c_str ps) of None \<Rightarrow> BadRead
                                              | Some properties \<Rightarrow> finish (setProperties properties m)))
                                   else finish m)))))"

text \<open>\<open>decodes\<close> passes neither the rest of the length nor \<open>readBody\<close> on. A null message leaves \<open>tmp\<close> unset:
  undefined. \<open>None\<close> of the loop is not returning, or undefined behaviour.\<close>

partial_function (option) decodes_loop :: "(string \<Rightarrow> string option) \<Rightarrow> string \<Rightarrow> int \<Rightarrow> int \<Rightarrow> MessageExt list option" where
  "decodes_loop decompress buf len offset =
     (if offset < len then
        (if offset < 0 then None
         else case decode decompress True buf (nat offset) of
           Decoded msg tmp \<Rightarrow> Option.bind (decodes_loop decompress buf len (s32 (offset + tmp))) (\<lambda>r. Some (msg # r))
         | _ \<Rightarrow> None)
      else Some [])"

definition decodes :: "(string \<Rightarrow> string option) \<Rightarrow> string \<Rightarrow> int \<Rightarrow> bool \<Rightarrow> MessageExt list option" where
  "decodes decompress buf len readBody = decodes_loop decompress buf len 0"

section \<open>Byte order lemmas\<close>

lemma swapll_masks:
  "(0xff00 :: 64 word) = push_bit 8 (mask 8)" "(0xff0000 :: 64 word) = push_bit 16 (mask 8)"
  "(0xff000000 :: 64 word) = push_bit 24 (mask 8)"
  by (simp_all add: mask_eq_exp_minus_1)

lemma bit_byte_up:
  fixes v :: "64 word"
  shows "bit (push_bit k (v AND push_bit j (mask 8))) n \<longleftrightarrow> n < 64 \<and> k + j \<le> n \<and> n < k + j + 8 \<and> bit v (n - k)"
  by (auto simp: bit_push_bit_iff bit_and_iff bit_mask_iff)

lemma bit_byte_down:
  fixes v :: "64 word"
  shows "bit (drop_bit k v AND push_bit j (mask 8)) n \<longleftrightarrow> n < 64 \<and> j \<le> n \<and> n < j + 8 \<and> bit v (k + n)"
  by (auto simp: bit_push_bit_iff bit_drop_bit_eq bit_and_iff bit_mask_iff)

lemma bit_top: "n \<ge> 64 \<Longrightarrow> \<not> bit (v :: 64 word) n"
  by (auto dest: bit_imp_le_length)

lemma bit_swapll: "n < 64 \<Longrightarrow> bit (swapll v) n = bit v (8 * (7 - n div 8) + n mod 8)"
proof -
  assume n: "n < 64"
  have swapll_bits: "bit (swapll v) n \<longleftrightarrow>
     56 \<le> n \<and> bit v (n - 56) \<or> 48 \<le> n \<and> n < 56 \<and> bit v (n - 40) \<or> 40 \<le> n \<and> n < 48 \<and> bit v (n - 24)
   \<or> 32 \<le> n \<and> n < 40 \<and> bit v (n - 8) \<or> 24 \<le> n \<and> n < 32 \<and> bit v (8 + n) \<or> 16 \<le> n \<and> n < 24 \<and> bit v (24 + n)
   \<or> 8 \<le> n \<and> n < 16 \<and> bit v (40 + n) \<or> bit v (56 + n)"
    using n unfolding swapll_def swapll_masks bit_or_iff bit_byte_up bit_byte_down
    by (simp add: bit_push_bit_iff bit_drop_bit_eq)
  consider "n div 8 = 0" | "n div 8 = 1" | "n div 8 = 2" | "n div 8 = 3"
    | "n div 8 = 4" | "n div 8 = 5" | "n div 8 = 6" | "n div 8 = 7" using n by fastforce
  then show ?thesis
  proof cases
    case 1
    then have "8 * (7 - n div 8) + n mod 8 = n + 56" "0 \<le> n" "n < 8" using div_mult_mod_eq [of n 8] by linarith+
    with n show ?thesis by (simp add: swapll_bits bit_top add.commute)
  next
    case 2
    then have "8 * (7 - n div 8) + n mod 8 = n + 40" "8 \<le> n" "n < 16" using div_mult_mod_eq [of n 8] by linarith+
    with n show ?thesis by (simp add: swapll_bits bit_top add.commute)
  next
    case 3
    then have "8 * (7 - n div 8) + n mod 8 = n + 24" "16 \<le> n" "n < 24" using div_mult_mod_eq [of n 8] by linarith+
    with n show ?thesis by (simp add: swapll_bits bit_top add.commute)
  next
    case 4
    then have "8 * (7 - n div 8) + n mod 8 = n + 8" "24 \<le> n" "n < 32" using div_mult_mod_eq [of n 8] by linarith+
    with n show ?thesis by (simp add: swapll_bits bit_top add.commute)
  next
    case 5
    then have "8 * (7 - n div 8) + n mod 8 = n - 8" "32 \<le> n" "n < 40" using div_mult_mod_eq [of n 8] by linarith+
    with n show ?thesis by (simp add: swapll_bits bit_top add.commute)
  next
    case 6
    then have "8 * (7 - n div 8) + n mod 8 = n - 24" "40 \<le> n" "n < 48" using div_mult_mod_eq [of n 8] by linarith+
    with n show ?thesis by (simp add: swapll_bits bit_top add.commute)
  next
    case 7
    then have "8 * (7 - n div 8) + n mod 8 = n - 40" "48 \<le> n" "n < 56" using div_mult_mod_eq [of n 8] by linarith+
    with n show ?thesis by (simp add: swapll_bits bit_top add.commute)
  next
    case 8
    then have "8 * (7 - n div 8) + n mod 8 = n - 56" "56 \<le> n" "n < 64" using div_mult_mod_eq [of n 8] by linarith+
    with n show ?thesis by (simp add: swapll_bits bit_top add.commute)
  qed
qed

lemma swapll_swap_bytes: "sint (swapll (word_of_int v)) = s64 (swap_bytes 8 v)"
proof (rule bit_eqI)
  fix n :: nat
  have b: "8 * (7 - n div 8) + n mod 8 < 64" "n < 63 \<Longrightarrow> n div 8 < 8" by presburger+
  consider "n < 63" | "n = 63" | "64 \<le> n" by linarith
  then show "bit (sint (swapll (word_of_int v))) n = bit (s64 (swap_bytes 8 v)) n"
    by cases (simp_all add: s64_def bit_sint_iff bit_signed_take_bit_iff bit_swap_bytes bit_swapll bit_word_of_int_iff min_def bit_top b)
qed

lemmas swap64 = h2nll_def [unfolded swapll_swap_bytes] n2hll_def [unfolded swapll_swap_bytes]

section \<open>The wire format\<close>

text \<open>A host is its four address bytes and its port as a big-endian \<open>int\<close>.\<close>

definition wire_host :: "sockaddr \<Rightarrow> string" where
  "wire_host a = le_bytes 4 (sin_addr a) @ be_bytes 4 (swap_bytes 2 (sin_port a))"

definition wire_fixed :: "int \<Rightarrow> MessageExt \<Rightarrow> nat \<Rightarrow> string" where
  "wire_fixed magic m bodyLen =
     be_bytes 4 (ext_storeSize m) @ be_bytes 4 magic @ be_bytes 4 (ext_bodyCRC m) @ be_bytes 4 (ext_queueId m)
     @ be_bytes 4 (msg_flag m) @ be_bytes 8 (ext_queueOffset m) @ be_bytes 8 (ext_commitLogOffset m)
     @ be_bytes 4 (ext_sysFlag m) @ be_bytes 8 (ext_bornTimestamp m) @ wire_host (ext_bornHost m)
     @ be_bytes 8 (ext_storeTimestamp m) @ wire_host (ext_storeHost m) @ be_bytes 4 (ext_reconsumeTimes m)
     @ be_bytes 8 (ext_preparedTransactionOffset m) @ be_bytes 4 (int bodyLen)"

definition wire :: "int \<Rightarrow> MessageExt \<Rightarrow> string \<Rightarrow> string" where
  "wire magic m body =
     (let ps = messageProperties2String (msg_properties m) in
      wire_fixed magic m (length body) @ body @ [char_of (length (msg_topic m))] @ msg_topic m
      @ be_bytes 2 (int (length ps)) @ ps)"

definition host_ok :: "sockaddr \<Rightarrow> bool" where
  "host_ok a \<longleftrightarrow> 0 \<le> sin_addr a \<and> sin_addr a < 2 ^ 32 \<and> 0 \<le> sin_port a \<and> sin_port a < 2 ^ 16"

definition fields_ok :: "MessageExt \<Rightarrow> bool" where
  "fields_ok m \<longleftrightarrow>
     list_all (\<lambda>v. is_s32 v) [ext_storeSize m, ext_bodyCRC m, ext_queueId m, msg_flag m, ext_sysFlag m, ext_reconsumeTimes m]
   \<and> list_all (\<lambda>v. is_s64 v) [ext_queueOffset m, ext_commitLogOffset m, ext_bornTimestamp m, ext_storeTimestamp m,
        ext_preparedTransactionOffset m]
   \<and> host_ok (ext_bornHost m) \<and> host_ok (ext_storeHost m)"

definition plain :: "string \<Rightarrow> bool" where
  \<comment> \<open>no NUL and neither separator\<close>
  "plain s \<longleftrightarrow> list_all (\<lambda>c. c \<noteq> CHR 0x00 \<and> c \<noteq> NAME_VALUE_SEPARATOR \<and> c \<noteq> PROPERTY_SEPARATOR) s"

definition plain_props :: "(string, string) smap \<Rightarrow> bool" where
  "plain_props ps \<longleftrightarrow> map_wf str_lt any_key ps \<and> list_all (\<lambda>(k, v). plain k \<and> plain v) ps"

definition wire_ok :: "MessageExt \<Rightarrow> string \<Rightarrow> bool" where
  "wire_ok m body \<longleftrightarrow> fields_ok m \<and> length (msg_topic m) < 128 \<and> no_nul (msg_topic m) \<and> plain_props (msg_properties m)
     \<and> length (messageProperties2String (msg_properties m)) < 2 ^ 15 \<and> length body < 2 ^ 30"

text \<open>What the client makes of it: the fields, the body as \<open>set_body\<close> stores it, the id computed from the
  store host. A message without properties keeps those of a fresh message.\<close>

definition received :: "(string \<Rightarrow> string option) \<Rightarrow> bool \<Rightarrow> MessageExt \<Rightarrow> string \<Rightarrow> MessageExt" where
  "received decompress readBody m body =
     set_body decompress readBody (ext_sysFlag m) body
       (m\<lparr>msg_properties := (if msg_properties m = [] then [(PROPERTY_WAIT_STORE_MSG_OK, ''true'')] else msg_properties m),
          msg_body := None, msg_bodyLen := 0,
          ext_msgId := createMessageId (ext_storeHost m) (ext_commitLogOffset m)\<rparr>)"

section \<open>Property text\<close>

lemma str_find_char: "d \<notin> set x \<Longrightarrow> str_find [d] (x @ d # y) = Some (length x)"
proof (induction x)
  case Nil
  then show ?case by (simp add: str_find.simps [of "[d]" "d # y"] starts_with_def)
next
  case (Cons c x)
  then show ?case by (auto simp: str_find.simps [of "[d]" "c # x @ d # y"] starts_with_def)
qed

lemma str_find_char_None: "d \<notin> set x \<Longrightarrow> str_find [d] x = None"
proof (induction x)
  case Nil
  then show ?case by (simp add: str_find.simps [of "[d]" "[]"] starts_with_def)
next
  case (Cons c x)
  then show ?case by (auto simp: str_find.simps [of "[d]" "c # x"] starts_with_def)
qed

lemma split_step: "d \<notin> set x \<Longrightarrow> split_loop [d] (x @ d # y) = map_option (\<lambda>r. x # r) (split_loop [d] y)"
  by (simp add: split_loop.simps [of "[d]" "x @ d # y"] str_find_char map_option_case split: option.split)

lemma split_last: "d \<notin> set x \<Longrightarrow> split_loop [d] x = Some [x]"
  by (simp add: split_loop.simps [of "[d]" x] str_find_char_None)

lemma plain_chars: "plain s \<Longrightarrow> NAME_VALUE_SEPARATOR \<notin> set s \<and> PROPERTY_SEPARATOR \<notin> set s \<and> CHR 0x00 \<notin> set s"
  by (auto simp: plain_def list_all_iff)

lemma separators_distinct [simp]: "NAME_VALUE_SEPARATOR \<noteq> PROPERTY_SEPARATOR" "PROPERTY_SEPARATOR \<noteq> NAME_VALUE_SEPARATOR"
  "NAME_VALUE_SEPARATOR \<noteq> CHR 0x00" "PROPERTY_SEPARATOR \<noteq> CHR 0x00"
  by (simp_all add: NAME_VALUE_SEPARATOR_def PROPERTY_SEPARATOR_def)

definition pair_text :: "string \<times> string \<Rightarrow> string" where
  "pair_text p = fst p @ [NAME_VALUE_SEPARATOR] @ snd p"

lemma split_properties:
  "list_all (\<lambda>(k, v). plain k \<and> plain v) ps \<Longrightarrow>
   split_loop [PROPERTY_SEPARATOR] (messageProperties2String ps) = Some (map pair_text ps @ [''''])"
proof (induction ps)
  case Nil
  then show ?case by (simp add: split_last)
next
  case (Cons p ps)
  obtain k v where p: "p = (k, v)" by (cases p)
  with Cons.prems have "PROPERTY_SEPARATOR \<notin> set (pair_text p)" by (auto simp: pair_text_def dest: plain_chars)
  from split_step [OF this, of "messageProperties2String ps"] Cons p
  show ?case by (simp add: pair_text_def)
qed

lemma split_pair: "plain k \<Longrightarrow> plain v \<Longrightarrow> Split_char [] (pair_text (k, v)) NAME_VALUE_SEPARATOR = Some [k, v]"
  using split_step [of NAME_VALUE_SEPARATOR k v] split_last [of NAME_VALUE_SEPARATOR v] plain_chars
  by (simp add: Split_char_def pair_text_def)

lemma put_last: "\<forall>x \<in> fst ` set m. str_lt x k \<Longrightarrow> map_put str_lt k v m = m @ [(k, v)]"
  by (induction m) auto

lemma add_properties_all:
  "list_all (\<lambda>(k, v). plain k \<and> plain v) ps \<Longrightarrow> map_wf str_lt any_key (acc @ ps) \<Longrightarrow>
   add_properties (map pair_text ps @ ['''']) acc = Some (acc @ ps)"
proof (induction ps arbitrary: acc)
  case Nil
  then show ?case by (simp add: Split_char_def split_last)
next
  case (Cons p ps)
  obtain k v where p: "p = (k, v)" by (cases p)
  have "\<forall>x \<in> fst ` set acc. str_lt x k" using Cons.prems p by (auto simp: map_wf_def sorted_wrt_append)
  with Cons p show ?case by (simp add: split_pair put_last)
qed

lemma string2properties: "plain_props ps \<Longrightarrow> string2messageProperties [] (messageProperties2String ps) = Some ps"
  using split_properties [of ps] add_properties_all [of ps "[]"]
  by (simp add: string2messageProperties_def Split_char_def plain_props_def)

section \<open>Reading a field\<close>

lemma rd_at: "rd (pre @ w @ suf) (length pre) (int p) (int n) = (if p + n \<le> length w + length suf then Some (take n (drop p (w @ suf))) else None)"
  by (auto simp: rd_def Let_def nat_add_distrib)

lemma rd_field: "length x = n \<Longrightarrow> length a = p \<Longrightarrow> rd (pre @ a @ x @ b) (length pre) (int p) (int n) = Some x"
  using rd_at [of pre "a @ x" b p n] by simp

text \<open>Only the low bytes matter to a byte swap, so the conversions to \<open>int\<close> and \<open>long long\<close> before it are harmless.\<close>

lemma swap_low: "(\<And>j. j < 8 * n \<Longrightarrow> bit x j = bit y j) \<Longrightarrow> swap_bytes n x = swap_bytes n y"
proof (rule bit_eqI)
  fix k assume e: "\<And>j. j < 8 * n \<Longrightarrow> bit x j = bit y j"
  have "8 * (n - 1 - k div 8) + k mod 8 < 8 * n" if "k div 8 < n"
  proof -
    have "k mod 8 < 8" "n - 1 - k div 8 + 1 \<le> n" using that by simp_all
    then show ?thesis by linarith
  qed
  then show "bit (swap_bytes n x) k = bit (swap_bytes n y) k" using e by (auto simp: bit_swap_bytes)
qed

lemma signed_bits:
  "j < 32 \<Longrightarrow> bit (s32 x) j = bit x j" "j < 64 \<Longrightarrow> bit (s64 x) j = bit x j" "j < 16 \<Longrightarrow> bit (s16 x) j = bit x j"
  unfolding s32_def s64_def s16_def bit_signed_take_bit_iff by (simp_all add: min_absorb2)

lemma swap_signed:
  "swap_bytes 4 (s32 x) = swap_bytes 4 x" "swap_bytes 8 (s64 x) = swap_bytes 8 x" "swap_bytes 2 (s16 x) = swap_bytes 2 x"
  by (rule swap_low; simp add: signed_bits)+

lemma s32_mod: "s32 (v mod 256 ^ 4) = s32 v"
  and s64_mod: "s64 (v mod 256 ^ 8) = s64 v"
  and s16_mod: "s16 (v mod 256 ^ 2) = s16 v"
proof -
  have p: "(256 :: int) ^ 4 = 2 ^ 32" "(256 :: int) ^ 8 = 2 ^ 64" "(256 :: int) ^ 2 = 2 ^ 16" by simp_all
  show "s32 (v mod 256 ^ 4) = s32 v" "s64 (v mod 256 ^ 8) = s64 v" "s16 (v mod 256 ^ 2) = s16 v"
    unfolding p s32_def s64_def s16_def take_bit_eq_mod [symmetric] by (simp_all add: signed_take_bit_take_bit)
qed

lemma int_field: "is_s32 v \<Longrightarrow> ntohl (s32 (le_val (be_bytes 4 v))) = v"
  by (simp only: ntohl_def swap_signed swap_load length_be_bytes be_val_bytes s32_mod s32_id)

lemma ll_field: "is_s64 v \<Longrightarrow> n2hll (s64 (le_val (be_bytes 8 v))) = v"
  by (simp only: swap64 swap_signed swap_load length_be_bytes be_val_bytes s64_mod s64_id)

lemma short_field: "is_s16 v \<Longrightarrow> s16 (ntohs (s16 (le_val (be_bytes 2 v)))) = v"
  by (simp only: ntohs_def swap_signed swap_load length_be_bytes be_val_bytes s16_mod s16_id)

lemma swap_bytes_range: "0 \<le> swap_bytes n v \<and> swap_bytes n v < 256 ^ n"
  using be_val_bounds [of "rev (be_bytes n v)"] by (simp add: swap_bytes_def le_val_def)

lemma swap_swap: "0 \<le> v \<Longrightarrow> v < 256 ^ n \<Longrightarrow> swap_bytes n (swap_bytes n v) = v"
  by (simp add: swap_bytes_def [of n v] swap_load be_val_bytes)

lemma addr_field: "0 \<le> v \<Longrightarrow> v < 2 ^ 32 \<Longrightarrow> take_bit 32 (s32 (le_val (le_bytes 4 v))) = v"
proof -
  assume v: "0 \<le> v" "v < 2 ^ 32"
  have "take_bit 32 (s32 v) = take_bit 32 v"
    by (rule bit_eqI) (auto simp: bit_take_bit_iff signed_bits)
  with v show ?thesis by (simp add: le_val_bytes take_bit_int_eq_self)
qed

lemma rd_int_field:
  "length a = p \<Longrightarrow> is_s32 v \<Longrightarrow> rd_int (pre @ a @ be_bytes 4 v @ b) (length pre) (int p) = Some v"
  using rd_field [of "be_bytes 4 v" 4 a p pre b] by (simp add: rd_int_def int_field)

lemma rd_ll_field:
  "length a = p \<Longrightarrow> is_s64 v \<Longrightarrow> rd_ll (pre @ a @ be_bytes 8 v @ b) (length pre) (int p) = Some v"
  using rd_field [of "be_bytes 8 v" 8 a p pre b] by (simp add: rd_ll_def ll_field)

lemma length_wire_host [simp]: "length (wire_host h) = 8"
  by (simp add: wire_host_def le_bytes_def)

lemma rd_host_field:
  "length a = p \<Longrightarrow> host_ok h \<Longrightarrow> rd_host (pre @ a @ wire_host h @ b) (length pre) (int p) = Some h"
proof -
  assume p: "length a = p" and h: "host_ok h"
  let ?port = "swap_bytes 2 (sin_port h)"
  have l: "length (le_bytes 4 (sin_addr h)) = 4" by (simp add: le_bytes_def)
  have ip: "rd_raw (pre @ a @ wire_host h @ b) (length pre) (int p) = Some (s32 (le_val (le_bytes 4 (sin_addr h))))"
    using rd_field [OF l p, of pre "be_bytes 4 ?port @ b"] by (simp add: rd_raw_def wire_host_def)
  have "0 \<le> ?port" "?port < 2 ^ 16" using swap_bytes_range [of 2 "sin_port h"] by auto
  then have "is_s32 ?port" by simp
  from rd_int_field [OF _ this, of "a @ le_bytes 4 (sin_addr h)" "p + 4" pre b] p l
  have port: "rd_int (pre @ a @ wire_host h @ b) (length pre) (int p + 4) = Some ?port" by (simp add: wire_host_def add.commute)
  from h have "swap_bytes 2 ?port = sin_port h" by (intro swap_swap) (auto simp: host_ok_def)
  with h ip port show ?thesis by (simp add: rd_host_def addr_field host_ok_def)
qed

section \<open>Reading a message\<close>

lemma fields_ok_simps:
  assumes "fields_ok m"
  shows "is_s32 (ext_storeSize m)" "is_s32 (ext_bodyCRC m)" "is_s32 (ext_queueId m)" "is_s32 (msg_flag m)"
    "is_s32 (ext_sysFlag m)" "is_s32 (ext_reconsumeTimes m)" "is_s64 (ext_queueOffset m)" "is_s64 (ext_commitLogOffset m)"
    "is_s64 (ext_bornTimestamp m)" "is_s64 (ext_storeTimestamp m)" "is_s64 (ext_preparedTransactionOffset m)"
    "host_ok (ext_bornHost m)" "host_ok (ext_storeHost m)"
  using assms by (simp_all add: fields_ok_def)

text \<open>The message as it stands after the fixed part.\<close>

definition fixed_message :: "MessageExt \<Rightarrow> MessageExt" where
  "fixed_message m =
     m\<lparr>msg_topic := '''', msg_properties := [(PROPERTY_WAIT_STORE_MSG_OK, ''true'')], msg_body := None, msg_bodyLen := 0,
       ext_msgId := ''''\<rparr>"

lemma fixed_fields:
  fixes pre suf :: string and magic :: int
  assumes m: "fields_ok m" and n: "n < 2 ^ 31"
  defines "w \<equiv> pre @ wire_fixed magic m n @ suf"
  shows "rd_int w (length pre) 0 = Some (ext_storeSize m)" "rd_int w (length pre) 8 = Some (ext_bodyCRC m)"
    "rd_int w (length pre) 12 = Some (ext_queueId m)" "rd_int w (length pre) 16 = Some (msg_flag m)"
    "rd_ll w (length pre) 20 = Some (ext_queueOffset m)" "rd_ll w (length pre) 28 = Some (ext_commitLogOffset m)"
    "rd_int w (length pre) 36 = Some (ext_sysFlag m)" "rd_ll w (length pre) 40 = Some (ext_bornTimestamp m)"
    "rd_host w (length pre) 48 = Some (ext_bornHost m)" "rd_ll w (length pre) 56 = Some (ext_storeTimestamp m)"
    "rd_host w (length pre) 64 = Some (ext_storeHost m)" "rd_int w (length pre) 72 = Some (ext_reconsumeTimes m)"
    "rd_ll w (length pre) 76 = Some (ext_preparedTransactionOffset m)" "rd_int w (length pre) 84 = Some (int n)"
proof -
  note f = fields_ok_simps [OF m]
  let ?B = "be_bytes"
  let ?a = "?B 4 (ext_storeSize m) @ ?B 4 magic"
  let ?b = "?a @ ?B 4 (ext_bodyCRC m) @ ?B 4 (ext_queueId m) @ ?B 4 (msg_flag m)"
  let ?c = "?b @ ?B 8 (ext_queueOffset m) @ ?B 8 (ext_commitLogOffset m) @ ?B 4 (ext_sysFlag m) @ ?B 8 (ext_bornTimestamp m)"
  let ?d = "?c @ wire_host (ext_bornHost m) @ ?B 8 (ext_storeTimestamp m) @ wire_host (ext_storeHost m)"
  show "rd_int w (length pre) 0 = Some (ext_storeSize m)" "rd_int w (length pre) 8 = Some (ext_bodyCRC m)"
    "rd_int w (length pre) 12 = Some (ext_queueId m)" "rd_int w (length pre) 16 = Some (msg_flag m)"
    using rd_int_field [OF _ f(1), of "[]" 0 pre] rd_int_field [OF _ f(2), of ?a 8 pre]
      rd_int_field [OF _ f(3), of "?a @ ?B 4 (ext_bodyCRC m)" 12 pre]
      rd_int_field [OF _ f(4), of "?a @ ?B 4 (ext_bodyCRC m) @ ?B 4 (ext_queueId m)" 16 pre]
    by (simp_all add: w_def wire_fixed_def)
  show "rd_ll w (length pre) 20 = Some (ext_queueOffset m)" "rd_ll w (length pre) 28 = Some (ext_commitLogOffset m)"
    "rd_int w (length pre) 36 = Some (ext_sysFlag m)" "rd_ll w (length pre) 40 = Some (ext_bornTimestamp m)"
    using rd_ll_field [OF _ f(7), of ?b 20 pre] rd_ll_field [OF _ f(8), of "?b @ ?B 8 (ext_queueOffset m)" 28 pre]
      rd_int_field [OF _ f(5), of "?b @ ?B 8 (ext_queueOffset m) @ ?B 8 (ext_commitLogOffset m)" 36 pre]
      rd_ll_field [OF _ f(9), of "?b @ ?B 8 (ext_queueOffset m) @ ?B 8 (ext_commitLogOffset m) @ ?B 4 (ext_sysFlag m)" 40 pre]
    by (simp_all add: w_def wire_fixed_def)
  show "rd_host w (length pre) 48 = Some (ext_bornHost m)" "rd_ll w (length pre) 56 = Some (ext_storeTimestamp m)"
    "rd_host w (length pre) 64 = Some (ext_storeHost m)"
    using rd_host_field [OF _ f(12), of ?c 48 pre] rd_ll_field [OF _ f(10), of "?c @ wire_host (ext_bornHost m)" 56 pre]
      rd_host_field [OF _ f(13), of "?c @ wire_host (ext_bornHost m) @ ?B 8 (ext_storeTimestamp m)" 64 pre]
    by (simp_all add: w_def wire_fixed_def)
  have "is_s32 (int n)" using n by simp
  then show "rd_int w (length pre) 72 = Some (ext_reconsumeTimes m)"
    "rd_ll w (length pre) 76 = Some (ext_preparedTransactionOffset m)" "rd_int w (length pre) 84 = Some (int n)"
    using rd_int_field [OF _ f(6), of ?d 72 pre] rd_ll_field [OF _ f(11), of "?d @ ?B 4 (ext_reconsumeTimes m)" 76 pre]
      rd_int_field [of "?d @ ?B 4 (ext_reconsumeTimes m) @ ?B 8 (ext_preparedTransactionOffset m)" 84 "int n" pre]
    by (simp_all add: w_def wire_fixed_def)
qed

lemma decode_fixed_wire:
  "fields_ok m \<Longrightarrow> n < 2 ^ 31 \<Longrightarrow>
   decode_fixed (pre @ wire_fixed magic m n @ suf) (length pre) = Some (fixed_message m, int n)"
  by (simp add: decode_fixed_def fixed_fields fixed_message_def MessageExt_new_def Message_new_def Message_Init_def
      Message.defs MessageExt.defs setWaitStoreMsgOK_def putProperty_def)

lemma length_wire_fixed [simp]: "length (wire_fixed magic m n) = 88"
  by (simp add: wire_fixed_def)

lemma topic_length_char: "n < 128 \<Longrightarrow> schar (char_of n) = int n"
proof -
  assume n: "n < 128"
  have "(of_char (char_of n) :: int) = int (of_char (char_of n))" by (simp only: of_nat_of_char)
  with n show ?thesis by (simp add: schar_def)
qed

lemma properties_no_nul: "plain_props ps \<Longrightarrow> no_nul (messageProperties2String ps)"
proof -
  have "list_all (\<lambda>(k, v). plain k \<and> plain v) ps \<Longrightarrow> no_nul (messageProperties2String ps)"
    by (induction ps rule: messageProperties2String.induct)
      (auto simp: no_nul_def NAME_VALUE_SEPARATOR_def PROPERTY_SEPARATOR_def dest: plain_chars)
  then show "plain_props ps \<Longrightarrow> no_nul (messageProperties2String ps)" by (simp add: plain_props_def)
qed

lemma set_body_other:
  "set_body dz rb f body (m\<lparr>msg_topic := t\<rparr>) = (set_body dz rb f body m)\<lparr>msg_topic := t\<rparr>"
  "set_body dz rb f body (m\<lparr>msg_properties := p\<rparr>) = (set_body dz rb f body m)\<lparr>msg_properties := p\<rparr>"
  "set_body dz rb f body (m\<lparr>ext_msgId := i\<rparr>) = (set_body dz rb f body m)\<lparr>ext_msgId := i\<rparr>"
  "ext_storeHost (set_body dz rb f body m) = ext_storeHost m"
  "ext_commitLogOffset (set_body dz rb f body m) = ext_commitLogOffset m"
  by (simp_all add: set_body_def setBody_def split: option.split)

lemma properties_empty_iff: "messageProperties2String ps = '''' \<longleftrightarrow> ps = []"
  by (cases ps rule: messageProperties2String.cases) auto

lemma set_body_skip: "set_body dz False f body m = m" "set_body dz rb f [] m = m"
  by (simp_all add: set_body_def)

text \<open>The pieces after the fixed part.\<close>

lemma variable_fields:
  fixes pre suf body topic ps :: string and c :: char
  assumes "length fx = 88" "length lenb = 2"
  defines "w \<equiv> pre @ (fx @ body @ [c] @ topic @ lenb @ ps) @ suf"
  shows "rd w (length pre) 88 (int (length body)) = Some body"
    and "rd w (length pre) (88 + int (length body)) 1 = Some [c]"
    and "rd w (length pre) (88 + int (length body) + 1) (int (length topic)) = Some topic"
    and "rd w (length pre) (88 + int (length body) + 1 + int (length topic)) 2 = Some lenb"
    and "rd w (length pre) (88 + int (length body) + 1 + int (length topic) + 2) (int (length ps)) = Some ps"
proof -
  have i: "int (88 + length body) = 88 + int (length body)" "int (88 + length body + 1) = 88 + int (length body) + 1"
    "int (88 + length body + 1 + length topic) = 88 + int (length body) + 1 + int (length topic)"
    "int (88 + length body + 1 + length topic + 2) = 88 + int (length body) + 1 + int (length topic) + 2" by simp_all
  show "rd w (length pre) 88 (int (length body)) = Some body"
    using rd_field [OF refl assms(1), of pre body "[c] @ topic @ lenb @ ps @ suf"] by (simp add: w_def)
  show "rd w (length pre) (88 + int (length body)) 1 = Some [c]"
    using rd_field [of "[c]" 1 "fx @ body" "88 + length body" pre "topic @ lenb @ ps @ suf"] assms(1) by (simp add: w_def i)
  show "rd w (length pre) (88 + int (length body) + 1) (int (length topic)) = Some topic"
    using rd_field [of topic _ "fx @ body @ [c]" "88 + length body + 1" pre "lenb @ ps @ suf"] assms(1) unfolding i by (simp add: w_def)
  show "rd w (length pre) (88 + int (length body) + 1 + int (length topic)) 2 = Some lenb"
    using rd_field [of lenb 2 "fx @ body @ [c] @ topic" "88 + length body + 1 + length topic" pre "ps @ suf"] assms(1,2)
    unfolding i by (simp add: w_def)
  show "rd w (length pre) (88 + int (length body) + 1 + int (length topic) + 2) (int (length ps)) = Some ps"
    using rd_field [of ps _ "fx @ body @ [c] @ topic @ lenb" "88 + length body + 1 + length topic + 2" pre suf] assms(1,2)
    unfolding i by (simp add: w_def)
qed

lemma decode_wire_at:
  assumes ok: "wire_ok m body"
  shows "decode dz rb (pre @ wire magic m body @ suf) (length pre) = Decoded (received dz rb m body) (int (length (wire magic m body)))"
proof -
  let ?ps = "messageProperties2String (msg_properties m)" and ?n = "int (length body)" and ?t = "msg_topic m"
  let ?w = "pre @ wire magic m body @ suf" and ?b = "length pre"
  from ok have t: "length ?t < 128" "no_nul ?t" and p: "length ?ps < 2 ^ 15" "plain_props (msg_properties m)"
    and n: "length body < 2 ^ 30" and f: "fields_ok m" by (simp_all add: wire_ok_def)
  have w: "?w = pre @ (wire_fixed magic m (length body) @ body @ [char_of (length ?t)] @ ?t @ be_bytes 2 (int (length ?ps)) @ ?ps) @ suf"
    by (simp add: wire_def Let_def)
  note v = variable_fields [OF length_wire_fixed [of magic m "length body"] length_be_bytes [of 2 "int (length ?ps)"],
      of pre body "char_of (length ?t)" ?t ?ps suf, folded w]
  have fx: "decode_fixed ?w ?b = Some (fixed_message m, ?n)"
    using decode_fixed_wire [OF f, of "length body" pre magic "body @ [char_of (length ?t)] @ ?t @ be_bytes 2 (int (length ?ps)) @ ?ps @ suf"] n
    by (simp add: wire_def Let_def)
  have lw: "int (length (wire magic m body)) = 88 + ?n + 1 + int (length ?t) + 2 + int (length ?ps)" by (simp add: wire_def Let_def)
  have off: "s32 (88 + ?n + 1 + int (length ?t) + 2 + int (length ?ps)) = int (length (wire magic m body))"
    unfolding lw using t p n by (intro s32_id) simp
  have pl: "s16 (ntohs (s16 (le_val (be_bytes 2 (int (length ?ps)))))) = int (length ?ps)" using p by (intro short_field) simp
  have body: "(if ?n > 0 \<and> rb then rd ?w ?b 88 ?n else Some []) = Some (if rb then body else [])"
    using v(1) by simp
  have sb: "set_body dz rb f (if rb then body else []) x = set_body dz rb f body x" for f x by (simp add: set_body_def)
  have fm: "ext_sysFlag (fixed_message m) = ext_sysFlag m" "ext_storeHost (fixed_message m) = ext_storeHost m"
    "ext_commitLogOffset (fixed_message m) = ext_commitLogOffset m" by (simp_all add: fixed_message_def)
  have ti: "\<not> int (length ?t) + 1 < 0" by simp
  have c: "c_str ?t = ?t" "c_str ?ps = ?ps" using t p by (simp_all add: properties_no_nul)
  let ?fin = "\<lambda>x. Decoded (x\<lparr>ext_msgId := createMessageId (ext_storeHost x) (ext_commitLogOffset x)\<rparr>) (int (length (wire magic m body)))"
  let ?m = "(set_body dz rb (ext_sysFlag m) body (fixed_message m))\<lparr>msg_topic := ?t\<rparr>"
  have "decode dz rb ?w ?b = (if int (length ?ps) > 0 then ?fin (setProperties (msg_properties m) ?m) else ?fin ?m)"
    by (simp only: decode_def fx option.case prod.case body v(2-5) Let_def list.sel topic_length_char [OF t(1)] ti if_False
        pl off c string2properties [OF p(2)] sb fm)
  also have "\<dots> = Decoded (received dz rb m body) (int (length (wire magic m body)))"
    by (simp add: setProperties_def fixed_message_def properties_empty_iff received_def set_body_other(4,5) set_body_other(1-3) [symmetric])
  finally show ?thesis .
qed

lemma length_wire_pos: "0 < length (wire magic m body)"
  by (simp add: wire_def Let_def)

lemma decodes_loop_wires:
  assumes "list_all (\<lambda>(magic, m, body). wire_ok m body) ms"
    and "length (pre @ concat (map (\<lambda>(magic, m, body). wire magic m body) ms)) < 2 ^ 31"
  shows "decodes_loop dz (pre @ concat (map (\<lambda>(magic, m, body). wire magic m body) ms))
      (int (length pre + length (concat (map (\<lambda>(magic, m, body). wire magic m body) ms)))) (int (length pre))
    = Some (map (\<lambda>(magic, m, body). received dz True m body) ms)"
  using assms
proof (induction ms arbitrary: pre)
  case Nil
  then show ?case by (simp add: decodes_loop.simps)
next
  case (Cons x ms)
  obtain magic m body where x: "x = (magic, m, body)" by (cases x)
  let ?w = "wire magic m body" and ?r = "concat (map (\<lambda>(magic, m, body). wire magic m body) ms)"
  have ok: "wire_ok m body" using Cons.prems x by simp
  have len: "length pre + length ?w + length ?r < 2 ^ 31" using Cons.prems(2) x by simp
  have d: "decode dz True (pre @ ?w @ ?r) (length pre) = Decoded (received dz True m body) (int (length ?w))"
    by (rule decode_wire_at [OF ok])
  have s: "s32 (int (length pre) + int (length ?w)) = int (length (pre @ ?w))" using len by (simp add: s32_id)
  have ih: "decodes_loop dz ((pre @ ?w) @ ?r) (int (length (pre @ ?w) + length ?r)) (int (length (pre @ ?w)))
      = Some (map (\<lambda>(magic, m, body). received dz True m body) ms)"
    using Cons.IH [of "pre @ ?w"] Cons.prems len by simp
  have g: "0 < int (length ?w) + int (length ?r)" using length_wire_pos [of magic m body] by linarith
  from ih show ?case
    using g s d x
    by (simp add: decodes_loop.simps [of _ _ _ "int (length pre)"] add.assoc)
qed

lemma fields_ok_new: "fields_ok MessageExt_new" "fields_ok (m\<lparr>msg_topic := t, msg_properties := p\<rparr>) = fields_ok m"
  "fields_ok (m\<lparr>msg_topic := t\<rparr>) = fields_ok m"
  by (simp_all add: fields_ok_def host_ok_def MessageExt_new_def Message_new_def Message_Init_def Message.defs MessageExt.defs
      setWaitStoreMsgOK_def putProperty_def)

text \<open>
  C5. A pull response holding any number of stored messages in the broker's format, one after the other,
  is decoded into exactly these messages, in order: every header field, the hosts, the topic, the properties
  and the (decompressed) body, and the loop ends at the end of the buffer. The \<open>readBody\<close> flag of \<open>decodes\<close>
  has no effect.
\<close>

theorem decodes_wire:
  assumes "list_all (\<lambda>(magic, m, body). wire_ok m body) ms"
    and "buf = concat (map (\<lambda>(magic, m, body). wire magic m body) ms)" and "length buf < 2 ^ 31"
  shows "decodes dz buf (int (length buf)) readBody = Some (map (\<lambda>(magic, m, body). received dz True m body) ms)"
  using decodes_loop_wires [of ms "[]"] assms by (simp add: decodes_def)

theorem decodes_wire_witness:
  "decodes (\<lambda>_. None)
     (wire 1 (MessageExt_new\<lparr>msg_topic := ''T'', msg_properties := [(''TAGS'', ''a'')]\<rparr>) ''body''
      @ wire 2 (MessageExt_new\<lparr>msg_topic := ''U'', msg_properties := []\<rparr>) '''') 195 False =
   Some [received (\<lambda>_. None) True (MessageExt_new\<lparr>msg_topic := ''T'', msg_properties := [(''TAGS'', ''a'')]\<rparr>) ''body'',
         received (\<lambda>_. None) True (MessageExt_new\<lparr>msg_topic := ''U'', msg_properties := []\<rparr>) '''']"
  using decodes_wire [of "[(1, MessageExt_new\<lparr>msg_topic := ''T'', msg_properties := [(''TAGS'', ''a'')]\<rparr>, ''body''),
      (2, MessageExt_new\<lparr>msg_topic := ''U'', msg_properties := []\<rparr>, '''')]" _ "\<lambda>_. None" False, OF _ refl]
  by (simp add: wire_ok_def fields_ok_new no_nul_def plain_props_def plain_def NAME_VALUE_SEPARATOR_def PROPERTY_SEPARATOR_def
      wire_def Let_def)

text \<open>
  Properties written by \<open>messageProperties2String\<close> are read back by \<open>string2messageProperties\<close> exactly, empty
  values included, when no key or value holds a separator or NUL.
\<close>

theorem properties_roundtrip:
  "plain_props ps \<Longrightarrow> string2messageProperties [] (messageProperties2String ps) = Some ps"
  by (rule string2properties)

theorem properties_roundtrip_witness:
  "string2messageProperties [] (messageProperties2String [(''KEYS'', ''''), (''TAGS'', ''a b'')]) = Some [(''KEYS'', ''''), (''TAGS'', ''a b'')]"
  by (rule properties_roundtrip) (simp add: plain_props_def plain_def NAME_VALUE_SEPARATOR_def PROPERTY_SEPARATOR_def)

section \<open>Message ids\<close>

lemma port_field: "0 \<le> p \<Longrightarrow> p < 2 ^ 16 \<Longrightarrow> s16 (ntohl (s32 p)) = 0"
proof -
  assume p: "0 \<le> p" "p < 2 ^ 16"
  have "bit (swap_bytes 4 p) k \<longleftrightarrow> bit (0 :: int) k" if "k < 16" for k
  proof -
    have "16 \<le> 8 * (4 - 1 - k div 8) + k mod 8"
    proof -
      have "k div 8 \<le> 1" using that by linarith
      then show ?thesis by simp
    qed
    moreover have "take_bit 16 p = p" using p by (simp add: take_bit_int_eq_self)
    ultimately show ?thesis unfolding bit_swap_bytes by (metis bit_0_eq bit_take_bit_iff bot_apply bot_bool_def not_le)
  qed
  then have "take_bit 16 (swap_bytes 4 p) = 0" by (intro bit_eqI) (simp add: bit_take_bit_iff)
  moreover have "take_bit 16 (ntohl (s32 p)) = take_bit 16 (swap_bytes 4 p)"
    unfolding ntohl_def swap_signed by (rule bit_eqI) (auto simp: bit_take_bit_iff signed_bits)
  ultimately have "take_bit 16 (ntohl (s32 p)) = 0" by simp
  moreover have "s16 x = signed_take_bit 15 (take_bit 16 x)" for x by (simp add: s16_def signed_take_bit_take_bit)
  ultimately show ?thesis by simp
qed

lemma be_bytes_mod: "be_bytes n (x mod 256 ^ n) = be_bytes n x"
  using be_bytes_val [of "be_bytes n x"] by (simp add: be_val_bytes)

lemma le_bytes_signed: "le_bytes 4 (s32 x) = le_bytes 4 x" "le_bytes 8 (s64 x) = le_bytes 8 x"
proof -
  have p: "(256 :: int) ^ 4 = 2 ^ 32" "(256 :: int) ^ 8 = 2 ^ 64" by simp_all
  have "s32 x mod 256 ^ 4 = x mod 256 ^ 4" "s64 x mod 256 ^ 8 = x mod 256 ^ 8"
    unfolding p s32_def s64_def take_bit_eq_mod [symmetric] by (simp_all add: take_bit_signed_take_bit)
  then show "le_bytes 4 (s32 x) = le_bytes 4 x" "le_bytes 8 (s64 x) = le_bytes 8 x"
    unfolding le_bytes_def by (metis be_bytes_mod)+
qed

lemma createMessageId_bytes:
  "createMessageId a off =
     hex_string (le_bytes 4 (sin_addr a)) @ hex_string (be_bytes 4 (swap_bytes 2 (sin_port a))) @ hex_string (be_bytes 8 off)"
  by (simp add: createMessageId_def Let_def swap64 ntohl_def ntohs_def le_bytes_signed swap_store hex_string_def)

lemma decode_hex_id:
  assumes "length ip = 4" "length port = 4" "length off = 8"
  shows "decodeMessageId (hex_string ip @ hex_string port @ hex_string off) =
    Some (\<lparr>sin_addr = take_bit 32 (s32 (be_val ip)), sin_port = swap_bytes 2 (s16 (ntohl (s32 (be_val port))))\<rparr>, n2hll (s64 (be_val off)))"
  using assms by (simp add: decodeMessageId_def Let_def hexstr2ull_def strtoul16_hex)

lemma length_le_bytes [simp]: "length (le_bytes n v) = n"
  by (simp add: le_bytes_def)

lemma swap_zero: "swap_bytes 2 0 = 0"
  by (simp add: swap_bytes_def le_val_def numeral_2_eq_2)

lemma take_s32: "take_bit 32 (s32 x) = take_bit 32 x"
  by (simp add: s32_def take_bit_signed_take_bit)

text \<open>
  On a little-endian host \<open>decodeMessageId\<close> is not the inverse of \<open>createMessageId\<close>: it returns the address
  with its bytes reversed, port 0 and the offset with its bytes reversed.
\<close>

theorem decodeMessageId_createMessageId:
  assumes "is_s64 off"
  shows "decodeMessageId (createMessageId a off) = Some (\<lparr>sin_addr = swap_bytes 4 (sin_addr a), sin_port = 0\<rparr>, n2hll off)"
proof -
  let ?p = "swap_bytes 2 (sin_port a)"
  have ip: "be_val (le_bytes 4 (sin_addr a)) = swap_bytes 4 (sin_addr a)"
    by (simp add: le_bytes_def swap_bytes_def le_val_def)
  have port: "be_val (be_bytes 4 ?p) = ?p" "s16 (ntohl (s32 ?p)) = 0"
    using swap_bytes_range [of 2 "sin_port a"] by (auto simp: be_val_bytes intro: port_field)
  have off: "s64 (be_val (be_bytes 8 off)) = off" using assms by (simp only: be_val_bytes s64_mod s64_id)
  have "take_bit 32 (swap_bytes 4 (sin_addr a)) = swap_bytes 4 (sin_addr a)"
    using swap_bytes_range [of 4 "sin_addr a"] by (intro take_bit_int_eq_self) auto
  then show ?thesis
    using decode_hex_id [of "le_bytes 4 (sin_addr a)" "be_bytes 4 ?p" "be_bytes 8 off"]
    by (simp add: createMessageId_bytes ip port off take_s32 swap_zero)
qed

theorem decodeMessageId_createMessageId_witness:
  "decodeMessageId (createMessageId \<lparr>sin_addr = 0x0100000A, sin_port = 0x9F2A\<rparr> 1) \<noteq> Some (\<lparr>sin_addr = 0x0100000A, sin_port = 0x9F2A\<rparr>, 1)"
  using decodeMessageId_createMessageId [of 1 "\<lparr>sin_addr = 0x0100000A, sin_port = 0x9F2A\<rparr>"] by simp

section \<open>Long topics\<close>

lemma topic_length_neg: "128 \<le> n \<Longrightarrow> n \<le> 255 \<Longrightarrow> schar (char_of n) = int n - 256"
proof -
  assume n: "128 \<le> n" "n \<le> 255"
  have "(of_char (char_of n) :: int) = int (of_char (char_of n))" by (simp only: of_nat_of_char)
  with n show ?thesis by (simp add: schar_def)
qed

lemma long_topic_valid: "checkTopic (replicate 200 CHR ''t'') = None"
proof -
  have "replicate 200 CHR ''t'' \<noteq> DEFAULT_TOPIC"
  proof
    assume "replicate 200 CHR ''t'' = DEFAULT_TOPIC"
    then have "length (replicate 200 CHR ''t'') = length DEFAULT_TOPIC" by (simp only:)
    then show False by (simp add: DEFAULT_TOPIC_def)
  qed
  then show ?thesis
    by (simp add: checkTopic_def isBlank_def find_first_not_of_def WHITESPACE_def CHARACTER_MAX_LENGTH_def
        regularExpressionMatcher_def validPatternStr_def)
qed

text \<open>
  The topic length is read into a signed \<open>char\<close>: a stored message whose topic has 128 to 255 characters,
  which \<open>checkTopic\<close> lets the producer send, is never decoded. \<open>decode\<close> returns null (\<open>new char[]\<close> of a
  negative size throws) or copies \<open>(size_t)-1\<close> bytes, and \<open>decodes\<close>, which adds the unset length, has no
  defined result.
\<close>

theorem long_topic_undecodable:
  assumes "fields_ok m" "length body < 2 ^ 30" "128 \<le> length (msg_topic m)" "length (msg_topic m) \<le> 255"
  shows "decode dz rb (wire magic m body @ rest) 0 = (if length (msg_topic m) = 255 then BadRead else NullMessage)
    \<and> decodes dz (wire magic m body @ rest) (int (length (wire magic m body @ rest))) rb = None"
proof -
  let ?ps = "messageProperties2String (msg_properties m)" and ?n = "int (length body)" and ?t = "msg_topic m"
  let ?w = "wire magic m body @ rest"
  have w: "?w = [] @ (wire_fixed magic m (length body) @ body @ [char_of (length ?t)] @ ?t @ be_bytes 2 (int (length ?ps)) @ ?ps) @ rest"
    by (simp add: wire_def Let_def)
  note v = variable_fields [OF length_wire_fixed [of magic m "length body"] length_be_bytes [of 2 "int (length ?ps)"],
      of "[]" body "char_of (length ?t)" ?t ?ps rest, folded w, unfolded list.size(3)]
  have fx: "decode_fixed ?w 0 = Some (fixed_message m, ?n)"
    using decode_fixed_wire [OF assms(1), of "length body" "[]" magic "body @ [char_of (length ?t)] @ ?t @ be_bytes 2 (int (length ?ps)) @ ?ps @ rest"] assms(2)
    by (simp add: wire_def Let_def)
  have bad: "rd ?w 0 p n = None" if "n < 0" for p n using that by (simp add: rd_def Let_def)
  have d: "decode dz rb ?w 0 = (if length ?t = 255 then BadRead else NullMessage)" for rb
    using assms(3,4) by (simp add: decode_def fx v(1,2) Let_def topic_length_neg bad)
  have "0 < int (length (wire magic m body)) + int (length rest)" using length_wire_pos [of magic m body] by linarith
  with d show ?thesis by (simp add: decodes_def decodes_loop.simps [of _ _ _ 0])
qed

theorem long_topic_undecodable_witness:
  "decode (\<lambda>_. None) True (wire 0 (MessageExt_new\<lparr>msg_topic := replicate 200 CHR ''t''\<rparr>) ''body'') 0 = NullMessage
   \<and> decode (\<lambda>_. None) True (wire 0 (MessageExt_new\<lparr>msg_topic := replicate 255 CHR ''t''\<rparr>) ''body'') 0 = BadRead
   \<and> checkTopic (replicate 200 CHR ''t'') = None"
  using long_topic_undecodable [of "MessageExt_new\<lparr>msg_topic := replicate 200 CHR ''t''\<rparr>" "''body''" "\<lambda>_. None" True 0 "[]"]
    long_topic_undecodable [of "MessageExt_new\<lparr>msg_topic := replicate 255 CHR ''t''\<rparr>" "''body''" "\<lambda>_. None" True 0 "[]"]
    long_topic_valid
  by (simp add: fields_ok_new)

end
