(* ===== verification/Transport.thy ===== *)
theory Transport
  imports Message_Codec
begin

text \<open>
  \<open>TcpTransport\<close> (\<open>src/src/transport/TcpTransport.cpp\<close>) and \<open>SplitURL\<close>: connecting, sending a packet through
  a non-blocking socket, and cutting the received byte stream into packets. The socket calls are inputs: one
  outcome per call of \<open>send\<close> and \<open>recv\<close>, a record for \<open>Connect\<close>; \<open>alloc n\<close> says whether \<open>realloc\<close> of
  \<open>n\<close> bytes succeeds. \<open>t_mem\<close> holds the received bytes that lie inside the allocated block; \<open>t_recvBufUsed\<close> is the
  program's own count, so a block shrunk below it is visible as \<open>length t_mem < t_recvBufUsed\<close>, and reading the
  lost bytes is undefined.

  \<open>frames\<close> is the abstract packet parser on the whole stream; the lemmas show that the transport computes it
  incrementally, whatever the sizes of the pieces \<open>recv\<close> delivers.
\<close>

section \<open>State\<close>

datatype client_state = CLIENT_STATE_UNINIT | CLIENT_STATE_INITED | CLIENT_STATE_DISCONNECT | CLIENT_STATE_CONNECTED

record transport =
  t_sfd :: int
  t_state :: client_state
  t_mem :: string
  t_recvBufSize :: int
  t_recvBufUsed :: int
  t_shrinkMax :: int
  t_shrinkCheckCnt :: int
  t_serverURL :: string

definition DEFAULT_SHRINK_COUNT :: int where "DEFAULT_SHRINK_COUNT = 32"
definition DEFAULT_RECV_BUFFER_SIZE :: int where "DEFAULT_RECV_BUFFER_SIZE = 1024 * 16"

definition TcpTransport_new :: "(int \<Rightarrow> bool) \<Rightarrow> (string, string) smap \<Rightarrow> transport" where
  "TcpTransport_new alloc config =
     (let size = (case map_find str_lt ''tcp.transport.recvBufferSize'' config of
                    None \<Rightarrow> DEFAULT_RECV_BUFFER_SIZE | Some v \<Rightarrow> atoi v);
          cnt = (case map_find str_lt ''tcp.transport.shrinkCheckMax'' config of
                    None \<Rightarrow> DEFAULT_SHRINK_COUNT | Some v \<Rightarrow> atoi v)
      in \<lparr>t_sfd = 0, t_state = (if alloc size then CLIENT_STATE_INITED else CLIENT_STATE_UNINIT), t_mem = [],
          t_recvBufSize = size, t_recvBufUsed = 0, t_shrinkMax = DEFAULT_RECV_BUFFER_SIZE,
          t_shrinkCheckCnt = cnt, t_serverURL = ''''\<rparr>)"

definition IsConnected :: "transport \<Rightarrow> bool" where
  "IsConnected t \<longleftrightarrow> t_state t = CLIENT_STATE_CONNECTED"

definition Close :: "transport \<Rightarrow> transport" where
  "Close t = (if t_state t = CLIENT_STATE_CONNECTED then t\<lparr>t_state := CLIENT_STATE_DISCONNECT\<rparr> else t)"

text \<open>The destructor: the descriptors it closes.\<close>

definition TcpTransport_delete :: "transport \<Rightarrow> int list" where
  "TcpTransport_delete t = (if t_sfd t \<noteq> -1 then [t_sfd t] else [])"

section \<open>Connecting\<close>

definition SplitURL :: "string \<Rightarrow> (string \<times> int) option" where
  "SplitURL serverURL =
     (case str_find '':'' serverURL of None \<Rightarrow> None
      | Some pos \<Rightarrow>
          let addr = take pos serverURL;
              addr = (if addr = ''localhost'' then ''127.0.0.1'' else addr);
              port = drop (pos + 1) serverURL
          in Some (addr, s16 (atoi port)))"

datatype client_error = CLIENT_ERROR_SUCCESS | CLIENT_ERROR_INIT | CLIENT_ERROR_INVALID_URL | CLIENT_ERROR_CONNECT

text \<open>The answers of the socket calls of one \<open>Connect\<close>; \<open>ce_inProgress\<close> is \<open>errno\<close> being \<open>EWOULDBLOCK\<close> or \<open>EINPROGRESS\<close>.\<close>

record connect_env =
  ce_fd :: int
  ce_nonblocking :: int
  ce_noDelay :: int
  ce_connect :: "string \<Rightarrow> int \<Rightarrow> int"
  ce_inProgress :: bool
  ce_select :: int
  ce_writable :: bool
  ce_getsockopt :: int
  ce_opterr :: int

text \<open>Result, descriptors closed on the way, and the transport.\<close>

definition Connect :: "connect_env \<Rightarrow> string \<Rightarrow> transport \<Rightarrow> client_error \<times> int list \<times> transport" where
  "Connect env strServerURL t =
     (if t_state t = CLIENT_STATE_UNINIT then (CLIENT_ERROR_INIT, [], t)
      else if IsConnected t \<and> strServerURL = t_serverURL t then (CLIENT_ERROR_SUCCESS, [], t)
      else
        let t = (if IsConnected t then Close t else t) in
        case SplitURL strServerURL of None \<Rightarrow> (CLIENT_ERROR_INVALID_URL, [], t)
        | Some (strAddr, port) \<Rightarrow>
            let t = t\<lparr>t_sfd := ce_fd env\<rparr>;
                connected = (CLIENT_ERROR_SUCCESS, [],
                  t\<lparr>t_serverURL := strServerURL, t_state := CLIENT_STATE_CONNECTED, t_recvBufUsed := 0, t_mem := []\<rparr>)
            in if ce_nonblocking env = -1 then (CLIENT_ERROR_CONNECT, [], t)
               else if ce_noDelay env = -1 then (CLIENT_ERROR_CONNECT, [t_sfd t], t)
               else if ce_connect env strAddr port = -1 then
                 (if ce_inProgress env then
                    (if ce_select env = -1 then (CLIENT_ERROR_CONNECT, [t_sfd t], t)
                     else if \<not> ce_writable env then (CLIENT_ERROR_CONNECT, [t_sfd t], t)
                     else if ce_getsockopt env = -1 then (CLIENT_ERROR_CONNECT, [t_sfd t], t)
                     else if ce_opterr env \<noteq> 0 then (CLIENT_ERROR_CONNECT, [t_sfd t], t)
                     else connected)
                  else (CLIENT_ERROR_CONNECT, [], t))
               else connected)"

section \<open>Sending\<close>

datatype send_result =
    Sent nat
  | SendWouldBlock int bool \<comment> \<open>transient error, then the result of \<open>select\<close> and whether the socket is writable\<close>
  | SendError

text \<open>One pass per outcome; \<open>None\<close>: the outcomes are used up and the loop goes on. The bytes handed to the
  socket are the second result.\<close>

fun SendOneMsg :: "send_result list \<Rightarrow> string \<Rightarrow> int \<Rightarrow> transport \<Rightarrow> (int \<times> string \<times> transport) option" where
  "SendOneMsg rs buf nTimeOut t =
     (if buf \<noteq> [] \<and> t_state t = CLIENT_STATE_CONNECTED then
        (case rs of [] \<Rightarrow> None
         | Sent n # rs \<Rightarrow>
             if n > 0
             then map_option (\<lambda>(ret, out, t). (ret, take n buf @ out, t)) (SendOneMsg rs (drop n buf) nTimeOut t)
             else Some (-1, [], Close t)
         | SendWouldBlock sel writable # rs \<Rightarrow>
             if sel = -1 then Some (-1, [], Close t)
             else if nTimeOut > 0 \<and> \<not> writable then Some (-1, [], Close t)
             else SendOneMsg rs buf nTimeOut t
         | SendError # rs \<Rightarrow> Some (-1, [], Close t))
      else Some (if buf = [] then 0 else -1, [], t))"

declare SendOneMsg.simps [simp del]

definition SendData :: "send_result list \<Rightarrow> string \<Rightarrow> int \<Rightarrow> transport \<Rightarrow> (int \<times> string \<times> transport) option" where
  "SendData rs pBuffer timeOut t = SendOneMsg rs pBuffer timeOut t"

section \<open>Receiving\<close>

datatype recv_result = Recv string | RecvError bool \<comment> \<open>\<open>True\<close>: would block or interrupted\<close>

text \<open>\<open>recv\<close> writes behind the used part; an empty answer is the end of the stream.\<close>

definition RecvMsg :: "recv_result \<Rightarrow> transport \<Rightarrow> int \<times> transport" where
  "RecvMsg r t =
     (case r of
        Recv bs \<Rightarrow>
          if bs \<noteq> [] then (int (length bs), t\<lparr>t_recvBufUsed := t_recvBufUsed t + int (length bs), t_mem := t_mem t @ bs\<rparr>)
          else (0, Close t)
      | RecvError transient \<Rightarrow> (-1, if transient then t else Close t))"

definition ResizeBuf :: "(int \<Rightarrow> bool) \<Rightarrow> int \<Rightarrow> transport \<Rightarrow> bool \<times> transport" where
  "ResizeBuf alloc nNewSize t =
     (if \<not> alloc nNewSize then (False, t)
      else (True, t\<lparr>t_recvBufSize := nNewSize, t_mem := take (nat nNewSize) (t_mem t)\<rparr>))"

definition TryShrink :: "(int \<Rightarrow> bool) \<Rightarrow> int \<Rightarrow> transport \<Rightarrow> transport" where
  "TryShrink alloc MsgLen t =
     (let t = t\<lparr>t_shrinkMax := (if MsgLen > t_shrinkMax t then MsgLen else t_shrinkMax t)\<rparr> in
      if t_shrinkCheckCnt t = 0 then
        (let t = t\<lparr>t_shrinkCheckCnt := DEFAULT_SHRINK_COUNT\<rparr> in
         if t_recvBufSize t > t_shrinkMax t then snd (ResizeBuf alloc (t_shrinkMax t) t) else t)
      else t\<lparr>t_shrinkCheckCnt := t_shrinkCheckCnt t - 1\<rparr>)"

text \<open>\<open>ntohl(len) + 4\<close> is unsigned and returned as \<open>int\<close>. \<open>None\<close>: reads outside the block.\<close>

definition GetMsgSize :: "string \<Rightarrow> int option" where
  "GetMsgSize pBuf = map_option (\<lambda>len. s32 (u32 len + 4)) (rd_int pBuf 0 0)"

text \<open>\<open>PThrows\<close>: \<open>std::string::assign\<close> with a negative length throws \<open>length_error\<close>. \<open>PUndefined\<close>: a read of
  bytes that are not there. \<open>None\<close>: the loop does not end.\<close>

datatype process_result = PDone "string list" transport | PThrows "string list" transport | PUndefined

partial_function (option) ProcessData :: "(int \<Rightarrow> bool) \<Rightarrow> transport \<Rightarrow> string list \<Rightarrow> process_result option" where
  "ProcessData alloc t outDataList =
     (if t_recvBufUsed t > 4 then
        (case GetMsgSize (t_mem t) of None \<Rightarrow> Some PUndefined
         | Some msgLen \<Rightarrow>
             if msgLen > t_recvBufSize t then
               (let (ok, t) = ResizeBuf alloc msgLen t in
                Some (PDone outDataList (if ok then t\<lparr>t_shrinkCheckCnt := DEFAULT_SHRINK_COUNT\<rparr> else t)))
             else
               let t = TryShrink alloc msgLen t in
               if t_recvBufUsed t \<ge> msgLen then
                 (if msgLen < 0 then Some (PThrows outDataList t)
                  else if int (length (t_mem t)) < t_recvBufUsed t then Some PUndefined
                  else ProcessData alloc
                         (t\<lparr>t_recvBufUsed := t_recvBufUsed t - msgLen, t_mem := drop (nat msgLen) (t_mem t)\<rparr>)
                         (outDataList @ [take (nat msgLen) (t_mem t)]))
               else Some (PDone outDataList t))
      else Some (PDone outDataList t))"

definition RecvData :: "(int \<Rightarrow> bool) \<Rightarrow> recv_result \<Rightarrow> transport \<Rightarrow> (int \<times> process_result) option" where
  "RecvData alloc r t =
     (let (ret, t) = RecvMsg r t in map_option (\<lambda>p. (ret, p)) (ProcessData alloc t []))"

section \<open>The abstract parser\<close>

definition msg_size :: "string \<Rightarrow> int" where
  "msg_size s = s32 (be_val (take 4 s) + 4)"

function frames :: "string \<Rightarrow> string list \<times> string" where
  "frames s =
     (if 4 < length s \<and> 0 < msg_size s \<and> msg_size s \<le> int (length s)
      then let (out, rest) = frames (drop (nat (msg_size s)) s) in (take (nat (msg_size s)) s # out, rest)
      else ([], s))"
  by pat_completeness auto
termination by (relation "measure length") auto

declare frames.simps [simp del]

text \<open>No header the parser meets announces a size of zero or less.\<close>

function sane :: "string \<Rightarrow> bool" where
  "sane s =
     (if 4 < length s
      then if 0 < msg_size s then if msg_size s \<le> int (length s) then sane (drop (nat (msg_size s)) s) else True
           else False
      else True)"
  by pat_completeness auto
termination by (relation "measure length") auto

declare sane.simps [simp del]

lemma frames_step:
  "4 < length s \<Longrightarrow> 0 < msg_size s \<Longrightarrow> msg_size s \<le> int (length s) \<Longrightarrow>
   frames s = (take (nat (msg_size s)) s # fst (frames (drop (nat (msg_size s)) s)), snd (frames (drop (nat (msg_size s)) s)))"
  by (simp add: frames.simps [of s] split_beta)

lemma frames_stop: "length s \<le> 4 \<or> msg_size s \<le> 0 \<or> int (length s) < msg_size s \<Longrightarrow> frames s = ([], s)"
  by (auto simp: frames.simps [of s])

lemma frames_concat: "concat (fst (frames s)) @ snd (frames s) = s"
proof (induction s rule: frames.induct)
  case (1 s)
  then show ?case
    by (cases "4 < length s \<and> 0 < msg_size s \<and> msg_size s \<le> int (length s)") (auto simp: frames_step frames_stop)
qed

lemma msg_size_append: "4 \<le> length s \<Longrightarrow> msg_size (s @ c) = msg_size s"
  by (simp add: msg_size_def)

text \<open>Parsing can be resumed on the rest.\<close>

lemma frames_append:
  "frames (s @ c) = (fst (frames s) @ fst (frames (snd (frames s) @ c)), snd (frames (snd (frames s) @ c)))"
proof (induction s rule: frames.induct)
  case (1 s)
  show ?case
  proof (cases "4 < length s \<and> 0 < msg_size s \<and> msg_size s \<le> int (length s)")
    case True
    then have n: "msg_size (s @ c) = msg_size s" "nat (msg_size s) \<le> length s" by (auto simp: msg_size_append)
    with True have "frames (s @ c) = (take (nat (msg_size s)) s # fst (frames (drop (nat (msg_size s)) s @ c)),
        snd (frames (drop (nat (msg_size s)) s @ c)))" by (simp add: frames_step [of "s @ c"])
    with 1 [OF True] True show ?thesis by (simp add: frames_step [of s])
  next
    case False
    then have "frames s = ([], s)" by (auto simp: frames_stop)
    then show ?thesis by simp
  qed
qed

lemma sane_rest: "sane (s @ c) \<Longrightarrow> sane (snd (frames s) @ c)"
proof (induction s rule: frames.induct)
  case (1 s)
  show ?case
  proof (cases "4 < length s \<and> 0 < msg_size s \<and> msg_size s \<le> int (length s)")
    case True
    then have n: "msg_size (s @ c) = msg_size s" "nat (msg_size s) \<le> length s" by (auto simp: msg_size_append)
    with True 1(2) have "sane (drop (nat (msg_size s)) s @ c)" by (simp add: sane.simps [of "s @ c"])
    with 1(1) [OF True] True show ?thesis by (simp add: frames_step [of s])
  next
    case False
    then have "frames s = ([], s)" by (auto simp: frames_stop)
    with 1(2) show ?thesis by simp
  qed
qed

lemma sane_prefix: "sane (s @ c) \<Longrightarrow> sane s"
proof (induction s rule: frames.induct)
  case (1 s)
  show ?case
  proof (cases "4 < length s")
    case True
    then have n: "msg_size (s @ c) = msg_size s" by (simp add: msg_size_append)
    with True 1(2) have pos: "0 < msg_size s" by (simp add: sane.simps [of "s @ c"] split: if_splits)
    have "sane (drop (nat (msg_size s)) s)" if le: "msg_size s \<le> int (length s)"
    proof -
      have "sane (drop (nat (msg_size s)) s @ c)" using True n 1(2) le pos by (simp add: sane.simps [of "s @ c"] split: if_splits)
      with 1(1) True pos le show ?thesis by blast
    qed
    with pos show ?thesis by (simp add: sane.simps [of s])
  next
    case False
    then show ?thesis by (simp add: sane.simps [of s])
  qed
qed

lemma frames_rest: "sane s \<Longrightarrow> 4 < length (snd (frames s)) \<Longrightarrow> int (length (snd (frames s))) < msg_size (snd (frames s))"
proof (induction s rule: frames.induct)
  case (1 s)
  show ?case
  proof (cases "4 < length s \<and> 0 < msg_size s \<and> msg_size s \<le> int (length s)")
    case True
    then have "sane (drop (nat (msg_size s)) s)" using 1(2) by (simp add: sane.simps [of s])
    with 1(1) [OF True] 1(3) True show ?thesis by (simp add: frames_step)
  next
    case False
    then have "frames s = ([], s)" by (auto simp: frames_stop)
    with 1 False show ?thesis by (auto simp: sane.simps [of s])
  qed
qed

section \<open>The transport computes it\<close>

lemma GetMsgSize_eq: "4 \<le> length s \<Longrightarrow> GetMsgSize s = Some (msg_size s)"
proof -
  assume s: "4 \<le> length s"
  have be: "0 \<le> be_val (take 4 s)" "be_val (take 4 s) < 2 ^ 32" using be_val_bounds [of "take 4 s"] s by auto
  have "u32 (s32 x) = take_bit 32 x" for x by (simp add: u32_def take_s32)
  then have "u32 (ntohl (s32 (le_val (take 4 s)))) = be_val (take 4 s)"
    using be s by (simp add: ntohl_def swap_signed swap_load take_bit_int_eq_self)
  moreover have "rd s 0 0 4 = Some (take 4 s)" using s by (simp add: rd_def)
  ultimately show ?thesis by (simp add: GetMsgSize_def rd_int_def msg_size_def)
qed

text \<open>Between two calls: everything received is in the block, there is room for more, and the block is no larger
  than \<open>m_shrinkMax\<close> unless it was just enlarged for the message at its front.\<close>

definition t_ok :: "transport \<Rightarrow> bool" where
  "t_ok t \<longleftrightarrow> int (length (t_mem t)) = t_recvBufUsed t \<and> t_recvBufUsed t < t_recvBufSize t \<and> 4 < t_recvBufSize t
     \<and> (t_recvBufSize t \<le> t_shrinkMax t \<or> 4 < length (t_mem t) \<and> t_recvBufSize t = msg_size (t_mem t))"

definition same_conn :: "transport \<Rightarrow> transport \<Rightarrow> bool" where
  "same_conn t u \<longleftrightarrow> t_sfd u = t_sfd t \<and> t_state u = t_state t \<and> t_serverURL u = t_serverURL t"

lemma same_conn_trans: "same_conn t u \<Longrightarrow> same_conn u v \<Longrightarrow> same_conn t v"
  by (simp add: same_conn_def)

lemma TryShrink_keeps:
  assumes "t_recvBufSize t \<le> t_shrinkMax t \<or> t_recvBufSize t = L"
  shows "t_mem (TryShrink alloc L t) = t_mem t" "t_recvBufUsed (TryShrink alloc L t) = t_recvBufUsed t"
    "t_recvBufSize (TryShrink alloc L t) = t_recvBufSize t" "t_recvBufSize t \<le> t_shrinkMax (TryShrink alloc L t)"
    "same_conn t (TryShrink alloc L t)"
  using assms by (auto simp: TryShrink_def Let_def same_conn_def)

lemma ProcessData_frames:
  assumes "\<And>n. alloc n" and "int (length (t_mem t)) = t_recvBufUsed t" "t_recvBufUsed t \<le> t_recvBufSize t" "4 < t_recvBufSize t"
    and "t_recvBufSize t \<le> t_shrinkMax t \<or> 4 < length (t_mem t) \<and> t_recvBufSize t = msg_size (t_mem t)"
    and "sane (t_mem t)"
  shows "\<exists>u. ProcessData alloc t out = Some (PDone (out @ fst (frames (t_mem t))) u)
    \<and> t_mem u = snd (frames (t_mem t)) \<and> t_ok u \<and> same_conn t u"
  using assms
proof (induction "length (t_mem t)" arbitrary: t out rule: less_induct)
  case less
  let ?m = "t_mem t" and ?n = "msg_size (t_mem t)"
  show ?case
  proof (cases "4 < length ?m")
    case False
    then have "\<not> t_recvBufUsed t > 4" using less.prems by linarith
    with False less.prems show ?thesis
      by (simp add: ProcessData.simps [of _ t] frames_stop t_ok_def same_conn_def)
  next
    case True
    then have used: "t_recvBufUsed t > 4" and sz: "GetMsgSize ?m = Some ?n"
      using less.prems by (auto simp: GetMsgSize_eq)
    have pos: "0 < ?n" using less.prems(6) True by (simp add: sane.simps [of ?m] split: if_splits)
    show ?thesis
    proof (cases "?n > t_recvBufSize t")
      case big: True
      let ?u = "t\<lparr>t_recvBufSize := ?n, t_shrinkCheckCnt := DEFAULT_SHRINK_COUNT\<rparr>"
      have "length ?m \<le> nat ?n" using big less.prems by linarith
      then have "ProcessData alloc t out = Some (PDone out ?u)"
        using used sz big less.prems(1) by (simp add: ProcessData.simps [of _ t] ResizeBuf_def)
      moreover have "frames ?m = ([], ?m)" using big less.prems by (intro frames_stop) linarith
      ultimately show ?thesis using big less.prems True by (intro exI [of _ ?u]) (simp add: t_ok_def same_conn_def)
    next
      case fits: False
      let ?s = "TryShrink alloc ?n t"
      note k = TryShrink_keeps [of t ?n alloc]
      have kc: "t_recvBufSize t \<le> t_shrinkMax t \<or> t_recvBufSize t = ?n" using less.prems(5) by blast
      show ?thesis
      proof (cases "t_recvBufUsed t \<ge> ?n")
        case whole: True
        let ?v = "?s\<lparr>t_recvBufUsed := t_recvBufUsed t - ?n, t_mem := drop (nat ?n) ?m\<rparr>"
        have le: "?n \<le> int (length ?m)" using whole less.prems by linarith
        have "sane (drop (nat ?n) ?m)" using less.prems(6) True pos le by (simp add: sane.simps [of ?m])
        moreover have "length (t_mem ?v) < length ?m" using True pos by simp
        moreover have "int (length (t_mem ?v)) = t_recvBufUsed ?v" using less.prems(2) le pos by simp
        ultimately obtain u where u: "ProcessData alloc ?v (out @ [take (nat ?n) ?m])
            = Some (PDone ((out @ [take (nat ?n) ?m]) @ fst (frames (drop (nat ?n) ?m))) u)"
          "t_mem u = snd (frames (drop (nat ?n) ?m))" "t_ok u" "same_conn ?v u"
          using less.hyps [of ?v "out @ [take (nat ?n) ?m]"] less.prems(1,3,4) k [OF kc] pos by auto
        have "ProcessData alloc t out = ProcessData alloc ?v (out @ [take (nat ?n) ?m])"
          using used sz fits whole pos less.prems(2) k [OF kc] by (simp add: ProcessData.simps [of _ t] Let_def)
        moreover have "same_conn t u" using k(5) [OF kc] u(4) by (simp add: same_conn_def)
        ultimately show ?thesis using u frames_step [OF True pos le] by auto
      next
        case part: False
        then have "ProcessData alloc t out = Some (PDone out ?s)"
          using used sz fits k [OF kc] by (simp add: ProcessData.simps [of _ t] Let_def)
        moreover have "frames ?m = ([], ?m)" using part less.prems by (intro frames_stop) linarith
        ultimately show ?thesis using k [OF kc] fits part less.prems by (intro exI [of _ ?s]) (simp add: t_ok_def)
      qed
    qed
  qed
qed

section \<open>Properties\<close>

text \<open>Receiving a sequence of pieces; the packets are collected in order.\<close>

fun receive_all :: "(int \<Rightarrow> bool) \<Rightarrow> string list \<Rightarrow> transport \<Rightarrow> (string list \<times> transport) option" where
  "receive_all alloc [] t = Some ([], t)"
| "receive_all alloc (c # cs) t =
     (case RecvData alloc (Recv c) t of
        Some (ret, PDone out t) \<Rightarrow> map_option (\<lambda>(out', t). (out @ out', t)) (receive_all alloc cs t)
      | _ \<Rightarrow> None)"

text \<open>\<open>recv\<close> returns at least one byte and no more than there is room for.\<close>

fun pieces_fit :: "(int \<Rightarrow> bool) \<Rightarrow> string list \<Rightarrow> transport \<Rightarrow> bool" where
  "pieces_fit alloc [] t \<longleftrightarrow> True"
| "pieces_fit alloc (c # cs) t \<longleftrightarrow> c \<noteq> [] \<and> int (length c) \<le> t_recvBufSize t - t_recvBufUsed t
     \<and> (case RecvData alloc (Recv c) t of Some (ret, PDone out t) \<Rightarrow> pieces_fit alloc cs t | _ \<Rightarrow> True)"

lemma RecvData_frames:
  assumes "\<And>n. alloc n" "t_ok t" "c \<noteq> []" "int (length c) \<le> t_recvBufSize t - t_recvBufUsed t" "sane (t_mem t @ c)"
  shows "\<exists>u. RecvData alloc (Recv c) t = Some (int (length c), PDone (fst (frames (t_mem t @ c))) u)
    \<and> t_mem u = snd (frames (t_mem t @ c)) \<and> t_ok u \<and> same_conn t u"
proof -
  let ?t = "t\<lparr>t_recvBufUsed := t_recvBufUsed t + int (length c), t_mem := t_mem t @ c\<rparr>"
  have "t_recvBufSize t \<le> t_shrinkMax t \<or> 4 < length (t_mem t @ c) \<and> t_recvBufSize t = msg_size (t_mem t @ c)"
    using assms(2) by (auto simp: t_ok_def msg_size_append)
  then obtain u where "ProcessData alloc ?t [] = Some (PDone (fst (frames (t_mem t @ c))) u)"
    "t_mem u = snd (frames (t_mem t @ c))" "t_ok u" "same_conn ?t u"
    using ProcessData_frames [of alloc ?t "[]"] assms by (auto simp: t_ok_def)
  then show ?thesis using assms(3) by (simp add: RecvData_def RecvMsg_def same_conn_def)
qed

lemma receive_all_frames:
  assumes "\<And>n. alloc n" "t_ok t" "pieces_fit alloc cs t" "sane (t_mem t @ concat cs)" "frames (t_mem t) = ([], t_mem t)"
  shows "\<exists>u. receive_all alloc cs t = Some (fst (frames (t_mem t @ concat cs)), u)
    \<and> t_mem u = snd (frames (t_mem t @ concat cs)) \<and> t_ok u \<and> same_conn t u"
  using assms
proof (induction cs arbitrary: t)
  case Nil
  then show ?case by (simp add: same_conn_def)
next
  case (Cons c cs)
  let ?s = "t_mem t @ c"
  have "sane ?s" using Cons.prems(4) sane_prefix [of ?s "concat cs"] by simp
  then obtain u where u: "RecvData alloc (Recv c) t = Some (int (length c), PDone (fst (frames ?s)) u)"
    "t_mem u = snd (frames ?s)" "t_ok u" "same_conn t u"
    using RecvData_frames [of alloc t c] Cons.prems(1-3) by auto
  have fr: "frames (t_mem u) = ([], t_mem u)"
    using frames_rest [OF \<open>sane ?s\<close>] u(2) by (intro frames_stop) fastforce
  have fit: "pieces_fit alloc cs u" using Cons.prems(3) u(1) by simp
  have sr: "sane (t_mem u @ concat cs)" using Cons.prems(4) u(2) sane_rest [of ?s "concat cs"] by simp
  obtain v where v: "receive_all alloc cs u = Some (fst (frames (t_mem u @ concat cs)), v)"
    "t_mem v = snd (frames (t_mem u @ concat cs))" "t_ok v" "same_conn u v"
    using Cons.IH [of u] Cons.prems(1) u(3) fit sr fr by blast
  have "frames (t_mem t @ concat (c # cs)) = (fst (frames ?s) @ fst (frames (t_mem u @ concat cs)), snd (frames (t_mem u @ concat cs)))"
    using frames_append [of ?s "concat cs"] u(2) by simp
  with u v same_conn_trans show ?case by auto
qed

text \<open>
  C6. Packet framing refines the stream parser: whatever the sizes of the pieces \<open>recv\<close> delivers, a transport
  with a free buffer hands out exactly the packets of the stream received so far, in order and whole, and keeps
  exactly the unfinished rest; the connection stays up and there is always room to receive more.
\<close>

theorem receive_refines_frames:
  assumes "\<And>n. alloc n" "t_ok t" "t_mem t = []" "pieces_fit alloc cs t" "sane (concat cs)"
  shows "\<exists>u. receive_all alloc cs t = Some (fst (frames (concat cs)), u) \<and> t_mem u = snd (frames (concat cs))
    \<and> t_state u = t_state t \<and> t_recvBufUsed u < t_recvBufSize u"
proof -
  have "frames [] = ([], [])" by (simp add: frames_stop)
  then obtain u where "receive_all alloc cs t = Some (fst (frames (concat cs)), u)"
    "t_mem u = snd (frames (concat cs))" "t_ok u" "same_conn t u"
    using receive_all_frames [of alloc t cs] assms by auto
  then show ?thesis by (auto simp: t_ok_def same_conn_def)
qed

definition sample_transport :: transport where
  "sample_transport = (TcpTransport_new (\<lambda>_. True) [])\<lparr>t_state := CLIENT_STATE_CONNECTED, t_sfd := 7\<rparr>"

definition sample_stream :: string where
  "sample_stream = be_bytes 4 2 @ ''ab'' @ be_bytes 4 1 @ ''c'' @ be_bytes 4 9"

lemma sample_transport_ok: "t_ok sample_transport" "t_mem sample_transport = []"
  by (simp_all add: sample_transport_def TcpTransport_new_def t_ok_def DEFAULT_RECV_BUFFER_SIZE_def)

lemma sample_stream_sizes:
  "msg_size sample_stream = 6" "msg_size (drop 6 sample_stream) = 5" "length sample_stream = 15"
  by (simp_all add: sample_stream_def msg_size_def be_val_bytes s32_id)

lemma sample_stream_frames:
  "frames sample_stream = ([be_bytes 4 2 @ ''ab'', be_bytes 4 1 @ ''c''], be_bytes 4 9)" "sane sample_stream"
  using sample_stream_sizes
  by (simp_all add: frames_step frames_stop sane.simps [of sample_stream] sane.simps [of "drop 6 sample_stream"]
      sane.simps [of "drop 11 sample_stream"]) (simp_all add: sample_stream_def)

theorem receive_refines_frames_witness:
  "\<exists>u. receive_all (\<lambda>_. True) [sample_stream] sample_transport
      = Some ([be_bytes 4 2 @ ''ab'', be_bytes 4 1 @ ''c''], u) \<and> t_mem u = be_bytes 4 9
    \<and> t_state u = CLIENT_STATE_CONNECTED \<and> t_recvBufUsed u < t_recvBufSize u"
proof -
  have "sample_stream \<noteq> []" by (simp add: sample_stream_def)
  then have "pieces_fit (\<lambda>_. True) [sample_stream] sample_transport"
    using sample_stream_sizes(3)
    by (simp add: sample_transport_def TcpTransport_new_def DEFAULT_RECV_BUFFER_SIZE_def split: option.split prod.split process_result.split)
  from receive_refines_frames [OF _ sample_transport_ok this] show ?thesis
    using sample_stream_frames by (simp add: sample_transport_def)
qed

definition zero_head :: "transport \<Rightarrow> bool" where
  "zero_head t \<longleftrightarrow> 4 < t_recvBufUsed t \<and> int (length (t_mem t)) = t_recvBufUsed t \<and> t_recvBufSize t \<le> t_shrinkMax t
     \<and> 0 \<le> t_recvBufSize t \<and> msg_size (t_mem t) = 0"

lemma process_zero: "zero_head t \<Longrightarrow> ProcessData alloc t out = None"
proof (rule ccontr)
  assume z: "zero_head t" and "ProcessData alloc t out \<noteq> None"
  then obtain r where "ProcessData alloc t out = Some r" by blast
  then have "\<not> zero_head t"
  proof (rule ProcessData.raw_induct [where P = "\<lambda>_ t _ _. \<not> zero_head t", rotated], goal_cases)
    case (1 f alloc t out r)
    show ?case
    proof
      assume z: "zero_head t"
      then have k: "t_recvBufSize t \<le> t_shrinkMax t \<or> t_recvBufSize t = 0" by (simp add: zero_head_def)
      have "GetMsgSize (t_mem t) = Some 0" using z by (simp add: zero_head_def GetMsgSize_eq)
      moreover let ?u = "(TryShrink alloc 0 t)\<lparr>t_recvBufUsed := t_recvBufUsed t, t_mem := t_mem t\<rparr>"
      have u: "zero_head ?u" using z TryShrink_keeps [OF k, of alloc] by (simp add: zero_head_def)
      ultimately have "f alloc ?u (out @ [[]]) = Some r"
        using 1(2) z TryShrink_keeps [OF k, of alloc] by (simp add: zero_head_def Let_def)
      with 1(1) u show False by blast
    qed
  qed
  with z show False by blast
qed

lemma process_negative:
  assumes "4 < t_recvBufUsed t" "4 \<le> length (t_mem t)" "t_recvBufSize t \<le> t_shrinkMax t" "0 \<le> t_recvBufSize t" "msg_size (t_mem t) < 0"
  shows "ProcessData alloc t out = Some (PThrows out (TryShrink alloc (msg_size (t_mem t)) t))"
  using assms TryShrink_keeps [of t "msg_size (t_mem t)" alloc]
  by (simp add: ProcessData.simps [of _ t] GetMsgSize_eq Let_def)

text \<open>
  A header that announces a bad size stops the connection for good: with a size of zero the loop never
  returns, and with a negative size every later \<open>RecvData\<close> throws before a packet is handed out, with the
  bytes left where they are.
\<close>

theorem bad_header_stalls:
  assumes "t_ok t" "t_recvBufSize t \<le> t_shrinkMax t" "c \<noteq> []" "4 < length (t_mem t @ c)" "msg_size (t_mem t @ c) \<le> 0"
  shows "RecvData alloc (Recv c) t =
    (if msg_size (t_mem t @ c) = 0 then None
     else Some (int (length c), PThrows [] (TryShrink alloc (msg_size (t_mem t @ c))
       (t\<lparr>t_recvBufUsed := t_recvBufUsed t + int (length c), t_mem := t_mem t @ c\<rparr>))))
   \<and> t_mem (TryShrink alloc (msg_size (t_mem t @ c)) (t\<lparr>t_recvBufUsed := t_recvBufUsed t + int (length c), t_mem := t_mem t @ c\<rparr>)) = t_mem t @ c"
proof -
  let ?t = "t\<lparr>t_recvBufUsed := t_recvBufUsed t + int (length c), t_mem := t_mem t @ c\<rparr>"
  have u: "int (length (t_mem t @ c)) = t_recvBufUsed ?t" "0 \<le> t_recvBufSize t" using assms(1) by (auto simp: t_ok_def)
  have r: "RecvMsg (Recv c) t = (int (length c), ?t)" using assms(3) by (simp add: RecvMsg_def)
  have k: "t_mem (TryShrink alloc (msg_size (t_mem t @ c)) ?t) = t_mem t @ c" using TryShrink_keeps(1) [of ?t] assms(2) by simp
  show ?thesis
  proof (cases "msg_size (t_mem t @ c) = 0")
    case True
    then have "zero_head ?t" using assms u by (simp add: zero_head_def)
    with r k True show ?thesis by (simp add: RecvData_def process_zero)
  next
    case False
    then have "ProcessData alloc ?t [] = Some (PThrows [] (TryShrink alloc (msg_size (t_mem ?t)) ?t))"
      using assms u by (intro process_negative) auto
    with r k False show ?thesis by (simp add: RecvData_def)
  qed
qed

theorem bad_header_stalls_witness:
  "RecvData (\<lambda>_. True) (Recv (be_bytes 4 (-4) @ ''x'')) sample_transport = None
   \<and> (\<exists>u. RecvData (\<lambda>_. True) (Recv (be_bytes 4 (-9) @ ''x'')) sample_transport = Some (5, PThrows [] u))"
proof -
  have z: "msg_size (be_bytes 4 (-4) @ ''x'') = 0" "msg_size (be_bytes 4 (-9) @ ''x'') = -5"
    by (simp_all add: msg_size_def be_val_bytes s32_def)
  have s: "t_recvBufSize sample_transport \<le> t_shrinkMax sample_transport"
    by (simp add: sample_transport_def TcpTransport_new_def)
  show ?thesis
    using bad_header_stalls [OF sample_transport_ok(1) s, of "be_bytes 4 (-4) @ ''x''" "\<lambda>_. True"]
      bad_header_stalls [OF sample_transport_ok(1) s, of "be_bytes 4 (-9) @ ''x''" "\<lambda>_. True"] sample_transport_ok(2) z by auto
qed

section \<open>Sending\<close>

lemma SendOneMsg_cases:
  "SendOneMsg rs buf timeOut t = Some (ret, out, u) \<Longrightarrow>
   (\<exists>rest. buf = out @ rest \<and> (if rest = [] then ret = 0 \<and> u = t else ret = -1 \<and> \<not> IsConnected u))"
proof (induction rs buf timeOut t arbitrary: ret out u rule: SendOneMsg.induct)
  case (1 rs buf timeOut t)
  show ?case
  proof (cases "buf \<noteq> [] \<and> t_state t = CLIENT_STATE_CONNECTED")
    case False
    with "1.prems" show ?thesis by (auto simp: SendOneMsg.simps [of rs] IsConnected_def)
  next
    case go: True
    have closed: "\<not> IsConnected (Close t)" by (simp add: Close_def IsConnected_def)
    from go "1.prems" obtain r rs' where rs: "rs = r # rs'" by (cases rs) (auto simp: SendOneMsg.simps [of "[]"])
    show ?thesis
    proof (cases r)
      case (Sent n)
      show ?thesis
      proof (cases "n > 0")
        case True
        with go rs Sent "1.prems" obtain out' where o: "SendOneMsg rs' (drop n buf) timeOut t = Some (ret, out', u)" "out = take n buf @ out'"
          by (auto simp: SendOneMsg.simps [of "Sent n # rs'"])
        from "1.IH"(1) [OF go rs Sent True o(1)] o(2) show ?thesis by (metis append.assoc append_take_drop_id)
      next
        case False
        with go rs Sent "1.prems" closed show ?thesis by (auto simp: SendOneMsg.simps [of "Sent n # rs'"])
      qed
    next
      case (SendWouldBlock sel writable)
      show ?thesis
      proof (cases "sel = -1 \<or> timeOut > 0 \<and> \<not> writable")
        case True
        then have "SendOneMsg rs buf timeOut t = Some (-1, [], Close t)"
          using go unfolding rs SendWouldBlock SendOneMsg.simps [of "SendWouldBlock sel writable # rs'"] by (simp split: if_split) blast
        with go "1.prems" closed show ?thesis by auto
      next
        case False
        then have f: "sel \<noteq> -1" "\<not> (0 < timeOut \<and> \<not> writable)" by auto
        with go rs SendWouldBlock "1.prems" have "SendOneMsg rs' buf timeOut t = Some (ret, out, u)"
          by (simp add: SendOneMsg.simps [of "SendWouldBlock sel writable # rs'"])
        with "1.IH"(2) [OF go rs SendWouldBlock f] show ?thesis by blast
      qed
    next
      case SendError
      with go rs "1.prems" closed show ?thesis by (auto simp: SendOneMsg.simps [of "SendError # rs'"])
    qed
  qed
qed

text \<open>A run of \<open>SendData\<close> calls on one transport, each with its own socket outcomes: the results and what went
  onto the wire. \<open>None\<close>: a call does not return.\<close>

fun send_packets :: "(send_result list \<times> string) list \<Rightarrow> int \<Rightarrow> transport \<Rightarrow> (int list \<times> string) option" where
  "send_packets [] timeOut t = Some ([], [])"
| "send_packets ((rs, p) # ps) timeOut t =
     (case SendData rs p timeOut t of None \<Rightarrow> None
      | Some (ret, out, t) \<Rightarrow> map_option (\<lambda>(rets, wire). (ret # rets, out @ wire)) (send_packets ps timeOut t))"

lemma send_disconnected:
  "\<not> IsConnected t \<Longrightarrow> list_all (\<lambda>(rs, p). p \<noteq> []) ps \<Longrightarrow> send_packets ps timeOut t = Some (replicate (length ps) (-1), [])"
  by (induction ps) (auto simp: SendData_def SendOneMsg.simps IsConnected_def)

text \<open>
  C35. The byte stream the broker sees is a sequence of whole packets, followed by a prefix of at most one more:
  exactly the packets whose \<open>SendData\<close> returned 0, in order; after the first failure every later call fails and
  sends nothing.
\<close>

theorem send_stream_whole_packets:
  assumes "IsConnected t" "list_all (\<lambda>(rs, p). p \<noteq> []) ps" "send_packets ps timeOut t = Some (rets, w)"
  shows "\<exists>k part. rets = replicate k 0 @ replicate (length ps - k) (-1) \<and> k \<le> length ps
    \<and> w = concat (map snd (take k ps)) @ part
    \<and> (if k < length ps then \<exists>x. x \<noteq> [] \<and> snd (ps ! k) = part @ x else part = [])"
  using assms
proof (induction ps arbitrary: t rets w)
  case Nil
  then show ?case by auto
next
  case (Cons q ps)
  obtain rs p where q: "q = (rs, p)" by (cases q)
  with Cons.prems obtain ret out u rets' w' where
    s: "SendOneMsg rs p timeOut t = Some (ret, out, u)" and r: "send_packets ps timeOut u = Some (rets', w')"
      "rets = ret # rets'" "w = out @ w'"
    by (auto simp: SendData_def split: option.splits)
  obtain rest where rest: "p = out @ rest" "if rest = [] then ret = 0 \<and> u = t else ret = -1 \<and> \<not> IsConnected u"
    using SendOneMsg_cases [OF s] by blast
  show ?case
  proof (cases "rest = []")
    case True
    with rest r Cons.IH [of t rets' w'] Cons.prems obtain k part where
      "rets' = replicate k 0 @ replicate (length ps - k) (-1)" "k \<le> length ps" "w' = concat (map snd (take k ps)) @ part"
      "if k < length ps then \<exists>x. x \<noteq> [] \<and> snd (ps ! k) = part @ x else part = []" by auto
    with True rest r q show ?thesis by (intro exI [of _ "Suc k"] exI [of _ part]) auto
  next
    case False
    with rest r send_disconnected [of u ps timeOut] Cons.prems q show ?thesis
      by (intro exI [of _ 0] exI [of _ out]) auto
  qed
qed

definition sample_sends :: "(send_result list \<times> string) list" where
  "sample_sends = [([Sent 2, SendWouldBlock 1 True, Sent 1], ''abc''), ([Sent 1, SendError], ''de''), ([], ''f'')]"

lemma sample_sends_run: "send_packets sample_sends 3000 sample_transport = Some ([0, -1, -1], ''abcd'')"
  by (simp add: sample_sends_def sample_transport_def SendData_def SendOneMsg.simps Close_def)

theorem send_stream_whole_packets_witness:
  "\<exists>k part. [0, -1, -1] = replicate k (0::int) @ replicate (length sample_sends - k) (-1) \<and> k \<le> length sample_sends
    \<and> ''abcd'' = concat (map snd (take k sample_sends)) @ part
    \<and> (if k < length sample_sends then \<exists>x. x \<noteq> [] \<and> snd (sample_sends ! k) = part @ x else part = [])"
  by (rule send_stream_whole_packets [OF _ _ sample_sends_run])
    (simp_all add: sample_transport_def IsConnected_def sample_sends_def)

section \<open>Descriptors\<close>

text \<open>
  What a failed \<open>Connect\<close> on a fresh transport leaves to the destructor: after a socket was opened and closed
  the destructor closes the same number a second time, and when no socket was opened (a bad URL) it closes
  descriptor 0, the process's standard input.
\<close>

theorem failed_connect_closes_foreign_descriptor:
  assumes "Connect env url (TcpTransport_new (\<lambda>_. True) []) = (err, closed, u)" "err \<noteq> CLIENT_ERROR_SUCCESS" "ce_fd env \<noteq> -1"
  shows "TcpTransport_delete u = (if err = CLIENT_ERROR_INVALID_URL then [0] else [ce_fd env]) \<and> (closed = [] \<or> closed = [ce_fd env])"
  using assms
  by (auto simp: Connect_def TcpTransport_delete_def TcpTransport_new_def IsConnected_def Let_def split: if_splits option.splits prod.splits)

theorem failed_connect_closes_foreign_descriptor_witness:
  "TcpTransport_delete (snd (snd (Connect \<lparr>ce_fd = 5, ce_nonblocking = 0, ce_noDelay = 0, ce_connect = (\<lambda>_ _. -1), ce_inProgress = True,
      ce_select = 1, ce_writable = True, ce_getsockopt = 0, ce_opterr = 111\<rparr> ''127.0.0.1:9876'' (TcpTransport_new (\<lambda>_. True) [])))) = [5]
   \<and> fst (snd (Connect \<lparr>ce_fd = 5, ce_nonblocking = 0, ce_noDelay = 0, ce_connect = (\<lambda>_ _. -1), ce_inProgress = True,
      ce_select = 1, ce_writable = True, ce_getsockopt = 0, ce_opterr = 111\<rparr> ''127.0.0.1:9876'' (TcpTransport_new (\<lambda>_. True) []))) = [5]"
proof -
  let ?env = "\<lparr>ce_fd = 5, ce_nonblocking = 0, ce_noDelay = 0, ce_connect = (\<lambda>_ _. -1), ce_inProgress = True,
      ce_select = 1, ce_writable = True, ce_getsockopt = 0, ce_opterr = 111\<rparr>"
  have s: "SplitURL ''127.0.0.1:9876'' = Some (''127.0.0.1'', s16 (atoi ''9876''))"
    by (simp add: SplitURL_def str_find.simps starts_with_def)
  then have c: "fst (Connect ?env ''127.0.0.1:9876'' (TcpTransport_new (\<lambda>_. True) [])) = CLIENT_ERROR_CONNECT"
    "fst (snd (Connect ?env ''127.0.0.1:9876'' (TcpTransport_new (\<lambda>_. True) []))) = [5]"
    by (simp_all add: Connect_def TcpTransport_new_def IsConnected_def)
  obtain err closed u where e: "Connect ?env ''127.0.0.1:9876'' (TcpTransport_new (\<lambda>_. True) []) = (err, closed, u)"
    by (metis prod.collapse)
  from failed_connect_closes_foreign_descriptor [OF e] c show ?thesis unfolding e by simp
qed

end
