(* ===== verification/Json_Text.thy ===== *)
theory Json_Text
  imports Transport
begin

text \<open>
  JSON values as the client uses them through the \<open>MQJson\<close> library (\<open>object["x"].asInt()\<close>,
  \<open>asString()\<close>), and the text form the client writes by hand with \<open>operator<<\<close>. The library's parser is not
  modelled: it is an argument of the definitions that call it, and \<open>parser_ok\<close> says what they rely on: an object at
  the front of the text, with distinct keys and strings that need no escape, is read, and what follows is ignored. The
  library keeps a number that does not fit a signed 32 bit integer as an unsigned number or a double (\<open>JReal\<close>), which \<open>asInt\<close>
  refuses. \<open>read_json\<close> is a small reader for the text the client writes; it shows that this text is well formed
  and that \<open>parser_ok\<close> can hold.
\<close>

section \<open>Values\<close>

datatype json = JNull | JBool bool | JInt int | JReal int | JStr string | JArr "json list" | JObj "(string \<times> json) list"

text \<open>The argument of \<open>JReal\<close> is the number in the text; nothing the client calls reads it.\<close>

text \<open>\<open>operator[]\<close> on anything but null and objects fails an assertion; the conversions throw. Both are
  \<open>None\<close>.\<close>

definition jget :: "json \<Rightarrow> string \<Rightarrow> json option" where
  "jget j k =
     (case j of JNull \<Rightarrow> Some JNull
      | JObj ms \<Rightarrow> Some (case map_of ms k of None \<Rightarrow> JNull | Some v \<Rightarrow> v)
      | _ \<Rightarrow> None)"

definition fits_int :: "int \<Rightarrow> bool" where
  "fits_int i \<longleftrightarrow> - (2 ^ 31) \<le> i \<and> i < 2 ^ 31"

definition asInt :: "json \<Rightarrow> int option" where
  "asInt j = (case j of JNull \<Rightarrow> Some 0 | JInt i \<Rightarrow> if fits_int i then Some i else None | JBool b \<Rightarrow> Some (if b then 1 else 0) | _ \<Rightarrow> None)"

definition asString :: "json \<Rightarrow> string option" where
  "asString j =
     (case j of JNull \<Rightarrow> Some '''' | JStr s \<Rightarrow> Some s | JBool b \<Rightarrow> Some (if b then ''true'' else ''false'') | _ \<Rightarrow> None)"

definition int_member :: "json \<Rightarrow> string \<Rightarrow> int option" where
  "int_member j k = Option.bind (jget j k) asInt"

definition str_member :: "json \<Rightarrow> string \<Rightarrow> string option" where
  "str_member j k = Option.bind (jget j k) asString"

section \<open>Text\<close>

definition quote :: char where "quote = CHR 0x22"

definition quoted :: "string \<Rightarrow> string" where
  "quoted s = quote # s @ [quote]"

fun join_comma :: "string list \<Rightarrow> string" where
  "join_comma [] = ''''"
| "join_comma [x] = x"
| "join_comma (x # y # ys) = x @ '','' @ join_comma (y # ys)"

fun json_text :: "json \<Rightarrow> string" where
  "json_text JNull = ''null''"
| "json_text (JBool b) = (if b then ''true'' else ''false'')"
| "json_text (JInt i) = show_int i"
| "json_text (JReal i) = show_int i"
| "json_text (JStr s) = quoted s"
| "json_text (JArr js) = ''['' @ join_comma (map json_text js) @ '']''"
| "json_text (JObj ms) = ''{'' @ join_comma (map (\<lambda>(k, v). quoted k @ '':'' @ json_text v) ms) @ ''}''"

section \<open>A reader for the text the client writes\<close>

definition read_str :: "string \<Rightarrow> (string \<times> string) option" where
  \<comment> \<open>after the opening quote\<close>
  "read_str s =
     (let a = takeWhile (\<lambda>c. c \<noteq> quote) s; r = dropWhile (\<lambda>c. c \<noteq> quote) s
      in if r = [] then None else Some (a, tl r))"

definition read_num :: "string \<Rightarrow> (int \<times> string) option" where
  "read_num s =
     (case s of [] \<Rightarrow> None
      | c # r \<Rightarrow>
          if c = CHR ''-'' then (case r of [] \<Rightarrow> None | d # _ \<Rightarrow>
            if is_digit d then (let (n, rest) = read_digits r 0 in Some (- int n, rest)) else None)
          else if is_digit c then (let (n, rest) = read_digits s 0 in Some (int n, rest)) else None)"

fun read_json :: "nat \<Rightarrow> string \<Rightarrow> (json \<times> string) option"
and read_members :: "nat \<Rightarrow> string \<Rightarrow> ((string \<times> json) list \<times> string) option"
and read_elements :: "nat \<Rightarrow> string \<Rightarrow> (json list \<times> string) option" where
  "read_json 0 s = None"
| "read_json (Suc n) s =
     (case s of [] \<Rightarrow> None
      | c # r \<Rightarrow>
          if c = quote then map_option (\<lambda>(a, rest). (JStr a, rest)) (read_str r)
          else if c = CHR ''{'' then
            (if r \<noteq> [] \<and> hd r = CHR ''}'' then Some (JObj [], tl r)
             else map_option (\<lambda>(ms, rest). (JObj ms, rest)) (read_members n r))
          else if c = CHR ''['' then
            (if r \<noteq> [] \<and> hd r = CHR '']'' then Some (JArr [], tl r)
             else map_option (\<lambda>(js, rest). (JArr js, rest)) (read_elements n r))
          else if take 4 s = ''true'' then Some (JBool True, drop 4 s)
          else if take 5 s = ''false'' then Some (JBool False, drop 5 s)
          else map_option (\<lambda>(i, rest). (JInt i, rest)) (read_num s))"
| "read_members 0 s = None"
| "read_members (Suc n) s =
     (if s = [] \<or> hd s \<noteq> quote then None
      else case read_str (tl s) of None \<Rightarrow> None
      | Some (k, r) \<Rightarrow>
          if r = [] \<or> hd r \<noteq> CHR '':'' then None
          else case read_json n (tl r) of None \<Rightarrow> None
          | Some (v, r) \<Rightarrow>
              (case r of [] \<Rightarrow> None
               | c # r \<Rightarrow>
                   if c = CHR ''}'' then Some ([(k, v)], r)
                   else if c = CHR '','' then map_option (\<lambda>(ms, rest). ((k, v) # ms, rest)) (read_members n r)
                   else None))"
| "read_elements 0 s = None"
| "read_elements (Suc n) s =
     (case read_json n s of None \<Rightarrow> None
      | Some (v, r) \<Rightarrow>
          (case r of [] \<Rightarrow> None
           | c # r \<Rightarrow>
               if c = CHR '']'' then Some ([v], r)
               else if c = CHR '','' then map_option (\<lambda>(js, rest). (v # js, rest)) (read_elements n r)
               else None))"

text \<open>Text the client can write without escaping.\<close>

definition clean_text :: "string \<Rightarrow> bool" where
  "clean_text s \<longleftrightarrow> list_all (\<lambda>c. c \<noteq> quote \<and> c \<noteq> CHR 0x5C \<and> c \<noteq> CHR 0x00) s"

fun clean_json :: "json \<Rightarrow> bool" where
  "clean_json (JInt i) = True"
| "clean_json (JStr s) = clean_text s"
| "clean_json (JObj ms) = (distinct (map fst ms) \<and> list_all (\<lambda>(k, v). clean_text k \<and> clean_json v) ms)"
| "clean_json (JArr js) = list_all clean_json js"
| "clean_json (JBool b) = True"
| "clean_json _ = False"

text \<open>What the library makes of a document.\<close>

fun library_json :: "json \<Rightarrow> json" where
  "library_json (JInt i) = (if fits_int i then JInt i else JReal i)"
| "library_json (JArr js) = JArr (map library_json js)"
| "library_json (JObj ms) = JObj (map (\<lambda>(k, v). (k, library_json v)) ms)"
| "library_json j = j"

definition is_obj :: "json \<Rightarrow> bool" where "is_obj j \<longleftrightarrow> (case j of JObj _ \<Rightarrow> True | _ \<Rightarrow> False)"

definition parser_ok :: "(string \<Rightarrow> json option) \<Rightarrow> bool" where
  "parser_ok parse \<longleftrightarrow> (\<forall>j rest. is_obj j \<and> clean_json j \<longrightarrow> parse (json_text j @ rest) = Some (library_json j))"

lemma read_str_quoted: "clean_text s \<Longrightarrow> read_str (s @ quote # rest) = Some (s, rest)"
proof -
  assume "clean_text s"
  then have "\<forall>c \<in> set s. c \<noteq> quote" by (auto simp: clean_text_def list_all_iff)
  then have "takeWhile (\<lambda>c. c \<noteq> quote) (s @ quote # rest) = s" "dropWhile (\<lambda>c. c \<noteq> quote) (s @ quote # rest) = quote # rest"
    by (auto simp: takeWhile_append dropWhile_append)
  then show ?thesis by (simp add: read_str_def)
qed

lemma read_num_show:
  assumes "rest = [] \<or> \<not> is_digit (hd rest)"
  shows "read_num (show_int i @ rest) = Some (i, rest)"
proof -
  have stop: "read_digits rest a = (a, rest)" for a using assms by (cases rest) auto
  obtain c cs where c: "show_nat (nat \<bar>i\<bar>) = c # cs" "is_digit c" by (rule show_nat_hd)
  have rd: "read_digits (c # cs @ rest) 0 = (nat \<bar>i\<bar>, rest)"
    using read_digits_show_nat [of "nat \<bar>i\<bar>" rest 0] c(1) stop by simp
  then show ?thesis
    using c is_digit_not [OF c(2)] by (cases "i < 0") (auto simp: show_int_def read_num_def)
qed

lemma show_int_head: "\<exists>c cs. show_int i = c # cs \<and> c \<notin> {quote, CHR ''{'', CHR ''['', CHR '']'', CHR ''t'', CHR ''f''}"
proof -
  obtain c cs where c: "show_nat (nat \<bar>i\<bar>) = c # cs" "is_digit c" by (rule show_nat_hd)
  then have "c \<notin> {quote, CHR ''{'', CHR ''['', CHR '']'', CHR ''t'', CHR ''f''}" by (auto simp: is_digit_def quote_def)
  with c show ?thesis by (cases "i < 0") (auto simp: show_int_def quote_def)
qed

fun jsize :: "json \<Rightarrow> nat" where
  "jsize (JObj ms) = Suc (sum_list (map (\<lambda>(k, v). Suc (jsize v)) ms))"
| "jsize (JArr js) = Suc (sum_list (map (\<lambda>v. Suc (jsize v)) js))"
| "jsize _ = 1"

lemma jsize_pos: "0 < jsize j"
  by (cases j) auto

lemma json_text_head: "clean_json j \<Longrightarrow> \<exists>c cs. json_text j = c # cs \<and> c \<noteq> CHR '']''"
  using show_int_head by (cases j) (fastforce simp: quoted_def quote_def)+

definition member_text :: "string \<times> json \<Rightarrow> string" where
  "member_text = (\<lambda>(k, v). quoted k @ '':'' @ json_text v)"

lemma join_comma_Cons: "join_comma (x # xs) = x @ (if xs = [] then '''' else '','' @ join_comma xs)"
  by (cases xs) auto

lemma sizes_pos: "xs \<noteq> [] \<Longrightarrow> \<forall>x. 0 < f x \<Longrightarrow> \<not> sum_list (map f xs) \<le> (0::nat)"
  by (cases xs) auto

text \<open>What the reader makes of a document, of the members of an object and of the elements of an array.\<close>

definition reads_json :: "nat \<Rightarrow> bool" where
  "reads_json n \<longleftrightarrow> (\<forall>j rest. clean_json j \<longrightarrow> jsize j \<le> n \<longrightarrow> rest = [] \<or> \<not> is_digit (hd rest) \<or> is_obj j \<longrightarrow>
      read_json n (json_text j @ rest) = Some (j, rest))"

definition reads_members :: "nat \<Rightarrow> bool" where
  "reads_members n \<longleftrightarrow> (\<forall>ms rest. list_all (\<lambda>(k, v). clean_text k \<and> clean_json v) ms \<longrightarrow> ms \<noteq> [] \<longrightarrow>
      sum_list (map (\<lambda>(k, v). Suc (jsize v)) ms) \<le> n \<longrightarrow>
      read_members n (join_comma (map member_text ms) @ ''}'' @ rest) = Some (ms, rest))"

definition reads_elements :: "nat \<Rightarrow> bool" where
  "reads_elements n \<longleftrightarrow> (\<forall>js rest. list_all clean_json js \<longrightarrow> js \<noteq> [] \<longrightarrow> sum_list (map (\<lambda>v. Suc (jsize v)) js) \<le> n \<longrightarrow>
      read_elements n (join_comma (map json_text js) @ '']'' @ rest) = Some (js, rest))"

lemma reads_json_Suc:
  assumes M: "reads_members n" and E: "reads_elements n"
  shows "reads_json (Suc n)"
  unfolding reads_json_def
proof (intro allI impI)
  fix j rest
  assume c: "clean_json j" and s: "jsize j \<le> Suc n" and r: "rest = [] \<or> \<not> is_digit (hd rest) \<or> is_obj j"
  show "read_json (Suc n) (json_text j @ rest) = Some (j, rest)"
  proof (cases j)
    case (JInt i)
    with r have "rest = [] \<or> \<not> is_digit (hd rest)" by (simp add: is_obj_def)
    moreover obtain x xs where "show_int i = x # xs" "x \<notin> {quote, CHR ''{'', CHR ''['', CHR '']'', CHR ''t'', CHR ''f''}"
      using show_int_head by blast
    ultimately show ?thesis using JInt read_num_show [of rest i] by simp
  next
    case (JStr a)
    with c read_str_quoted [of a rest] show ?thesis by (simp add: quoted_def)
  next
    case (JBool b)
    then show ?thesis by (cases b) (simp_all add: quote_def)
  next
    case (JArr js)
    show ?thesis
    proof (cases js)
      case (Cons p ps)
      obtain x xs where h: "json_text p = x # xs" "x \<noteq> CHR '']''" using json_text_head c JArr Cons by force
      have "read_elements n (join_comma (map json_text js) @ '']'' @ rest) = Some (js, rest)"
        using E [unfolded reads_elements_def, rule_format, of js rest] c s JArr Cons by simp
      with h JArr Cons show ?thesis by (simp add: join_comma_Cons quote_def)
    qed (simp add: JArr quote_def)
  next
    case (JObj ms)
    show ?thesis
    proof (cases ms)
      case (Cons p ps)
      have t: "json_text j = ''{'' @ join_comma (map member_text ms) @ ''}''" by (simp add: JObj member_text_def)
      have "read_members n (join_comma (map member_text ms) @ ''}'' @ rest) = Some (ms, rest)"
        using M [unfolded reads_members_def, rule_format, of ms rest] c s JObj Cons by simp
      moreover have "\<exists>x. join_comma (map member_text ms) = quote # x"
        using Cons by (auto simp: join_comma_Cons member_text_def quoted_def split_beta)
      ultimately show ?thesis unfolding t using JObj by (auto simp: quote_def)
    qed (simp add: JObj quote_def)
  qed (use c in auto)
qed

lemma reads_members_Suc:
  assumes J: "reads_json n" and M: "reads_members n"
  shows "reads_members (Suc n)"
  unfolding reads_members_def
proof (intro allI impI)
  fix ms :: "(string \<times> json) list" and rest
  assume c: "list_all (\<lambda>(k, v). clean_text k \<and> clean_json v) ms" and ne: "ms \<noteq> []"
    and s: "sum_list (map (\<lambda>(k, v). Suc (jsize v)) ms) \<le> Suc n"
  obtain k v ps where ms: "ms = (k, v) # ps" using ne by (cases ms) auto
  let ?tail = "if ps = [] then ''}'' @ rest else '','' @ join_comma (map member_text ps) @ ''}'' @ rest"
  have t: "join_comma (map member_text ms) @ ''}'' @ rest = quote # k @ quote # CHR '':'' # json_text v @ ?tail"
    using ms by (simp add: join_comma_Cons member_text_def quoted_def)
  have nd: "\<not> is_digit (hd ?tail)" by (simp add: is_digit_def)
  have v: "read_json n (json_text v @ ?tail) = Some (v, ?tail)"
    using J c s ms nd unfolding reads_json_def by simp
  have k: "read_str (k @ quote # CHR '':'' # json_text v @ ?tail) = Some (k, CHR '':'' # json_text v @ ?tail)"
    using c ms read_str_quoted by simp
  have m: "read_members n (join_comma (map member_text ps) @ ''}'' @ rest) = Some (ps, rest)" if "ps \<noteq> []"
    using M that c s ms unfolding reads_members_def by simp
  show "read_members (Suc n) (join_comma (map member_text ms) @ ''}'' @ rest) = Some (ms, rest)"
    unfolding t using k v m ms by (cases "ps = []") auto
qed

lemma reads_elements_Suc:
  assumes J: "reads_json n" and E: "reads_elements n"
  shows "reads_elements (Suc n)"
  unfolding reads_elements_def
proof (intro allI impI)
  fix js rest
  assume c: "list_all clean_json js" and ne: "js \<noteq> []" and s: "sum_list (map (\<lambda>v. Suc (jsize v)) js) \<le> Suc n"
  obtain v ps where js: "js = v # ps" using ne by (cases js) auto
  let ?tail = "if ps = [] then '']'' @ rest else '','' @ join_comma (map json_text ps) @ '']'' @ rest"
  have t: "join_comma (map json_text js) @ '']'' @ rest = json_text v @ ?tail"
    using js by (simp add: join_comma_Cons)
  have nd: "\<not> is_digit (hd ?tail)" by (simp add: is_digit_def)
  have v: "read_json n (json_text v @ ?tail) = Some (v, ?tail)"
    using J c s js nd unfolding reads_json_def by simp
  have m: "read_elements n (join_comma (map json_text ps) @ '']'' @ rest) = Some (ps, rest)" if "ps \<noteq> []"
    using E that c s js unfolding reads_elements_def by simp
  show "read_elements (Suc n) (join_comma (map json_text js) @ '']'' @ rest) = Some (js, rest)"
    unfolding t using v m js by (cases "ps = []") auto
qed

lemma read_text: "reads_json n \<and> reads_members n \<and> reads_elements n"
proof (induction n)
  case 0
  have "reads_json 0" unfolding reads_json_def using jsize_pos [unfolded not_le [symmetric]] by blast
  moreover have "reads_members 0" unfolding reads_members_def using sizes_pos [of _ "\<lambda>(k, v). Suc (jsize v)"] by fastforce
  moreover have "reads_elements 0" unfolding reads_elements_def using sizes_pos [of _ "\<lambda>v. Suc (jsize v)"] by blast
  ultimately show ?case by blast
next
  case (Suc n)
  then show ?case using reads_json_Suc reads_members_Suc reads_elements_Suc by blast
qed

text \<open>The client's text is read back, so a parser as the client needs it exists.\<close>

definition ref_parse :: "string \<Rightarrow> json option" where
  "ref_parse s = map_option (\<lambda>(j, _). library_json j) (read_json (Suc (length s)) s)"

lemma length_join_comma: "sum_list (map length xs) \<le> length (join_comma xs)"
  by (induction xs rule: join_comma.induct) auto

lemma length_join_comma_Suc: "sum_list (map length xs) + length xs \<le> Suc (length (join_comma xs))"
  by (induction xs rule: join_comma.induct) auto

lemma jsize_text: "clean_json j \<Longrightarrow> jsize j \<le> length (json_text j)"
proof (induction j)
  case (JInt i)
  then show ?case using show_int_head [of i] by (auto simp: Suc_le_eq)
next
  case (JArr js)
  have "sum_list (map (\<lambda>v. Suc (jsize v)) js) \<le> sum_list (map length (map json_text js)) + length js"
    using JArr by (induction js) fastforce+
  also have "\<dots> \<le> Suc (length (join_comma (map json_text js)))"
    using length_join_comma_Suc [of "map json_text js"] by simp
  finally show ?case by simp
next
  case (JObj ms)
  have "sum_list (map (\<lambda>(k, v). Suc (jsize v)) ms) \<le> sum_list (map length (map (\<lambda>(k, v). quoted k @ '':'' @ json_text v) ms))"
    using JObj by (induction ms) (fastforce simp: quoted_def)+
  then show ?case using length_join_comma [of "map (\<lambda>(k, v). quoted k @ '':'' @ json_text v) ms"] by simp
qed (auto simp: quoted_def)

lemma ref_parse_ok: "parser_ok ref_parse"
  unfolding parser_ok_def
proof (intro allI impI)
  fix j rest assume j: "is_obj j \<and> clean_json j"
  then have "jsize j \<le> Suc (length (json_text j @ rest))" using jsize_text [of j] by simp
  then have "read_json (Suc (length (json_text j @ rest))) (json_text j @ rest) = Some (j, rest)"
    using read_text j unfolding reads_json_def by blast
  then show "ref_parse (json_text j @ rest) = Some (library_json j)" by (simp add: ref_parse_def)
qed

lemma no_nul_join_comma: "list_all no_nul xs \<Longrightarrow> no_nul (join_comma xs)"
  by (induction xs rule: join_comma.induct) (auto simp: no_nul_def)

lemma json_text_no_nul: "clean_json j \<Longrightarrow> no_nul (json_text j)"
proof (induction j)
  case (JInt i)
  then show ?case by (simp add: no_nul_show_int)
next
  case (JStr s)
  then show ?case by (auto simp: no_nul_def quoted_def quote_def clean_text_def list_all_iff)
next
  case (JArr js)
  then have "no_nul (join_comma (map json_text js))" by (intro no_nul_join_comma) (auto simp: list_all_iff)
  then show ?case by (simp add: no_nul_def)
next
  case (JObj ms)
  have "list_all no_nul (map (\<lambda>(k, v). quoted k @ '':'' @ json_text v) ms)"
    using JObj by (induction ms) (fastforce simp: no_nul_def quoted_def quote_def clean_text_def list_all_iff)+
  from no_nul_join_comma [OF this] show ?case by (simp add: no_nul_def)
qed (auto simp: no_nul_def)

end
