(* ===== verification/Custom_Header.thy ===== *)
theory Custom_Header
  imports Json_Text
begin

text \<open>
  \<open>CommandCustomHeader\<close> and its subclasses (\<open>src/src/protocol/CommandCustomHeader.cpp\<close>, \<open>.h\<close>): the header of each
  request and response. One constructor per class, its arguments the members in the order \<open>Encode\<close> writes
  them; one definition per \<open>Encode\<close>. The members are written without escaping, and so are they here.
  \<open>header_Decode\<close> is the dispatch of \<open>CommandCustomHeader::Decode\<close>; the JSON parser is an argument. The inner
  \<open>None\<close> of a decoder is the null pointer, the outer one an exception or a failed assertion of the JSON library.
\<close>

section \<open>Headers\<close>

datatype CommandCustomHeader =
    GetRouteInfoRequestHeader string
  | SubscriptionGroupConfigHeader string bool bool bool int int int int
  | CreateTopicRequestHeader string string int int int string
  | SendMessageRequestHeader string string string int int int int int string int
  | SendMessageResponseHeader string int int
  | PullMessageRequestHeader string string int int int int int int string int
  | PullMessageResponseHeader int int int int
  | GetConsumerListByGroupRequestHeader string
  | GetConsumerListByGroupResponseHeader
  | ConsumerSendMsgBackRequestHeader int string int
  | UpdateConsumerOffsetRequestHeader string string int int
  | QueryConsumerOffsetRequestHeader string string int
  | SearchOffsetRequestHeader string int int
  | GetMinOffsetRequestHeader string int
  | GetMaxOffsetRequestHeader string int
  | GetEarliestMsgStoretimeRequestHeader string int
  | UnregisterClientRequestHeader string string string
  | ViewMessageRequestHeader int
  | QueryConsumerOffsetResponseHeader int
  | SearchOffsetResponseHeader int
  | GetEarliestMsgStoretimeResponseHeader int
  | NotifyConsumerIdsChangedRequestHeader string

definition GetRouteInfoRequestHeader_Encode :: "string \<Rightarrow> json" where
  "GetRouteInfoRequestHeader_Encode topic =
     JObj [(''topic'', JStr topic)]"

definition SubscriptionGroupConfigHeader_Encode :: "string \<Rightarrow> bool \<Rightarrow> bool \<Rightarrow> bool \<Rightarrow> int \<Rightarrow> int \<Rightarrow> int \<Rightarrow> int \<Rightarrow> json" where
  "SubscriptionGroupConfigHeader_Encode groupName consumeEnable consumeFromMinEnable consumeBroadcastEnable retryQueueNums retryMaxTimes brokerId whichBrokerWhenConsumeSlowly =
     JObj [(''groupName'', JStr groupName),
          (''consumeEnable'', JStr (show_int (of_bool consumeEnable))),
          (''consumeFromMinEnable'', JInt (of_bool consumeFromMinEnable)),
          (''consumeBroadcastEnable'', JInt (of_bool consumeBroadcastEnable)),
          (''retryQueueNums'', JInt retryQueueNums),
          (''retryMaxTimes'', JInt retryMaxTimes),
          (''brokerId'', JInt brokerId),
          (''whichBrokerWhenConsumeSlowly'', JStr (show_int whichBrokerWhenConsumeSlowly))]"

definition CreateTopicRequestHeader_Encode :: "string \<Rightarrow> string \<Rightarrow> int \<Rightarrow> int \<Rightarrow> int \<Rightarrow> string \<Rightarrow> json" where
  "CreateTopicRequestHeader_Encode topic defaultTopic readQueueNums writeQueueNums perm topicFilterType =
     JObj [(''topic'', JStr topic),
          (''defaultTopic'', JStr defaultTopic),
          (''readQueueNums'', JInt readQueueNums),
          (''writeQueueNums'', JInt writeQueueNums),
          (''perm'', JInt perm),
          (''topicFilterType'', JStr topicFilterType)]"

definition SendMessageRequestHeader_Encode :: "string \<Rightarrow> string \<Rightarrow> string \<Rightarrow> int \<Rightarrow> int \<Rightarrow> int \<Rightarrow> int \<Rightarrow> int \<Rightarrow> string \<Rightarrow> int \<Rightarrow> json" where
  "SendMessageRequestHeader_Encode producerGroup topic defaultTopic defaultTopicQueueNums queueId sysFlag bornTimestamp flag properties reconsumeTimes =
     JObj [(''producerGroup'', JStr producerGroup),
          (''topic'', JStr topic),
          (''defaultTopic'', JStr defaultTopic),
          (''defaultTopicQueueNums'', JInt defaultTopicQueueNums),
          (''queueId'', JInt queueId),
          (''sysFlag'', JInt sysFlag),
          (''bornTimestamp'', JInt bornTimestamp),
          (''flag'', JInt flag),
          (''properties'', JStr properties),
          (''reconsumeTimes'', JInt reconsumeTimes)]"

definition SendMessageResponseHeader_Encode :: "string \<Rightarrow> int \<Rightarrow> int \<Rightarrow> json" where
  "SendMessageResponseHeader_Encode msgId queueId queueOffset =
     JObj [(''msgId'', JStr msgId),
          (''queueId'', JInt queueId),
          (''queueOffset'', JInt queueOffset)]"

definition PullMessageRequestHeader_Encode :: "string \<Rightarrow> string \<Rightarrow> int \<Rightarrow> int \<Rightarrow> int \<Rightarrow> int \<Rightarrow> int \<Rightarrow> int \<Rightarrow> string \<Rightarrow> int \<Rightarrow> json" where
  "PullMessageRequestHeader_Encode consumerGroup topic queueId queueOffset maxMsgNums sysFlag commitOffset suspendTimeoutMillis subscription subVersion =
     JObj [(''consumerGroup'', JStr consumerGroup),
          (''topic'', JStr topic),
          (''queueId'', JInt queueId),
          (''queueOffset'', JInt queueOffset),
          (''maxMsgNums'', JInt maxMsgNums),
          (''sysFlag'', JInt sysFlag),
          (''commitOffset'', JInt commitOffset),
          (''suspendTimeoutMillis'', JInt suspendTimeoutMillis),
          (''subscription'', JStr subscription),
          (''subVersion'', JInt subVersion)]"

definition PullMessageResponseHeader_Encode :: "int \<Rightarrow> int \<Rightarrow> int \<Rightarrow> int \<Rightarrow> json" where
  "PullMessageResponseHeader_Encode suggestWhichBrokerId nextBeginOffset minOffset maxOffset =
     JObj [(''suggestWhichBrokerId'', JInt suggestWhichBrokerId),
          (''nextBeginOffset'', JInt nextBeginOffset),
          (''minOffset'', JInt minOffset),
          (''maxOffset'', JInt maxOffset)]"

definition GetConsumerListByGroupRequestHeader_Encode :: "string \<Rightarrow> json" where
  "GetConsumerListByGroupRequestHeader_Encode consumerGroup =
     JObj [(''consumerGroup'', JStr consumerGroup)]"

definition GetConsumerListByGroupResponseHeader_Encode :: "json" where
  "GetConsumerListByGroupResponseHeader_Encode =
     JObj []"

definition ConsumerSendMsgBackRequestHeader_Encode :: "int \<Rightarrow> string \<Rightarrow> int \<Rightarrow> json" where
  "ConsumerSendMsgBackRequestHeader_Encode offset grp delayLevel =
     JObj [(''offset'', JStr (show_int offset)),
          (''group'', JStr grp),
          (''delayLevel'', JStr (show_int delayLevel))]"

definition UpdateConsumerOffsetRequestHeader_Encode :: "string \<Rightarrow> string \<Rightarrow> int \<Rightarrow> int \<Rightarrow> json" where
  "UpdateConsumerOffsetRequestHeader_Encode consumerGroup topic queueId commitOffset =
     JObj [(''consumerGroup'', JStr consumerGroup),
          (''topic'', JStr topic),
          (''queueId'', JStr (show_int queueId)),
          (''commitOffset'', JStr (show_int commitOffset))]"

definition QueryConsumerOffsetRequestHeader_Encode :: "string \<Rightarrow> string \<Rightarrow> int \<Rightarrow> json" where
  "QueryConsumerOffsetRequestHeader_Encode consumerGroup topic queueId =
     JObj [(''consumerGroup'', JStr consumerGroup),
          (''topic'', JStr topic),
          (''queueId'', JStr (show_int queueId))]"

definition SearchOffsetRequestHeader_Encode :: "string \<Rightarrow> int \<Rightarrow> int \<Rightarrow> json" where
  "SearchOffsetRequestHeader_Encode topic queueId timestamp =
     JObj [(''topic'', JStr topic),
          (''queueId'', JStr (show_int queueId)),
          (''timestamp'', JStr (show_int timestamp))]"

definition GetMinOffsetRequestHeader_Encode :: "string \<Rightarrow> int \<Rightarrow> json" where
  "GetMinOffsetRequestHeader_Encode topic queueId =
     JObj [(''topic'', JStr topic),
          (''queueId'', JStr (show_int queueId))]"

definition GetMaxOffsetRequestHeader_Encode :: "string \<Rightarrow> int \<Rightarrow> json" where
  "GetMaxOffsetRequestHeader_Encode topic queueId =
     JObj [(''topic'', JStr topic),
          (''queueId'', JStr (show_int queueId))]"

definition GetEarliestMsgStoretimeRequestHeader_Encode :: "string \<Rightarrow> int \<Rightarrow> json" where
  "GetEarliestMsgStoretimeRequestHeader_Encode topic queueId =
     JObj [(''topic'', JStr topic),
          (''queueId'', JStr (show_int queueId))]"

definition UnregisterClientRequestHeader_Encode :: "string \<Rightarrow> string \<Rightarrow> string \<Rightarrow> json" where
  "UnregisterClientRequestHeader_Encode clientID producerGroup consumerGroup =
     JObj [(''clientID'', JStr clientID),
          (''producerGroup'', JStr producerGroup),
          (''consumerGroup'', JStr consumerGroup)]"

definition ViewMessageRequestHeader_Encode :: "int \<Rightarrow> json" where
  "ViewMessageRequestHeader_Encode offset =
     JObj [(''offset'', JStr (show_int offset))]"

text \<open>What \<open>Encode\<close> writes; \<open>None\<close> for the headers whose \<open>Encode\<close> leaves its argument alone.\<close>

fun header_json :: "CommandCustomHeader \<Rightarrow> json option" where
  "header_json (GetRouteInfoRequestHeader topic) = Some (GetRouteInfoRequestHeader_Encode topic)"
| "header_json (SubscriptionGroupConfigHeader groupName consumeEnable consumeFromMinEnable consumeBroadcastEnable retryQueueNums retryMaxTimes brokerId whichBrokerWhenConsumeSlowly) = Some (SubscriptionGroupConfigHeader_Encode groupName consumeEnable consumeFromMinEnable consumeBroadcastEnable retryQueueNums retryMaxTimes brokerId whichBrokerWhenConsumeSlowly)"
| "header_json (CreateTopicRequestHeader topic defaultTopic readQueueNums writeQueueNums perm topicFilterType) = Some (CreateTopicRequestHeader_Encode topic defaultTopic readQueueNums writeQueueNums perm topicFilterType)"
| "header_json (SendMessageRequestHeader producerGroup topic defaultTopic defaultTopicQueueNums queueId sysFlag bornTimestamp flag properties reconsumeTimes) = Some (SendMessageRequestHeader_Encode producerGroup topic defaultTopic defaultTopicQueueNums queueId sysFlag bornTimestamp flag properties reconsumeTimes)"
| "header_json (SendMessageResponseHeader msgId queueId queueOffset) = Some (SendMessageResponseHeader_Encode msgId queueId queueOffset)"
| "header_json (PullMessageRequestHeader consumerGroup topic queueId queueOffset maxMsgNums sysFlag commitOffset suspendTimeoutMillis subscription subVersion) = Some (PullMessageRequestHeader_Encode consumerGroup topic queueId queueOffset maxMsgNums sysFlag commitOffset suspendTimeoutMillis subscription subVersion)"
| "header_json (PullMessageResponseHeader suggestWhichBrokerId nextBeginOffset minOffset maxOffset) = Some (PullMessageResponseHeader_Encode suggestWhichBrokerId nextBeginOffset minOffset maxOffset)"
| "header_json (GetConsumerListByGroupRequestHeader consumerGroup) = Some (GetConsumerListByGroupRequestHeader_Encode consumerGroup)"
| "header_json (GetConsumerListByGroupResponseHeader) = Some (GetConsumerListByGroupResponseHeader_Encode)"
| "header_json (ConsumerSendMsgBackRequestHeader offset grp delayLevel) = Some (ConsumerSendMsgBackRequestHeader_Encode offset grp delayLevel)"
| "header_json (UpdateConsumerOffsetRequestHeader consumerGroup topic queueId commitOffset) = Some (UpdateConsumerOffsetRequestHeader_Encode consumerGroup topic queueId commitOffset)"
| "header_json (QueryConsumerOffsetRequestHeader consumerGroup topic queueId) = Some (QueryConsumerOffsetRequestHeader_Encode consumerGroup topic queueId)"
| "header_json (SearchOffsetRequestHeader topic queueId timestamp) = Some (SearchOffsetRequestHeader_Encode topic queueId timestamp)"
| "header_json (GetMinOffsetRequestHeader topic queueId) = Some (GetMinOffsetRequestHeader_Encode topic queueId)"
| "header_json (GetMaxOffsetRequestHeader topic queueId) = Some (GetMaxOffsetRequestHeader_Encode topic queueId)"
| "header_json (GetEarliestMsgStoretimeRequestHeader topic queueId) = Some (GetEarliestMsgStoretimeRequestHeader_Encode topic queueId)"
| "header_json (UnregisterClientRequestHeader clientID producerGroup consumerGroup) = Some (UnregisterClientRequestHeader_Encode clientID producerGroup consumerGroup)"
| "header_json (ViewMessageRequestHeader offset) = Some (ViewMessageRequestHeader_Encode offset)"
| "header_json (QueryConsumerOffsetResponseHeader x) = None"
| "header_json (SearchOffsetResponseHeader x) = None"
| "header_json (GetEarliestMsgStoretimeResponseHeader x) = None"
| "header_json (NotifyConsumerIdsChangedRequestHeader x) = None"

lemmas header_Encode_defs =
  GetRouteInfoRequestHeader_Encode_def SubscriptionGroupConfigHeader_Encode_def
  CreateTopicRequestHeader_Encode_def SendMessageRequestHeader_Encode_def SendMessageResponseHeader_Encode_def
  PullMessageRequestHeader_Encode_def PullMessageResponseHeader_Encode_def
  GetConsumerListByGroupRequestHeader_Encode_def GetConsumerListByGroupResponseHeader_Encode_def
  ConsumerSendMsgBackRequestHeader_Encode_def UpdateConsumerOffsetRequestHeader_Encode_def
  QueryConsumerOffsetRequestHeader_Encode_def SearchOffsetRequestHeader_Encode_def
  GetMinOffsetRequestHeader_Encode_def GetMaxOffsetRequestHeader_Encode_def
  GetEarliestMsgStoretimeRequestHeader_Encode_def UnregisterClientRequestHeader_Encode_def
  ViewMessageRequestHeader_Encode_def

definition header_Encode :: "CommandCustomHeader \<Rightarrow> string \<Rightarrow> string" where
  "header_Encode h outData = (case header_json h of None \<Rightarrow> outData | Some j \<Rightarrow> json_text j)"

section \<open>Decoding\<close>

text \<open>\<open>atoll\<close> saturates.\<close>

definition str2ll :: "string \<Rightarrow> int" where
  "str2ll s =
     (case dropWhile is_space (c_str s) of [] \<Rightarrow> 0
      | c # cs \<Rightarrow>
          let v = (if c = CHR ''-'' then - int (fst (read_digits cs 0))
                   else if c = CHR ''+'' then int (fst (read_digits cs 0))
                   else int (fst (read_digits (c # cs) 0)))
          in max (- (2 ^ 63)) (min (2 ^ 63 - 1) v))"

type_synonym json_parser = "string \<Rightarrow> json option"

text \<open>\<open>reader.parse(pData + 8, object)\<close> on the packet's bytes up to the first NUL, then \<open>object["extFields"]\<close>.\<close>

definition ext_fields :: "json_parser \<Rightarrow> string \<Rightarrow> (json option) option" where
  "ext_fields parse pData =
     (case parse (c_str (drop 8 pData)) of None \<Rightarrow> Some None
      | Some object \<Rightarrow> map_option Some (jget object ''extFields''))"

definition with_ext :: "json_parser \<Rightarrow> string \<Rightarrow> (json \<Rightarrow> CommandCustomHeader option) \<Rightarrow> CommandCustomHeader option option" where
  "with_ext parse pData f =
     (case ext_fields parse pData of None \<Rightarrow> None
      | Some None \<Rightarrow> Some None
      | Some (Some ext) \<Rightarrow> map_option Some (f ext))"

definition ll_member :: "json \<Rightarrow> string \<Rightarrow> int option" where
  "ll_member ext k = map_option str2ll (str_member ext k)"

definition SendMessageResponseHeader_Decode :: "json_parser \<Rightarrow> string \<Rightarrow> CommandCustomHeader option option" where
  "SendMessageResponseHeader_Decode parse pData = with_ext parse pData (\<lambda>ext.
     case (str_member ext ''msgId'', str_member ext ''queueId'', ll_member ext ''queueOffset'') of
       (Some msgId, Some queueId, Some queueOffset) \<Rightarrow> Some (SendMessageResponseHeader msgId (atoi queueId) queueOffset)
     | _ \<Rightarrow> None)"

definition PullMessageResponseHeader_Decode :: "json_parser \<Rightarrow> string \<Rightarrow> CommandCustomHeader option option" where
  "PullMessageResponseHeader_Decode parse pData = with_ext parse pData (\<lambda>ext.
     case (ll_member ext ''suggestWhichBrokerId'', ll_member ext ''nextBeginOffset'', ll_member ext ''minOffset'', ll_member ext ''maxOffset'') of
       (Some suggestWhichBrokerId, Some nextBeginOffset, Some minOffset, Some maxOffset) \<Rightarrow>
         Some (PullMessageResponseHeader suggestWhichBrokerId nextBeginOffset minOffset maxOffset)
     | _ \<Rightarrow> None)"

definition QueryConsumerOffsetResponseHeader_Decode :: "json_parser \<Rightarrow> string \<Rightarrow> CommandCustomHeader option option" where
  "QueryConsumerOffsetResponseHeader_Decode parse pData = with_ext parse pData (\<lambda>ext.
     map_option QueryConsumerOffsetResponseHeader (ll_member ext ''offset''))"

definition SearchOffsetResponseHeader_Decode :: "json_parser \<Rightarrow> string \<Rightarrow> CommandCustomHeader option option" where
  "SearchOffsetResponseHeader_Decode parse pData = with_ext parse pData (\<lambda>ext.
     map_option SearchOffsetResponseHeader (ll_member ext ''offset''))"

definition GetEarliestMsgStoretimeResponseHeader_Decode :: "json_parser \<Rightarrow> string \<Rightarrow> CommandCustomHeader option option" where
  "GetEarliestMsgStoretimeResponseHeader_Decode parse pData = with_ext parse pData (\<lambda>ext.
     map_option GetEarliestMsgStoretimeResponseHeader (ll_member ext ''timestamp''))"

definition NotifyConsumerIdsChangedRequestHeader_Decode :: "json_parser \<Rightarrow> string \<Rightarrow> CommandCustomHeader option option" where
  "NotifyConsumerIdsChangedRequestHeader_Decode parse pData = with_ext parse pData (\<lambda>ext.
     map_option (\<lambda>s. NotifyConsumerIdsChangedRequestHeader (c_str s)) (str_member ext ''consumerGroup''))"

definition SEND_MESSAGE_VALUE :: int where "SEND_MESSAGE_VALUE = 10"
definition PULL_MESSAGE_VALUE :: int where "PULL_MESSAGE_VALUE = 11"
definition QUERY_CONSUMER_OFFSET_VALUE :: int where "QUERY_CONSUMER_OFFSET_VALUE = 14"
definition UPDATE_CONSUMER_OFFSET_VALUE :: int where "UPDATE_CONSUMER_OFFSET_VALUE = 15"
definition SEARCH_OFFSET_BY_TIMESTAMP_VALUE :: int where "SEARCH_OFFSET_BY_TIMESTAMP_VALUE = 29"
definition GET_MAX_OFFSET_VALUE :: int where "GET_MAX_OFFSET_VALUE = 30"
definition GET_MIN_OFFSET_VALUE :: int where "GET_MIN_OFFSET_VALUE = 31"
definition GET_EARLIEST_MSG_STORETIME_VALUE :: int where "GET_EARLIEST_MSG_STORETIME_VALUE = 32"
definition HEART_BEAT_VALUE :: int where "HEART_BEAT_VALUE = 34"
definition UNREGISTER_CLIENT_VALUE :: int where "UNREGISTER_CLIENT_VALUE = 35"
definition GET_CONSUMER_LIST_BY_GROUP_VALUE :: int where "GET_CONSUMER_LIST_BY_GROUP_VALUE = 38"
definition NOTIFY_CONSUMER_IDS_CHANGED_VALUE :: int where "NOTIFY_CONSUMER_IDS_CHANGED_VALUE = 40"

definition header_Decode :: "json_parser \<Rightarrow> int \<Rightarrow> string \<Rightarrow> bool \<Rightarrow> CommandCustomHeader option option" where
  "header_Decode parse code pData isResponseType =
     (if isResponseType then
        (if code = SEND_MESSAGE_VALUE then SendMessageResponseHeader_Decode parse pData
         else if code = PULL_MESSAGE_VALUE then PullMessageResponseHeader_Decode parse pData
         else if code = GET_MAX_OFFSET_VALUE \<or> code = GET_MIN_OFFSET_VALUE \<or> code = QUERY_CONSUMER_OFFSET_VALUE
           then QueryConsumerOffsetResponseHeader_Decode parse pData
         else if code = GET_CONSUMER_LIST_BY_GROUP_VALUE then Some (Some GetConsumerListByGroupResponseHeader)
         else if code = HEART_BEAT_VALUE \<or> code = UNREGISTER_CLIENT_VALUE then Some None
         else if code = SEARCH_OFFSET_BY_TIMESTAMP_VALUE then SearchOffsetResponseHeader_Decode parse pData
         else if code = GET_EARLIEST_MSG_STORETIME_VALUE then GetEarliestMsgStoretimeResponseHeader_Decode parse pData
         else Some None)
      else if code = NOTIFY_CONSUMER_IDS_CHANGED_VALUE then NotifyConsumerIdsChangedRequestHeader_Decode parse pData
      else Some None)"

end
