(* ===== verification/Atomic.thy ===== *)
theory Atomic
  imports Prelude
begin

text \<open>
  \<open>MixAll::compareAndIncreaseOnly\<close> (\<open>src/src/common/MixAll.cpp\<close>) over \<open>AtomicLong\<close>
  (\<open>src/src/kpr/AtomicValue.h\<close>). The loop reads the target and retries a compare-and-swap;
  other threads may write the target in between. \<open>cas_loop\<close> takes what they write as an
  argument: one pair per attempt, with \<open>Some v\<close> when the target was overwritten with \<open>v\<close>
  before the compare-and-swap (first component) or before the re-read after a failed one
  (second component), and no interference once the list is used up.
  \<open>compareAndIncreaseOnly\<close> is the run without interference.
\<close>

text \<open>\<open>AtomicValue<long>\<close>: every operation returns the value it read or wrote and the new cell.\<close>

definition atomic_add_and_fetch :: "int \<Rightarrow> int \<Rightarrow> int \<times> int" where
  "atomic_add_and_fetch n cell = (s64 (cell + n), s64 (cell + n))"

definition atomic_fetchAndAdd :: "int \<Rightarrow> int \<Rightarrow> int \<times> int" where
  "atomic_fetchAndAdd n cell = (cell, s64 (cell + n))"

definition atomic_fetchAndSub :: "int \<Rightarrow> int \<Rightarrow> int \<times> int" where
  "atomic_fetchAndSub n cell = (cell, s64 (cell - n))"

definition atomic_CompareAndSet :: "int \<Rightarrow> int \<Rightarrow> int \<Rightarrow> int \<times> int" where
  "atomic_CompareAndSet comparand exchange cell = (cell, if cell = comparand then exchange else cell)"

fun interfere :: "int option \<Rightarrow> int \<Rightarrow> int" where
  "interfere None t = t"
| "interfere (Some v) t = v"

function cas_loop :: "(int option \<times> int option) list \<Rightarrow> int \<Rightarrow> int \<Rightarrow> int \<Rightarrow> bool \<times> int" where
  "cas_loop sched v current target =
     (if v > current then
        (let (before_cas, before_get) = (case sched of [] \<Rightarrow> (None, None) | x # _ \<Rightarrow> x);
             (tmp, target) = atomic_CompareAndSet current v (interfere before_cas target)
         in if tmp = current then (True, target)
            else let target = interfere before_get target; current = target
                 in cas_loop (tl sched) v current target)
      else (False, target))"
  by pat_completeness auto
termination
proof (relation "measure (\<lambda>(sched, v, current, target).
    2 * length sched + (if current = target then 0 else 1))", goal_cases)
  case 1
  then show ?case by simp
next
  case (2 sched v current target x bc bg xa tmp t1 t2 t3)
  then show ?case by (cases sched) (auto simp: atomic_CompareAndSet_def split: if_splits)
qed

declare cas_loop.simps [simp del]

definition compareAndIncreaseOnly :: "int \<Rightarrow> int \<Rightarrow> bool \<times> int" where
  "compareAndIncreaseOnly target v = cas_loop [] v target target"

lemma compareAndIncreaseOnly_eq: "compareAndIncreaseOnly t v = (v > t, max t v)"
  by (auto simp: compareAndIncreaseOnly_def cas_loop.simps [of "[]" v t t] atomic_CompareAndSet_def)

lemma cas_loop_result:
  assumes "current = target \<or> v > current"
  shows "v \<le> snd (cas_loop sched v current target) \<and>
    (fst (cas_loop sched v current target) \<longrightarrow> snd (cas_loop sched v current target) = v)"
  using assms
proof (induction sched v current target rule: cas_loop.induct)
  case (1 sched v current target)
  show ?case
  proof (cases "v > current")
    case False
    with "1.prems" show ?thesis by (auto simp: cas_loop.simps [of sched v target target])
  next
    case True
    obtain bc bg where b: "(case sched of [] \<Rightarrow> (None, None) | x # _ \<Rightarrow> x) = (bc, bg)" by fastforce
    let ?t = "interfere bc target"
    show ?thesis
    proof (cases "?t = current")
      case True
      with \<open>v > current\<close> b show ?thesis
        by (simp add: cas_loop.simps [of sched v current target] atomic_CompareAndSet_def)
    next
      case False
      let ?u = "interfere bg ?t"
      have "v \<le> snd (cas_loop (tl sched) v ?u ?u) \<and>
        (fst (cas_loop (tl sched) v ?u ?u) \<longrightarrow> snd (cas_loop (tl sched) v ?u ?u) = v)"
        using False \<open>v > current\<close> b
        by (intro "1.IH" [of "(bc, bg)" bc bg "(?t, ?t)" ?t ?t]) (auto simp: atomic_CompareAndSet_def)
      with False \<open>v > current\<close> b show ?thesis
        by (simp add: cas_loop.simps [of sched v current target] atomic_CompareAndSet_def Let_def)
    qed
  qed
qed

text \<open>
  The lock-free update never loses progress: whatever other threads write to the offset
  while \<open>compareAndIncreaseOnly\<close> runs, the loop returns, and when it returns the value is not
  below the requested one; a reported success means the cell holds exactly the requested
  value. Without interference the cell becomes the maximum, and success is reported exactly
  when the value grew.
\<close>

theorem compareAndIncreaseOnly_monotone:
  "v \<le> snd (cas_loop sched v target target) \<and>
   (fst (cas_loop sched v target target) \<longrightarrow> snd (cas_loop sched v target target) = v) \<and>
   compareAndIncreaseOnly target v = (v > target, max target v)"
  using cas_loop_result [of target target v sched] compareAndIncreaseOnly_eq by simp

theorem compareAndIncreaseOnly_monotone_witness:
  "9 \<le> snd (cas_loop [(Some 4, Some 6)] 9 3 3) \<and> fst (cas_loop [(Some 4, Some 6)] 9 3 3)"
  using compareAndIncreaseOnly_monotone [of 9 "[(Some 4, Some 6)]" 3]
  by (simp add: cas_loop.simps atomic_CompareAndSet_def)

end
