(* ===== verification/Remoting_Command.thy ===== *)
theory Remoting_Command
  imports Custom_Header Atomic
begin

text \<open>
  \<open>RemotingCommand\<close> (\<open>src/src/protocol/RemotingCommand.cpp\<close>, \<open>.h\<close>): the packet of the remoting protocol, a four byte
  total length, a four byte header length, a JSON header and a body. \<open>cmd_head\<close> and \<open>cmd_body\<close> are
  \<open>m_pHead\<close>/\<open>m_headLen\<close> and \<open>m_pBody\<close>/\<open>m_bodyLen\<close>, \<open>None\<close> for null. The statics \<open>s_seqNumber\<close> and
  \<open>s_configVersion\<close> are arguments and results. The JSON parser is an argument.
\<close>

section \<open>The class\<close>

record RemotingCommand =
  cmd_code :: int
  cmd_language :: string
  cmd_version :: int
  cmd_opaque :: int
  cmd_flag :: int
  cmd_remark :: string
  cmd_header :: "CommandCustomHeader option"
  cmd_head :: "string option"
  cmd_body :: "string option"

definition RPC_TYPE :: nat where "RPC_TYPE = 0"
definition RPC_ONEWAY :: nat where "RPC_ONEWAY = 1"
definition s_CurrentVersion :: int where "s_CurrentVersion = 19"

definition command_new :: "int \<Rightarrow> int \<Rightarrow> RemotingCommand \<times> int" where
  "command_new s_seqNumber code =
     (\<lparr>cmd_code = code, cmd_language = ''CPP'', cmd_version = 0, cmd_opaque = s_seqNumber, cmd_flag = 0,
       cmd_remark = '''', cmd_header = None, cmd_head = None, cmd_body = None\<rparr>, s32 (s_seqNumber + 1))"

definition command_make :: "int \<Rightarrow> string \<Rightarrow> int \<Rightarrow> int \<Rightarrow> int \<Rightarrow> string \<Rightarrow> CommandCustomHeader option \<Rightarrow> RemotingCommand" where
  "command_make code language version opaque flag remark pCustomHeader =
     \<lparr>cmd_code = code, cmd_language = language, cmd_version = version, cmd_opaque = opaque, cmd_flag = flag,
      cmd_remark = remark, cmd_header = pCustomHeader, cmd_head = None, cmd_body = None\<rparr>"

definition body_len :: "RemotingCommand \<Rightarrow> nat" where
  "body_len c = (case cmd_body c of None \<Rightarrow> 0 | Some b \<Rightarrow> length b)"

definition ext_json :: "RemotingCommand \<Rightarrow> string" where
  "ext_json c = (case cmd_header c of None \<Rightarrow> ''{}'' | Some h \<Rightarrow> header_Encode h ''{}'')"

definition head_text :: "RemotingCommand \<Rightarrow> string" where
  "head_text c =
     ''{'' @ quoted ''code'' @ '':'' @ show_int (cmd_code c) @ '','' @ quoted ''language'' @ '':'' @ quoted ''CPP'' @ '',''
     @ quoted ''version'' @ '':'' @ show_int (cmd_version c) @ '','' @ quoted ''opaque'' @ '':'' @ show_int (cmd_opaque c) @ '',''
     @ quoted ''flag'' @ '':'' @ show_int (cmd_flag c) @ '','' @ quoted ''remark'' @ '':'' @ quoted (cmd_remark c) @ '',''
     @ quoted ''extFields'' @ '':'' @ ext_json c @ ''}''"

definition command_Encode :: "RemotingCommand \<Rightarrow> RemotingCommand" where
  "command_Encode c =
     (let text = head_text c;
          headLen = int (length text);
          m_headLen = 4 + 4 + headLen
      in c\<lparr>cmd_head := Some (be_bytes 4 (m_headLen + int (body_len c) - 4) @ be_bytes 4 headLen @ text)\<rparr>)"

definition SetBody :: "string \<Rightarrow> RemotingCommand \<Rightarrow> RemotingCommand" where
  "SetBody pData c = c\<lparr>cmd_body := Some pData\<rparr>"

definition setCmdVersion :: "int \<Rightarrow> RemotingCommand \<Rightarrow> RemotingCommand \<times> int" where
  "setCmdVersion s_configVersion c =
     (if s_configVersion \<ge> 0 then (c\<lparr>cmd_version := s_configVersion\<rparr>, s_configVersion)
      else (c\<lparr>cmd_version := s_CurrentVersion\<rparr>, s_CurrentVersion))"

definition createRequestCommand ::
  "int \<Rightarrow> int \<Rightarrow> int \<Rightarrow> CommandCustomHeader option \<Rightarrow> RemotingCommand \<times> int \<times> int" where
  "createRequestCommand s_seqNumber s_configVersion code pCustomHeader =
     (let (c, s_seqNumber) = command_new s_seqNumber code;
          c = c\<lparr>cmd_header := pCustomHeader\<rparr>;
          (c, s_configVersion) = setCmdVersion s_configVersion c
      in (c, s_seqNumber, s_configVersion))"

definition markResponseType :: "RemotingCommand \<Rightarrow> RemotingCommand" where
  "markResponseType c = c\<lparr>cmd_flag := cmd_flag c OR push_bit RPC_TYPE 1\<rparr>"

definition isResponseType :: "RemotingCommand \<Rightarrow> bool" where
  "isResponseType c \<longleftrightarrow> cmd_flag c AND push_bit RPC_TYPE 1 = push_bit RPC_TYPE 1"

definition markOnewayRPC :: "RemotingCommand \<Rightarrow> RemotingCommand" where
  "markOnewayRPC c = c\<lparr>cmd_flag := cmd_flag c OR push_bit RPC_ONEWAY 1\<rparr>"

definition isOnewayRPC :: "RemotingCommand \<Rightarrow> bool" where
  "isOnewayRPC c \<longleftrightarrow> cmd_flag c AND push_bit RPC_ONEWAY 1 = push_bit RPC_ONEWAY 1"

text \<open>The outer \<open>None\<close> is an exception or a read outside the packet, the inner one the null pointer.\<close>

definition command_Decode :: "json_parser \<Rightarrow> string \<Rightarrow> RemotingCommand option option" where
  "command_Decode parse pData =
     (if length pData < 8 then None
      else case parse (c_str (drop 8 pData)) of None \<Rightarrow> Some None
      | Some object \<Rightarrow>
          (case (int_member object ''code'', str_member object ''language'', int_member object ''version'',
                 int_member object ''opaque'', int_member object ''flag'', str_member object ''remark'', rd_int pData 0 4) of
             (Some code, Some language, Some version, Some opaque, Some flag, Some remark, Some headLen) \<Rightarrow>
               let cmd = command_make code language version opaque flag remark None;
                   bodyLen = s32 (int (length pData) - 8 - headLen)
               in if bodyLen > 0
                  then map_option (\<lambda>b. Some (SetBody b cmd)) (rd pData 0 (8 + headLen) bodyLen)
                  else Some (Some cmd)
           | _ \<Rightarrow> None))"

text \<open>\<open>strstr(pData + 8, extFields_STRING)\<close>.\<close>

definition MakeCustomHeader :: "json_parser \<Rightarrow> int \<Rightarrow> string \<Rightarrow> RemotingCommand \<Rightarrow> RemotingCommand option" where
  "MakeCustomHeader parse code pData c =
     (if str_find (quoted ''extFields'' @ '':'') (c_str (drop 8 pData)) \<noteq> None
      then map_option (\<lambda>h. c\<lparr>cmd_header := h\<rparr>) (header_Decode parse code pData (isResponseType c))
      else Some c)"

text \<open>The bytes \<open>SendCmd\<close> hands to the transport: head and body, or \<open>None\<close> when nothing was encoded.\<close>

definition packet :: "RemotingCommand \<Rightarrow> string option" where
  "packet c =
     (case cmd_head c of None \<Rightarrow> None
      | Some h \<Rightarrow> if h = [] then None else Some (h @ (case cmd_body c of None \<Rightarrow> [] | Some b \<Rightarrow> b)))"

section \<open>Round trip\<close>

definition ext_value :: "RemotingCommand \<Rightarrow> json" where
  "ext_value c = (case Option.bind (cmd_header c) header_json of None \<Rightarrow> JObj [] | Some j \<Rightarrow> j)"

definition command_json :: "RemotingCommand \<Rightarrow> json" where
  "command_json c = JObj [(''code'', JInt (cmd_code c)), (''language'', JStr ''CPP''), (''version'', JInt (cmd_version c)),
     (''opaque'', JInt (cmd_opaque c)), (''flag'', JInt (cmd_flag c)), (''remark'', JStr (cmd_remark c)), (''extFields'', ext_value c)]"

lemma clean_show_int: "clean_text (show_int i)"
proof -
  have "clean_text (show_nat n)" for n
    using show_nat_digits [of n] by (auto simp: clean_text_def list_all_iff quote_def is_digit_def)
  then show ?thesis by (auto simp: show_int_def clean_text_def quote_def)
qed

lemma ext_json_text: "ext_json c = json_text (ext_value c)"
  by (auto simp: ext_json_def ext_value_def header_Encode_def split: option.split)

lemma head_text_json: "head_text c = json_text (command_json c)"
  by (simp add: head_text_def command_json_def ext_json_text)

text \<open>Commands whose text needs no escaping (\<open>Encode\<close> escapes nothing), whose numbers are C integers and whose packet length fits the length
  field.\<close>

definition clean_command :: "RemotingCommand \<Rightarrow> bool" where
  "clean_command c \<longleftrightarrow> clean_text (cmd_remark c) \<and> clean_json (ext_value c)
     \<and> fits_int (cmd_code c) \<and> fits_int (cmd_version c) \<and> fits_int (cmd_opaque c) \<and> fits_int (cmd_flag c)
     \<and> int (length (head_text c)) + int (body_len c) + 8 < 2 ^ 31"

definition wire_packet :: "RemotingCommand \<Rightarrow> string" where
  "wire_packet c = the (packet (command_Encode c))"

text \<open>What the receiver makes of it: everything but the custom header, which is read separately.\<close>

definition delivered :: "RemotingCommand \<Rightarrow> RemotingCommand" where
  "delivered c = c\<lparr>cmd_language := ''CPP'', cmd_header := None, cmd_head := None,
     cmd_body := (case cmd_body c of Some (x # b) \<Rightarrow> Some (x # b) | _ \<Rightarrow> None)\<rparr>"

definition the_body :: "RemotingCommand \<Rightarrow> string" where
  "the_body c = (case cmd_body c of None \<Rightarrow> [] | Some b \<Rightarrow> b)"

lemma delivered_fields:
  "delivered c = \<lparr>cmd_code = cmd_code c, cmd_language = ''CPP'', cmd_version = cmd_version c, cmd_opaque = cmd_opaque c, cmd_flag = cmd_flag c,
     cmd_remark = cmd_remark c, cmd_header = None, cmd_head = None, cmd_body = (if the_body c = [] then None else Some (the_body c))\<rparr>"
  by (simp add: delivered_def the_body_def split: option.split list.split)

lemma wire_packet_eq:
  "wire_packet c = be_bytes 4 (4 + int (length (head_text c)) + int (length (the_body c))) @ be_bytes 4 (int (length (head_text c)))
     @ head_text c @ the_body c"
  "packet (command_Encode c) = Some (wire_packet c)"
proof -
  have h: "be_bytes 4 x \<noteq> []" for x by (metis length_be_bytes list.size(3) zero_neq_numeral)
  have b: "body_len c = length (the_body c)" by (auto simp: body_len_def the_body_def split: option.split)
  show "packet (command_Encode c) = Some (wire_packet c)"
    using h by (simp add: wire_packet_def packet_def command_Encode_def Let_def)
  show "wire_packet c = be_bytes 4 (4 + int (length (head_text c)) + int (length (the_body c))) @ be_bytes 4 (int (length (head_text c)))
     @ head_text c @ the_body c"
    using h b by (simp add: wire_packet_def packet_def command_Encode_def Let_def the_body_def algebra_simps)
qed

lemma clean_command_json: "clean_command c \<Longrightarrow> clean_json (command_json c) \<and> is_obj (command_json c)"
  by (simp add: clean_command_def command_json_def is_obj_def clean_text_def quote_def)

lemma c_str_append: "no_nul a \<Longrightarrow> c_str (a @ b) = a @ c_str b"
  by (auto simp: c_str_def no_nul_def takeWhile_append)

lemma parse_packet:
  "parser_ok parse \<Longrightarrow> clean_command c \<Longrightarrow> parse (c_str (drop 8 (wire_packet c))) = Some (library_json (command_json c))"
  using clean_command_json [of c] json_text_no_nul [of "command_json c"]
  by (simp add: wire_packet_eq c_str_append head_text_json parser_ok_def)

lemma length_wire_packet: "length (wire_packet c) = 8 + length (head_text c) + length (the_body c)"
  by (simp add: wire_packet_eq)

lemma Decode_packet:
  assumes "parser_ok parse" "clean_command c"
  shows "command_Decode parse (wire_packet c) = Some (Some (delivered c))"
proof -
  let ?h = "int (length (head_text c))" and ?p = "wire_packet c"
  have b: "body_len c = length (the_body c)" by (auto simp: body_len_def the_body_def split: option.split)
  have lim: "?h + int (length (the_body c)) + 8 < 2 ^ 31" using assms(2) b by (simp add: clean_command_def)
  have hl: "rd_int ?p 0 4 = Some ?h"
    using rd_int_field [of "be_bytes 4 (4 + ?h + int (length (the_body c)))" 4 ?h "[]" "head_text c @ the_body c"] lim
    by (simp add: wire_packet_eq)
  have bl: "s32 (int (length ?p) - 8 - ?h) = int (length (the_body c))"
    using lim by (simp add: length_wire_packet s32_id)
  have rb: "rd ?p 0 (8 + ?h) (int (length (the_body c))) = Some (the_body c)"
    using rd_field [of "the_body c" "length (the_body c)" "be_bytes 4 (4 + ?h + int (length (the_body c))) @ be_bytes 4 ?h @ head_text c"
        "8 + length (head_text c)" "[]" "[]"] by (simp add: wire_packet_eq)
  have fits: "fits_int (cmd_code c)" "fits_int (cmd_version c)" "fits_int (cmd_opaque c)" "fits_int (cmd_flag c)"
    using assms(2) by (simp_all add: clean_command_def)
  let ?j = "library_json (command_json c)"
  have ms: "int_member ?j ''code'' = Some (cmd_code c)" "str_member ?j ''language'' = Some ''CPP''"
    "int_member ?j ''version'' = Some (cmd_version c)" "int_member ?j ''opaque'' = Some (cmd_opaque c)"
    "int_member ?j ''flag'' = Some (cmd_flag c)" "str_member ?j ''remark'' = Some (cmd_remark c)"
    using fits by (simp_all add: command_json_def int_member_def str_member_def jget_def asInt_def asString_def)
  have "\<not> length ?p < 8" by (simp add: length_wire_packet)
  then show ?thesis
    using parse_packet [OF assms] ms hl bl rb
    by (cases "cmd_body c" rule: option.exhaust; cases "the_body c")
      (simp_all add: command_Decode_def Let_def command_make_def SetBody_def delivered_def the_body_def)
qed

lemma packet_size: "clean_command c \<Longrightarrow> msg_size (wire_packet c @ rest) = int (length (wire_packet c))"
proof -
  assume c: "clean_command c"
  have b: "body_len c = length (the_body c)" by (auto simp: body_len_def the_body_def split: option.split)
  let ?n = "4 + int (length (head_text c)) + int (length (the_body c))"
  have lim: "?n + 4 < 2 ^ 31" using c b by (simp add: clean_command_def)
  have "take 4 (wire_packet c @ rest) = be_bytes 4 ?n" by (simp add: wire_packet_eq)
  then have "msg_size (wire_packet c @ rest) = s32 (?n mod 256 ^ 4 + 4)" by (simp only: msg_size_def be_val_bytes)
  also have "?n mod 256 ^ 4 = ?n" using lim by (intro mod_pos_pos_trivial) auto
  finally show ?thesis using lim by (simp add: s32_id length_wire_packet)
qed

lemma frames_packets:
  "list_all clean_command cs \<Longrightarrow> frames (concat (map wire_packet cs)) = (map wire_packet cs, []) \<and> sane (concat (map wire_packet cs))"
proof (induction cs)
  case Nil
  then show ?case by (simp add: frames_stop sane.simps [of "[]"])
next
  case (Cons c cs)
  let ?r = "concat (map wire_packet cs)"
  have m: "msg_size (wire_packet c @ ?r) = int (length (wire_packet c))" using Cons.prems by (simp add: packet_size)
  have l: "4 < length (wire_packet c @ ?r)" by (simp add: length_wire_packet)
  have p: "0 < int (length (wire_packet c))" by (simp add: length_wire_packet)
  with l m have "frames (wire_packet c @ ?r) = (wire_packet c # fst (frames ?r), snd (frames ?r))"
    by (subst frames_step) simp_all
  moreover have "sane (wire_packet c @ ?r) = sane ?r" using l m p by (simp add: sane.simps [of "wire_packet c @ ?r"])
  ultimately show ?case using Cons by simp
qed

text \<open>
  C36. The packet protocol, from \<open>Encode\<close> over the socket to \<open>Decode\<close>. The packets of any commands are sent back to back and
  arrive in pieces of any sizes: a transport with an empty buffer hands out exactly these packets, in order and whole, keeps nothing back, and
  each packet decodes to the code, version, opaque number, flag, remark and body of the command it was made from. The custom header is not part of \<open>Decode\<close>
  (\<open>MakeCustomHeader\<close> reads it later), and an empty body arrives as none. The commands are those whose strings hold no quote, backslash or NUL, because
  \<open>Encode\<close> does not escape; the JSON parser is any that satisfies \<open>parser_ok\<close>.
\<close>

theorem command_stream_roundtrip:
  assumes "parser_ok parse" "list_all clean_command cs" "concat pieces = concat (map wire_packet cs)"
    and "\<And>n. alloc n" "t_ok t" "t_mem t = []" "pieces_fit alloc pieces t"
  shows "\<exists>packets u. receive_all alloc pieces t = Some (packets, u) \<and> t_mem u = [] \<and>
    map (command_Decode parse) packets = map (\<lambda>c. Some (Some
      \<lparr>cmd_code = cmd_code c, cmd_language = ''CPP'', cmd_version = cmd_version c, cmd_opaque = cmd_opaque c, cmd_flag = cmd_flag c,
       cmd_remark = cmd_remark c, cmd_header = None, cmd_head = None,
       cmd_body = (if the_body c = [] then None else Some (the_body c))\<rparr>)) cs"
proof -
  have fr: "frames (concat pieces) = (map wire_packet cs, [])" "sane (concat pieces)"
    using frames_packets [OF assms(2)] assms(3) by simp_all
  obtain u where u: "receive_all alloc pieces t = Some (map wire_packet cs, u)" "t_mem u = []"
    using receive_all_frames [OF assms(4,5,7)] assms(6) fr by (auto simp: frames_stop)
  have "map (command_Decode parse) (map wire_packet cs) = map (\<lambda>c. Some (Some (delivered c))) cs"
    using Decode_packet [OF assms(1)] assms(2) by (auto simp: list_all_iff)
  with u show ?thesis by (auto simp: delivered_fields)
qed

definition sample_command :: RemotingCommand where
  "sample_command = \<lparr>cmd_code = 11, cmd_language = ''CPP'', cmd_version = 19, cmd_opaque = 7, cmd_flag = 0, cmd_remark = ''ok'',
     cmd_header = Some (QueryConsumerOffsetRequestHeader ''g'' ''t'' 3), cmd_head = None, cmd_body = Some ''body''\<rparr>"

lemma sample_command_fields:
  "cmd_code sample_command = 11" "cmd_version sample_command = 19" "cmd_opaque sample_command = 7" "cmd_flag sample_command = 0"
  "cmd_remark sample_command = ''ok''" "the_body sample_command = ''body''" "body_len sample_command = 4"
  by (simp_all add: sample_command_def the_body_def body_len_def)

lemma sample_command_head: "length (head_text sample_command) < 1000"
  by (simp add: sample_command_def QueryConsumerOffsetRequestHeader_Encode_def head_text_def ext_json_def header_Encode_def quoted_def show_int_def
      show_nat.simps)

lemma sample_command_clean: "clean_command sample_command"
  using clean_show_int [of 3] sample_command_head
  by (simp add: clean_command_def sample_command_fields fits_int_def)
    (simp add: sample_command_def ext_value_def QueryConsumerOffsetRequestHeader_Encode_def clean_text_def quote_def)

theorem command_stream_roundtrip_witness:
  "\<exists>packets u. receive_all (\<lambda>_. True) [wire_packet sample_command] sample_transport = Some (packets, u) \<and>
     map (command_Decode ref_parse) packets = [Some (Some \<lparr>cmd_code = 11, cmd_language = ''CPP'', cmd_version = 19, cmd_opaque = 7, cmd_flag = 0,
       cmd_remark = ''ok'', cmd_header = None, cmd_head = None, cmd_body = Some ''body''\<rparr>)]"
proof -
  have "wire_packet sample_command \<noteq> []" using length_wire_packet [of sample_command] by force
  moreover have "length (wire_packet sample_command) < 2000"
    using sample_command_head by (simp add: length_wire_packet sample_command_fields)
  ultimately have "pieces_fit (\<lambda>_. True) [wire_packet sample_command] sample_transport"
    by (simp add: sample_transport_def TcpTransport_new_def DEFAULT_RECV_BUFFER_SIZE_def split: option.split prod.split process_result.split)
  from command_stream_roundtrip [OF ref_parse_ok, of "[sample_command]", OF _ _ _ sample_transport_ok this] show ?thesis
    by (simp only: list.map sample_command_fields) (auto simp: sample_command_clean)
qed

end
