(* ===== verification/Remoting_Client.thy ===== *)
theory Remoting_Client
  imports Remoting_Command
begin

text \<open>
  \<open>ResponseFuture\<close> and the request/response matching of \<open>TcpRemotingClient\<close>
  (\<open>src/src/transport/ResponseFuture.cpp\<close>, \<open>TcpRemotingClient.cpp\<close>) as a state machine. Requests are numbered in
  the order they are made; request \<open>i\<close> owns the future at address \<open>i\<close>. Three threads work on a future: the
  sender (\<open>invokeSyncImpl\<close>, \<open>invokeAsyncImpl\<close>), a worker of the thread pool (\<open>ProcessData\<close>) and the
  event thread's timer (\<open>HandleTimerEvent\<close>). Each step is what a thread does between two points where another
  can come in: the critical sections of \<open>m_mutexResp\<close>, the writes to the future, the monitor of the future. A step
  on a freed future, and \<open>erase(end())\<close>, set \<open>g_bad\<close>, after which nothing is defined.

  The opaque of a command is the value of the counter \<open>s_seqNumber\<close> when it was built; the counter is an
  \<open>int\<close> that wraps, the model counts in \<open>g_cmds\<close>.
\<close>

section \<open>ResponseFuture\<close>

record future =
  f_requestCode :: int
  f_opaque :: int
  f_timeoutMillis :: int
  f_callback :: bool
  f_beginTimestamp :: int
  f_response :: "RemotingCommand option"
  f_notify :: bool
  f_monitor :: bool
  f_exec :: int
  f_sendOK :: bool

definition ResponseFuture_new :: "int \<Rightarrow> int \<Rightarrow> int \<Rightarrow> bool \<Rightarrow> bool \<Rightarrow> int \<Rightarrow> future" where
  "ResponseFuture_new requestCode opaque timeoutMillis callback block now =
     \<lparr>f_requestCode = requestCode, f_opaque = opaque, f_timeoutMillis = timeoutMillis, f_callback = callback,
      f_beginTimestamp = now, f_response = None, f_notify = False, f_monitor = block, f_exec = 0, f_sendOK = False\<rparr>"

definition isTimeout :: "int \<Rightarrow> future \<Rightarrow> bool" where
  "isTimeout now f \<longleftrightarrow> now - f_beginTimestamp f > f_timeoutMillis f"

text \<open>\<open>putResponse\<close>: the assignment, then the part under the monitor.\<close>

definition put_response :: "RemotingCommand option \<Rightarrow> future \<Rightarrow> future" where
  "put_response c f = f\<lparr>f_response := c\<rparr>"

definition put_notify :: "future \<Rightarrow> future" where
  "put_notify f = (if f_monitor f then f\<lparr>f_notify := True\<rparr> else f)"

text \<open>Whether the callback runs.\<close>

definition executeInvokeCallback :: "future \<Rightarrow> bool \<times> future" where
  "executeInvokeCallback f =
     (if f_callback f then (f_exec f = 0, f\<lparr>f_exec := s32 (f_exec f + 1)\<rparr>) else (False, f))"

section \<open>State\<close>

datatype sender_pc =
    SInserted    \<comment> \<open>the future is in the table, \<open>SendCmd\<close> runs\<close>
  | SSent        \<comment> \<open>\<open>SendCmd\<close> returned 0\<close>
  | SFailed      \<comment> \<open>\<open>SendCmd\<close> failed\<close>
  | SFailMarked
  | SErased
  | SWaiting     \<comment> \<open>in \<open>waitResponse\<close>\<close>
  | SReturned "RemotingCommand option"

datatype taker_pc =
    WTaken RemotingCommand
  | WPut RemotingCommand
  | TPut
  | WLost        \<comment> \<open>\<open>MakeCustomHeader\<close> threw; \<open>ProcessDataWork::Do\<close> swallowed it and ended\<close>

record remoting =
  g_cmds :: nat
  g_next :: nat
  g_num :: "nat \<Rightarrow> nat"
  g_async :: "nat \<Rightarrow> bool"
  g_futures :: "nat \<Rightarrow> future option"
  g_table :: "(int, nat) smap"
  g_sender :: "nat \<Rightarrow> sender_pc option"
  g_taker :: "nat \<Rightarrow> taker_pc option"
  g_lock :: bool
  g_called :: "nat list"
  g_bad :: bool

definition remoting_new :: remoting where
  "remoting_new = \<lparr>g_cmds = 0, g_next = 0, g_num = (\<lambda>_. 0), g_async = (\<lambda>_. False), g_futures = (\<lambda>_. None), g_table = [],
     g_sender = (\<lambda>_. None), g_taker = (\<lambda>_. None), g_lock = False, g_called = [], g_bad = False\<rparr>"

definition opaque_of :: "remoting \<Rightarrow> nat \<Rightarrow> int" where
  "opaque_of g i = s32 (int (g_num g i))"

definition set_pc :: "nat \<Rightarrow> sender_pc \<Rightarrow> remoting \<Rightarrow> remoting" where
  "set_pc i pc g = g\<lparr>g_sender := (g_sender g)(i \<mapsto> pc)\<rparr>"

definition upd_future :: "nat \<Rightarrow> (future \<Rightarrow> future) \<Rightarrow> remoting \<Rightarrow> remoting" where
  "upd_future i h g =
     (case g_futures g i of None \<Rightarrow> g\<lparr>g_bad := True\<rparr>
      | Some f \<Rightarrow> g\<lparr>g_futures := (g_futures g)(i \<mapsto> h f)\<rparr>)"

definition delete_future :: "nat \<Rightarrow> remoting \<Rightarrow> remoting" where
  "delete_future i g =
     (if g_futures g i = None then g\<lparr>g_bad := True\<rparr> else g\<lparr>g_futures := (g_futures g)(i := None)\<rparr>)"

definition run_callback :: "nat \<Rightarrow> remoting \<Rightarrow> remoting" where
  "run_callback i g =
     (case g_futures g i of None \<Rightarrow> g\<lparr>g_bad := True\<rparr>
      | Some f \<Rightarrow>
          let (runs, f) = executeInvokeCallback f;
              g = g\<lparr>g_futures := (g_futures g)(i \<mapsto> f)\<rparr>
          in if runs then g\<lparr>g_called := g_called g @ [i]\<rparr> else g)"

section \<open>The sender\<close>

text \<open>Building a command that is sent one way, or never sent.\<close>

definition other_command :: "remoting \<Rightarrow> remoting" where
  "other_command g = g\<lparr>g_cmds := Suc (g_cmds g)\<rparr>"

text \<open>Building the request, \<open>new ResponseFuture\<close> and \<open>m_responseTable.insert\<close>, which does not replace an entry.\<close>

definition invoke_insert :: "bool \<Rightarrow> int \<Rightarrow> int \<Rightarrow> int \<Rightarrow> remoting \<Rightarrow> remoting" where
  "invoke_insert async code timeoutMillis now g =
     (let i = g_next g; opaque = s32 (int (g_cmds g)) in
      g\<lparr>g_cmds := Suc (g_cmds g), g_next := Suc i, g_num := (g_num g)(i := g_cmds g), g_async := (g_async g)(i := async),
        g_futures := (g_futures g)(i \<mapsto> ResponseFuture_new code opaque timeoutMillis async (\<not> async) now),
        g_table := (if map_find ll_lt opaque (g_table g) = None then map_put ll_lt opaque i (g_table g) else g_table g),
        g_sender := (g_sender g)(i \<mapsto> SInserted)\<rparr>)"

definition send_cmd :: "nat \<Rightarrow> bool \<Rightarrow> remoting \<Rightarrow> remoting" where
  "send_cmd i ok g = set_pc i (if ok then SSent else SFailed) g"

definition mark_sent :: "nat \<Rightarrow> remoting \<Rightarrow> remoting" where
  "mark_sent i g =
     set_pc i (if g_async g i then SReturned None else SWaiting) (upd_future i (f_sendOK_update (\<lambda>_. True)) g)"

definition mark_failed :: "nat \<Rightarrow> remoting \<Rightarrow> remoting" where
  "mark_failed i g = set_pc i SFailMarked (upd_future i (f_sendOK_update (\<lambda>_. False)) g)"

text \<open>The synchronous sender tests \<open>find\<close>; the asynchronous one erases the iterator as it is.\<close>

definition erase_failed :: "nat \<Rightarrow> remoting \<Rightarrow> remoting" where
  "erase_failed i g =
     (if g_async g i \<and> map_find ll_lt (opaque_of g i) (g_table g) = None then g\<lparr>g_bad := True\<rparr>
      else set_pc i SErased (g\<lparr>g_table := map_erase ll_lt (opaque_of g i) (g_table g)\<rparr>))"

definition finish_failed :: "nat \<Rightarrow> remoting \<Rightarrow> remoting" where
  "finish_failed i g =
     set_pc i (SReturned None) (delete_future i (if g_async g i then run_callback i g else g))"

text \<open>\<open>waitResponse\<close> returns when notified or when its time is over, and reads \<open>m_pResponseCommand\<close>.\<close>

definition wait_return :: "nat \<Rightarrow> remoting \<Rightarrow> remoting" where
  "wait_return i g =
     (case g_futures g i of None \<Rightarrow> g\<lparr>g_bad := True\<rparr>
      | Some f \<Rightarrow>
          (case f_response f of
             Some c \<Rightarrow> set_pc i (SReturned (Some c)) (delete_future i g)
           | None \<Rightarrow> set_pc i (SReturned None) g))"

section \<open>The worker\<close>

text \<open>A response packet: take the future out of the table, or drop the command.\<close>

definition worker_take :: "RemotingCommand \<Rightarrow> remoting \<Rightarrow> remoting" where
  "worker_take c g =
     (case map_find ll_lt (cmd_opaque c) (g_table g) of None \<Rightarrow> g
      | Some i \<Rightarrow>
          (if g_futures g i = None then g\<lparr>g_bad := True\<rparr>
           else g\<lparr>g_table := map_erase ll_lt (cmd_opaque c) (g_table g), g_taker := (g_taker g)(i \<mapsto> WTaken c)\<rparr>))"

definition worker_put :: "nat \<Rightarrow> RemotingCommand \<Rightarrow> remoting \<Rightarrow> remoting" where
  "worker_put i c g = (upd_future i (put_response (Some c)) g)\<lparr>g_taker := (g_taker g)(i \<mapsto> WPut c)\<rparr>"

text \<open>Between taking the future and completing it, \<open>ProcessData\<close> reads the header of the answer. When that throws, nobody
  knows the future any more.\<close>

definition worker_lose :: "nat \<Rightarrow> remoting \<Rightarrow> remoting" where
  "worker_lose i g = g\<lparr>g_taker := (g_taker g)(i \<mapsto> WLost)\<rparr>"

definition worker_finish :: "nat \<Rightarrow> remoting \<Rightarrow> remoting" where
  "worker_finish i g =
     (case g_futures g i of None \<Rightarrow> g\<lparr>g_bad := True\<rparr>
      | Some f \<Rightarrow>
          (if f_callback f then delete_future i (run_callback i g) else upd_future i put_notify g)
            \<lparr>g_taker := (g_taker g)(i := None)\<rparr>)"

section \<open>The timer\<close>

text \<open>One entry of the loop of \<open>HandleTimerEvent\<close>; \<open>m_mutexResp\<close> is held until the entry is done.\<close>

definition timer_take :: "nat \<Rightarrow> int \<Rightarrow> remoting \<Rightarrow> remoting" where
  "timer_take i now g =
     (case g_futures g i of None \<Rightarrow> g\<lparr>g_bad := True\<rparr>
      | Some f \<Rightarrow>
          (if isTimeout now f
           then (upd_future i (put_response None) g)
                  \<lparr>g_table := map_erase ll_lt (opaque_of g i) (g_table g), g_lock := True, g_taker := (g_taker g)(i \<mapsto> TPut)\<rparr>
           else g))"

definition timer_finish :: "nat \<Rightarrow> remoting \<Rightarrow> remoting" where
  "timer_finish i g =
     (case g_futures g i of None \<Rightarrow> g\<lparr>g_bad := True\<rparr>
      | Some f \<Rightarrow>
          (let g = upd_future i put_notify g in
           if f_callback f then delete_future i (run_callback i g) else g)
            \<lparr>g_lock := False, g_taker := (g_taker g)(i := None)\<rparr>)"

section \<open>The machine\<close>

inductive step :: "remoting \<Rightarrow> remoting \<Rightarrow> bool" where
  other: "\<not> g_bad g \<Longrightarrow> step g (other_command g)"
| invoke: "\<not> g_bad g \<Longrightarrow> \<not> g_lock g \<Longrightarrow> step g (invoke_insert async code timeoutMillis now g)"
| send: "\<not> g_bad g \<Longrightarrow> g_sender g i = Some SInserted \<Longrightarrow> step g (send_cmd i ok g)"
| sent: "\<not> g_bad g \<Longrightarrow> g_sender g i = Some SSent \<Longrightarrow> step g (mark_sent i g)"
| failed: "\<not> g_bad g \<Longrightarrow> g_sender g i = Some SFailed \<Longrightarrow> step g (mark_failed i g)"
| erase: "\<not> g_bad g \<Longrightarrow> g_sender g i = Some SFailMarked \<Longrightarrow> \<not> g_lock g \<Longrightarrow> step g (erase_failed i g)"
| finish: "\<not> g_bad g \<Longrightarrow> g_sender g i = Some SErased \<Longrightarrow> step g (finish_failed i g)"
| wait: "\<not> g_bad g \<Longrightarrow> g_sender g i = Some SWaiting \<Longrightarrow> step g (wait_return i g)"
| take_response: "\<not> g_bad g \<Longrightarrow> \<not> g_lock g \<Longrightarrow> step g (worker_take c g)"
| put: "\<not> g_bad g \<Longrightarrow> g_taker g i = Some (WTaken c) \<Longrightarrow> step g (worker_put i c g)"
| lose: "\<not> g_bad g \<Longrightarrow> g_taker g i = Some (WTaken c) \<Longrightarrow> step g (worker_lose i g)"
| done_response: "\<not> g_bad g \<Longrightarrow> g_taker g i = Some (WPut c) \<Longrightarrow> step g (worker_finish i g)"
| take_timeout: "\<not> g_bad g \<Longrightarrow> \<not> g_lock g \<Longrightarrow> map_find ll_lt (opaque_of g i) (g_table g) = Some i \<Longrightarrow> step g (timer_take i now g)"
| done_timeout: "\<not> g_bad g \<Longrightarrow> g_taker g i = Some TPut \<Longrightarrow> step g (timer_finish i g)"

inductive reachable :: "remoting \<Rightarrow> bool" where
  init: "reachable remoting_new"
| step: "reachable g \<Longrightarrow> step g h \<Longrightarrow> reachable h"

section \<open>Invariant\<close>

text \<open>What is known of one request, from its own pieces of the state: asynchronous or not, its opaque, its future,
  the two program counters, whether its table entry is there, whether its callback has run.\<close>

definition slot_ok ::
  "bool \<Rightarrow> int \<Rightarrow> future option \<Rightarrow> sender_pc option \<Rightarrow> taker_pc option \<Rightarrow> bool \<Rightarrow> bool \<Rightarrow> bool" where
  "slot_ok A k F S T t cl \<longleftrightarrow>
     (\<forall>f. F = Some f \<longrightarrow> f_callback f = A \<and> f_exec f = 0 \<and> (\<forall>c. f_response f = Some c \<longrightarrow> cmd_opaque c = k))
   \<and> S \<noteq> None \<and> (t \<longrightarrow> T = None \<and> (\<exists>f. F = Some f \<and> f_response f = None) \<and> S \<noteq> Some SErased)
   \<and> (\<forall>c. T = Some (WTaken c) \<or> T = Some (WPut c) \<or> S = Some (SReturned (Some c)) \<longrightarrow> cmd_opaque c = k)
   \<and> (cl \<longleftrightarrow> A \<and> F = None) \<and> (\<not> A \<and> F = None \<longrightarrow> (\<exists>r. S = Some (SReturned r)))
   \<and> (A \<longrightarrow> S \<noteq> Some SWaiting \<and> (F \<noteq> None \<longrightarrow> t \<or> T \<noteq> None \<or> S = Some SErased)
          \<and> (S = Some SErased \<longrightarrow> T = None \<and> F \<noteq> None) \<and> (T \<noteq> None \<longrightarrow> F \<noteq> None))"

definition in_table :: "remoting \<Rightarrow> nat \<Rightarrow> bool" where
  "in_table g i \<longleftrightarrow> (opaque_of g i, i) \<in> set (g_table g)"

definition slot :: "remoting \<Rightarrow> nat \<Rightarrow> bool" where
  "slot g i \<longleftrightarrow> slot_ok (g_async g i) (opaque_of g i) (g_futures g i) (g_sender g i) (g_taker g i) (in_table g i) (i \<in> set (g_called g))"

abbreviation tab_wf :: "(int, nat) smap \<Rightarrow> bool" where "tab_wf \<equiv> map_wf ll_lt any_key"

definition r_inv :: "remoting \<Rightarrow> bool" where
  "r_inv g \<longleftrightarrow> (\<forall>i < g_next g. g_num g i < g_cmds g \<and> (\<forall>j < i. g_num g j < g_num g i))
   \<and> (\<forall>i \<ge> g_next g. g_sender g i = None \<and> g_taker g i = None \<and> g_futures g i = None \<and> i \<notin> set (g_called g))
   \<and> tab_wf (g_table g) \<and> (\<forall>(k, i) \<in> set (g_table g). i < g_next g \<and> k = opaque_of g i)
   \<and> distinct (g_called g) \<and> (\<forall>i < g_next g. slot g i)"

lemma s32_inj: "a < 2 ^ 32 \<Longrightarrow> b < 2 ^ 32 \<Longrightarrow> s32 (int a) = s32 (int b) \<longleftrightarrow> a = b"
proof
  assume ab: "a < 2 ^ 32" "b < 2 ^ 32" and e: "s32 (int a) = s32 (int b)"
  have "take_bit 32 (int a) = take_bit 32 (int b)" using arg_cong [OF e, of "take_bit 32"] by (simp only: take_s32)
  with ab show "a = b" by (simp add: take_bit_int_eq_self)
qed simp

lemma opaque_inj:
  assumes "r_inv g" "g_cmds g \<le> 2 ^ 32" "i < g_next g" "j < g_next g"
  shows "opaque_of g i = opaque_of g j \<longleftrightarrow> i = j"
proof -
  have "g_num g i < g_cmds g" "g_num g j < g_cmds g" using assms(1,3,4) unfolding r_inv_def by blast+
  then have "g_num g i < 2 ^ 32" "g_num g j < 2 ^ 32" using assms(2) by linarith+
  moreover have "g_num g i = g_num g j \<longleftrightarrow> i = j"
    using assms unfolding r_inv_def by (metis less_irrefl linorder_neqE_nat)
  ultimately show ?thesis by (simp add: opaque_of_def s32_inj)
qed

text \<open>A step that touches one request only.\<close>

definition only :: "nat \<Rightarrow> remoting \<Rightarrow> remoting \<Rightarrow> bool" where
  "only i g h \<longleftrightarrow> g_cmds h = g_cmds g \<and> g_next h = g_next g \<and> g_num h = g_num g \<and> g_async h = g_async g
   \<and> (\<forall>j. j \<noteq> i \<longrightarrow> g_futures h j = g_futures g j \<and> g_sender h j = g_sender g j \<and> g_taker h j = g_taker g j
        \<and> (j \<in> set (g_called h) \<longleftrightarrow> j \<in> set (g_called g)))"

lemma inv_only:
  assumes "r_inv g" "i < g_next g" "only i g h" "tab_wf (g_table h)" "set (g_table h) \<subseteq> set (g_table g)"
    and "\<And>j. j < g_next g \<Longrightarrow> j \<noteq> i \<Longrightarrow> in_table h j = in_table g j"
    and "distinct (g_called h)" "slot h i"
  shows "r_inv h"
proof -
  have o: "opaque_of h = opaque_of g" using assms(3) by (auto simp: only_def opaque_of_def)
  have s: "slot h j" if "j < g_next h" for j
  proof (cases "j = i")
    case False
    with assms(1,3) that have "slot g j" by (auto simp: r_inv_def only_def)
    with False assms(3) assms(6) [of j] that o show ?thesis by (auto simp: slot_def only_def)
  qed (use assms(8) in simp)
  have num: "\<forall>k < g_next h. g_num h k < g_cmds h \<and> (\<forall>j < k. g_num h j < g_num h k)"
    using assms(1,3) unfolding r_inv_def only_def by metis
  have fresh: "\<forall>k \<ge> g_next h. g_sender h k = None \<and> g_taker h k = None \<and> g_futures h k = None \<and> k \<notin> set (g_called h)"
  proof (intro allI impI)
    fix k assume k: "g_next h \<le> k"
    with assms(2,3) have "k \<noteq> i" "g_next g \<le> k" by (auto simp: only_def)
    with assms(1,3) show "g_sender h k = None \<and> g_taker h k = None \<and> g_futures h k = None \<and> k \<notin> set (g_called h)"
      by (simp add: r_inv_def only_def)
  qed
  have "\<forall>(k, i) \<in> set (g_table h). i < g_next h \<and> k = opaque_of h i"
    using assms(1,3,5) o by (auto simp: r_inv_def only_def)
  with num fresh s assms(4,7) show ?thesis by (simp add: r_inv_def)
qed

lemma slot_of: "r_inv g \<Longrightarrow> i < g_next g \<Longrightarrow> slot g i"
  by (simp add: r_inv_def)

lemma known: "r_inv g \<Longrightarrow> g_sender g i \<noteq> None \<or> g_taker g i \<noteq> None \<or> g_futures g i \<noteq> None \<Longrightarrow> i < g_next g"
  unfolding r_inv_def by (meson not_le)

text \<open>Steps that leave the table alone.\<close>

lemma inv_only_table:
  assumes "r_inv g" "i < g_next g" "only i g h" "g_table h = g_table g" "distinct (g_called h)" "slot h i"
  shows "r_inv h"
proof (rule inv_only [OF assms(1-3)])
  have "opaque_of h = opaque_of g" using assms(3) by (auto simp: only_def opaque_of_def)
  with assms(4) show "in_table h j = in_table g j" for j by (simp add: in_table_def)
  show "tab_wf (g_table h)" using assms(1,4) by (simp add: r_inv_def)
qed (use assms in simp_all)

text \<open>Steps that take the entry of request \<open>i\<close> out of the table.\<close>

lemma erase_slot_entry:
  assumes "r_inv g" "g_cmds g \<le> 2 ^ 32" "i < g_next g" "j < g_next g"
  shows "(opaque_of g j, j) \<in> set (map_erase ll_lt (opaque_of g i) (g_table g)) \<longleftrightarrow> in_table g j \<and> j \<noteq> i"
  using assms opaque_inj [OF assms(1,2,4,3)] by (auto simp: ll.erase_set r_inv_def in_table_def)

lemma inv_only_erase:
  assumes "r_inv g" "g_cmds g \<le> 2 ^ 32" "i < g_next g" "only i g h" "g_table h = map_erase ll_lt (opaque_of g i) (g_table g)"
    and "distinct (g_called h)" "slot h i"
  shows "r_inv h"
proof (rule inv_only [OF assms(1,3,4)])
  have o: "opaque_of h = opaque_of g" using assms(4) by (auto simp: only_def opaque_of_def)
  show "in_table h j = in_table g j" if "j < g_next g" "j \<noteq> i" for j
    using erase_slot_entry [OF assms(1-3) that(1)] that(2) assms(5) o by (simp add: in_table_def)
  show "tab_wf (g_table h)" using assms(1,5) by (simp add: r_inv_def ll.erase_wf)
  show "set (g_table h) \<subseteq> set (g_table g)" using assms(5) ll.erase_subset by simp
qed (use assms in simp_all)

lemma erased_self:
  "r_inv g \<Longrightarrow> only i g h \<Longrightarrow> g_table h = map_erase ll_lt (opaque_of g i) (g_table g) \<Longrightarrow> \<not> in_table h i"
  by (auto simp: in_table_def only_def opaque_of_def ll.erase_set r_inv_def)

lemma inv_new: "r_inv remoting_new"
  by (simp add: r_inv_def remoting_new_def)

lemma inv_other: "r_inv g \<Longrightarrow> r_inv (other_command g)"
  by (auto simp: r_inv_def other_command_def slot_def in_table_def opaque_of_def less_SucI)

lemma inv_send: "r_inv g \<Longrightarrow> g_sender g i = Some SInserted \<Longrightarrow> r_inv (send_cmd i ok g)"
proof (rule inv_only_table [of g i])
  assume a: "r_inv g" "g_sender g i = Some SInserted"
  then show i: "i < g_next g" by (simp add: known)
  from slot_of [OF a(1) i] a(2) show "slot (send_cmd i ok g) i"
    by (auto simp: slot_def slot_ok_def send_cmd_def set_pc_def in_table_def opaque_of_def)
qed (auto simp: only_def send_cmd_def set_pc_def r_inv_def)

lemma upd_future_live: "\<not> g_bad (upd_future i h g) \<Longrightarrow> \<exists>f. g_futures g i = Some f \<and> upd_future i h g = g\<lparr>g_futures := (g_futures g)(i \<mapsto> h f)\<rparr>"
  by (auto simp: upd_future_def split: option.splits)

lemma inv_mark:
  assumes "r_inv g" "g_sender g i = Some (if ok then SSent else SFailed)" "\<not> g_bad (if ok then mark_sent i g else mark_failed i g)"
  shows "r_inv (if ok then mark_sent i g else mark_failed i g)"
proof -
  let ?h = "if ok then mark_sent i g else mark_failed i g"
  have i: "i < g_next g" using assms by (simp add: known)
  obtain f where f: "g_futures g i = Some f"
    using assms(3) by (auto simp: mark_sent_def mark_failed_def set_pc_def upd_future_def split: if_splits option.splits)
  have "slot ?h i"
    using slot_of [OF assms(1) i] assms(2) f
    by (auto simp: slot_def slot_ok_def mark_sent_def mark_failed_def set_pc_def upd_future_def in_table_def opaque_of_def split: if_splits)
  then show ?thesis
    using assms(1) f
    by (intro inv_only_table [OF assms(1) i]) (auto simp: only_def mark_sent_def mark_failed_def set_pc_def upd_future_def r_inv_def)
qed

lemma inv_erase:
  assumes "r_inv g" "g_cmds g \<le> 2 ^ 32" "g_sender g i = Some SFailMarked" "\<not> g_bad (erase_failed i g)" "\<not> g_bad g"
  shows "r_inv (erase_failed i g)"
proof -
  have i: "i < g_next g" using assms by (simp add: known)
  let ?h = "erase_failed i g"
  have h: "?h = set_pc i SErased (g\<lparr>g_table := map_erase ll_lt (opaque_of g i) (g_table g)\<rparr>)"
    and found: "g_async g i \<Longrightarrow> \<exists>j. map_find ll_lt (opaque_of g i) (g_table g) = Some j"
    using assms(4) by (auto simp: erase_failed_def split: if_splits)
  have tab: "in_table g i" if "g_async g i"
  proof -
    obtain j where "map_find ll_lt (opaque_of g i) (g_table g) = Some j" using found \<open>g_async g i\<close> by blast
    then have "(opaque_of g i, j) \<in> set (g_table g)" using assms(1) by (simp add: ll.find_Some_iff r_inv_def)
    moreover from this have "j < g_next g" "opaque_of g j = opaque_of g i" using assms(1) by (auto simp: r_inv_def)
    ultimately show ?thesis using opaque_inj [OF assms(1,2) _ i] by (auto simp: in_table_def)
  qed
  have only: "only i g ?h" "g_table ?h = map_erase ll_lt (opaque_of g i) (g_table g)" "g_called ?h = g_called g"
    by (auto simp: only_def h set_pc_def)
  have "\<not> in_table ?h i" by (rule erased_self [OF assms(1) only(1,2)])
  then have "slot ?h i"
    using slot_of [OF assms(1) i] assms(3) tab h
    by (auto simp: slot_def slot_ok_def set_pc_def opaque_of_def)
  then show ?thesis using assms(1) only by (intro inv_only_erase [OF assms(1,2) i]) (auto simp: r_inv_def)
qed

lemmas slot_simps = slot_def slot_ok_def set_pc_def upd_future_def delete_future_def run_callback_def
  executeInvokeCallback_def in_table_def opaque_of_def put_response_def put_notify_def Let_def

definition same_rest :: "remoting \<Rightarrow> remoting \<Rightarrow> bool" where
  "same_rest g h \<longleftrightarrow> g_cmds h = g_cmds g \<and> g_next h = g_next g \<and> g_num h = g_num g \<and> g_async h = g_async g \<and> g_bad h = g_bad g"

text \<open>Running the callback of a live future and freeing it.\<close>

lemma run_delete:
  assumes "r_inv g" "i < g_next g" "g_futures g i = Some f"
  shows "delete_future i (run_callback i g) =
     g\<lparr>g_futures := (g_futures g)(i := None), g_called := g_called g @ (if f_callback f then [i] else [])\<rparr>"
  using slot_of [OF assms(1,2)] assms(3) by (auto simp: slot_simps)

lemma not_called: "r_inv g \<Longrightarrow> i < g_next g \<Longrightarrow> g_futures g i = Some f \<Longrightarrow> i \<notin> set (g_called g)"
  using slot_of [of g i] by (auto simp: slot_def slot_ok_def)

lemma inv_finish:
  assumes "r_inv g" "g_sender g i = Some SErased" "\<not> g_bad (finish_failed i g)"
  shows "r_inv (finish_failed i g)"
proof -
  let ?h = "finish_failed i g"
  have i: "i < g_next g" using assms by (simp add: known)
  obtain f where f: "g_futures g i = Some f"
    using assms(3) by (auto simp: finish_failed_def set_pc_def delete_future_def run_callback_def split: if_splits option.splits)
  have cb: "f_callback f = g_async g i" using slot_of [OF assms(1) i] f by (simp add: slot_def slot_ok_def)
  have h: "g_futures ?h = (g_futures g)(i := None)" "g_sender ?h = (g_sender g)(i \<mapsto> SReturned None)"
    "g_called ?h = g_called g @ (if g_async g i then [i] else [])" "same_rest g ?h" "g_taker ?h = g_taker g" "g_table ?h = g_table g"
    using f cb run_delete [OF assms(1) i f]
    by (cases "g_async g i"; simp add: finish_failed_def set_pc_def same_rest_def; simp add: delete_future_def)+
  have "slot ?h i"
    using slot_of [OF assms(1) i] assms(2) f h by (auto simp: slot_simps same_rest_def)
  then show ?thesis
    using assms(1) not_called [OF assms(1) i f] h
    by (intro inv_only_table [OF assms(1) i]) (auto simp: only_def r_inv_def same_rest_def)
qed

lemma inv_wait:
  assumes "r_inv g" "g_sender g i = Some SWaiting" "\<not> g_bad (wait_return i g)"
  shows "r_inv (wait_return i g)"
proof -
  let ?h = "wait_return i g"
  have i: "i < g_next g" using assms by (simp add: known)
  obtain f where f: "g_futures g i = Some f"
    using assms(3) by (auto simp: wait_return_def split: option.splits)
  have "slot ?h i"
    using slot_of [OF assms(1) i] assms(2) f
    by (cases "f_response f") (auto simp: slot_simps wait_return_def)
  then show ?thesis
    using assms(1) f
    by (intro inv_only_table [OF assms(1) i])
      (auto simp: only_def r_inv_def wait_return_def set_pc_def delete_future_def split: option.splits)
qed

lemma find_entry:
  assumes "r_inv g" "map_find ll_lt k (g_table g) = Some i"
  shows "i < g_next g" "k = opaque_of g i" "in_table g i"
proof -
  have m: "(k, i) \<in> set (g_table g)" using assms by (simp add: ll.find_Some_iff r_inv_def)
  then show "i < g_next g" "k = opaque_of g i" using assms(1) by (auto simp: r_inv_def)
  with m show "in_table g i" by (simp add: in_table_def)
qed

lemma inv_take_response:
  assumes "r_inv g" "g_cmds g \<le> 2 ^ 32" "\<not> g_bad g"
  shows "r_inv (worker_take c g) \<and> \<not> g_bad (worker_take c g)"
proof (cases "map_find ll_lt (cmd_opaque c) (g_table g)")
  case None
  then show ?thesis using assms by (simp add: worker_take_def)
next
  case (Some i)
  note e = find_entry [OF assms(1) Some]
  let ?h = "worker_take c g"
  obtain f where f: "g_futures g i = Some f" using slot_of [OF assms(1) e(1)] e(3) by (auto simp: slot_def slot_ok_def)
  have h: "?h = g\<lparr>g_table := map_erase ll_lt (opaque_of g i) (g_table g), g_taker := (g_taker g)(i \<mapsto> WTaken c)\<rparr>"
    using Some f e(2) by (simp add: worker_take_def)
  have only: "only i g ?h" "g_table ?h = map_erase ll_lt (opaque_of g i) (g_table g)" by (auto simp: h only_def)
  have "\<not> in_table ?h i" by (rule erased_self [OF assms(1) only])
  then have "slot ?h i"
    using slot_of [OF assms(1) e(1)] e f unfolding h by (auto simp: slot_def slot_ok_def opaque_of_def)
  then have "r_inv ?h" using assms(1) only by (intro inv_only_erase [OF assms(1,2) e(1)]) (auto simp: r_inv_def h)
  moreover have "\<not> g_bad ?h" using assms(3) by (simp add: h)
  ultimately show ?thesis by blast
qed

lemma inv_put:
  assumes "r_inv g" "g_taker g i = Some (WTaken c)" "\<not> g_bad (worker_put i c g)"
  shows "r_inv (worker_put i c g)"
proof -
  let ?h = "worker_put i c g"
  have i: "i < g_next g" using assms by (simp add: known)
  obtain f where f: "g_futures g i = Some f"
    using assms(3) by (auto simp: worker_put_def upd_future_def split: option.splits)
  have "slot ?h i" using slot_of [OF assms(1) i] assms(2) f by (auto simp: slot_simps worker_put_def)
  then show ?thesis
    using assms(1) f by (intro inv_only_table [OF assms(1) i]) (auto simp: only_def r_inv_def worker_put_def upd_future_def)
qed

lemma inv_lose: "r_inv g \<Longrightarrow> g_taker g i = Some (WTaken c) \<Longrightarrow> r_inv (worker_lose i g)"
proof (rule inv_only_table [of g i])
  assume a: "r_inv g" "g_taker g i = Some (WTaken c)"
  then show i: "i < g_next g" by (simp add: known)
  from slot_of [OF a(1) i] a(2) show "slot (worker_lose i g) i"
    by (auto simp: slot_def slot_ok_def worker_lose_def in_table_def opaque_of_def)
qed (auto simp: only_def worker_lose_def r_inv_def)

lemma inv_take_timeout:
  assumes "r_inv g" "g_cmds g \<le> 2 ^ 32" "\<not> g_bad g" "map_find ll_lt (opaque_of g i) (g_table g) = Some i"
  shows "r_inv (timer_take i now g) \<and> \<not> g_bad (timer_take i now g)"
proof -
  note e = find_entry [OF assms(1,4)]
  let ?h = "timer_take i now g"
  obtain f where f: "g_futures g i = Some f" using slot_of [OF assms(1) e(1)] e(3) by (auto simp: slot_def slot_ok_def)
  show ?thesis
  proof (cases "isTimeout now f")
    case False
    then show ?thesis using f assms by (simp add: timer_take_def)
  next
    case True
    have h: "?h = g\<lparr>g_futures := (g_futures g)(i \<mapsto> put_response None f), g_table := map_erase ll_lt (opaque_of g i) (g_table g),
        g_lock := True, g_taker := (g_taker g)(i \<mapsto> TPut)\<rparr>"
      using True f by (simp add: timer_take_def upd_future_def)
    have only: "only i g ?h" "g_table ?h = map_erase ll_lt (opaque_of g i) (g_table g)" by (auto simp: h only_def)
    have "\<not> in_table ?h i" by (rule erased_self [OF assms(1) only])
    then have "slot ?h i"
      using slot_of [OF assms(1) e(1)] e f unfolding h by (auto simp: slot_def slot_ok_def opaque_of_def put_response_def)
    then have "r_inv ?h" using assms(1) only by (intro inv_only_erase [OF assms(1,2) e(1)]) (auto simp: r_inv_def h)
    moreover have "\<not> g_bad ?h" using assms(3) by (simp add: h)
    ultimately show ?thesis by blast
  qed
qed

text \<open>The last step of a worker or of the timer: an asynchronous future is called back and freed, a synchronous one
  is notified.\<close>

lemma inv_taken:
  assumes "r_inv g" "i < g_next g" "g_futures g i = Some f" "g_taker g i \<noteq> None" "only i g h" "g_table h = g_table g"
    and "g_sender h = g_sender g" "g_taker h i = None"
    and "g_futures h i = (if f_callback f then None else Some (put_notify f))"
    and "g_called h = g_called g @ (if f_callback f then [i] else [])"
  shows "r_inv h"
proof -
  have cb: "f_callback f = g_async g i" using slot_of [OF assms(1,2)] assms(3) by (simp add: slot_def slot_ok_def)
  have o: "opaque_of h = opaque_of g" "g_async h = g_async g" using assms(5) by (auto simp: only_def opaque_of_def)
  have t: "\<not> in_table h i" using slot_of [OF assms(1,2)] assms(4,6) o by (auto simp: slot_def slot_ok_def in_table_def)
  have "slot h i"
    using slot_of [OF assms(1,2)] assms(3,4,7-10) o t cb by (auto simp: slot_def slot_ok_def put_notify_def)
  then show ?thesis
    using assms not_called [OF assms(1-3)] by (intro inv_only_table [OF assms(1,2,5,6)]) (auto simp: r_inv_def)
qed

lemma inv_done_response:
  assumes "r_inv g" "g_taker g i = Some (WPut c)" "\<not> g_bad (worker_finish i g)"
  shows "r_inv (worker_finish i g)"
proof -
  have i: "i < g_next g" using assms by (simp add: known)
  obtain f where f: "g_futures g i = Some f" using assms(3) by (auto simp: worker_finish_def split: option.splits)
  show ?thesis
    using f run_delete [OF assms(1) i f] assms(2)
    by (intro inv_taken [OF assms(1) i f]) (auto simp: worker_finish_def only_def upd_future_def)
qed

lemma inv_done_timeout:
  assumes "r_inv g" "g_taker g i = Some TPut" "\<not> g_bad (timer_finish i g)"
  shows "r_inv (timer_finish i g)"
proof -
  have i: "i < g_next g" using assms by (simp add: known)
  obtain f where f: "g_futures g i = Some f" using assms(3) by (auto simp: timer_finish_def split: option.splits)
  let ?g = "upd_future i put_notify g"
  have u: "?g = g\<lparr>g_futures := (g_futures g)(i \<mapsto> put_notify f)\<rparr>" using f by (simp add: upd_future_def)
  have "f_exec f = 0" using slot_of [OF assms(1) i] f by (simp add: slot_def slot_ok_def)
  then have "delete_future i (run_callback i ?g) =
     g\<lparr>g_futures := (g_futures g)(i := None), g_called := g_called g @ (if f_callback f then [i] else [])\<rparr>"
    unfolding u by (simp add: run_callback_def delete_future_def executeInvokeCallback_def put_notify_def)
  then show ?thesis
    using f u assms(2)
    by (intro inv_taken [OF assms(1) i f]) (auto simp: timer_finish_def only_def Let_def)
qed

lemma inv_invoke:
  assumes "r_inv g" "Suc (g_cmds g) \<le> 2 ^ 32"
  shows "r_inv (invoke_insert async code timeoutMillis now g)"
proof -
  let ?h = "invoke_insert async code timeoutMillis now g" and ?i = "g_next g" and ?k = "s32 (int (g_cmds g))"
  have num: "g_num g j < g_cmds g" if "j < ?i" for j using assms(1) that by (simp add: r_inv_def)
  have old: "opaque_of g j \<noteq> ?k" if "j < ?i" for j
  proof -
    have "g_num g j < 2 ^ 32" "g_cmds g < 2 ^ 32" "g_num g j \<noteq> g_cmds g" using num [OF that] assms(2) by linarith+
    then show ?thesis by (simp add: opaque_of_def s32_inj)
  qed
  have new: "map_find ll_lt ?k (g_table g) = None"
    using find_entry(1,2) [OF assms(1)] old by (metis option.exhaust)
  have tab: "set (g_table ?h) = insert (?k, ?i) {e \<in> set (g_table g). fst e \<noteq> ?k}" "tab_wf (g_table ?h)"
    using new assms(1) by (simp_all add: invoke_insert_def Let_def ll.put_set ll.put_wf r_inv_def)
  have o: "opaque_of ?h ?i = ?k" "\<And>j. j < ?i \<Longrightarrow> opaque_of ?h j = opaque_of g j"
    by (auto simp: opaque_of_def invoke_insert_def Let_def)
  have it: "in_table ?h j = in_table g j" if "j < ?i" for j
    using tab old [OF that] o that by (auto simp: in_table_def)
  have "slot ?h j" if "j < Suc ?i" for j
  proof (cases "j = ?i")
    case True
    moreover have "?i \<notin> set (g_called g)" "g_taker g ?i = None" using assms(1) by (auto simp: r_inv_def)
    ultimately show ?thesis
      using tab o by (auto simp: slot_def slot_ok_def in_table_def invoke_insert_def ResponseFuture_new_def Let_def)
  next
    case False
    with that have j: "j < ?i" by simp
    with slot_of [OF assms(1) j] it [OF j] o(2) [OF j] False show ?thesis
      by (simp add: slot_def invoke_insert_def Let_def)
  qed
  moreover have "\<forall>(k, j) \<in> set (g_table ?h). j < Suc ?i \<and> k = opaque_of ?h j"
    using assms(1) tab(1) o by (auto simp: r_inv_def less_SucI)
  moreover have "\<forall>j < Suc ?i. g_num ?h j < g_cmds ?h \<and> (\<forall>l < j. g_num ?h l < g_num ?h j)"
    using assms(1) num by (auto simp: invoke_insert_def Let_def less_Suc_eq r_inv_def)
  moreover have "\<forall>j \<ge> Suc ?i. g_sender ?h j = None \<and> g_taker ?h j = None \<and> g_futures ?h j = None \<and> j \<notin> set (g_called ?h)"
    using assms(1) by (auto simp: r_inv_def invoke_insert_def Let_def)
  moreover have "distinct (g_called ?h)" "g_next ?h = Suc ?i" using assms(1) by (auto simp: r_inv_def invoke_insert_def Let_def)
  ultimately show ?thesis using tab(2) by (simp add: r_inv_def)
qed

lemma step_cmds: "step g h \<Longrightarrow> g_cmds g \<le> g_cmds h"
  by (induction rule: step.induct)
    (auto simp: other_command_def invoke_insert_def send_cmd_def mark_sent_def mark_failed_def erase_failed_def finish_failed_def
      wait_return_def worker_take_def worker_put_def worker_lose_def worker_finish_def timer_take_def timer_finish_def set_pc_def upd_future_def
      delete_future_def run_callback_def Let_def split: option.split prod.split)

lemma inv_step:
  assumes "step g h" "r_inv g" "g_cmds h \<le> 2 ^ 32" "\<not> g_bad h"
  shows "r_inv h"
proof -
  have c: "g_cmds g \<le> 2 ^ 32" using step_cmds [OF assms(1)] assms(3) by simp
  from assms(1) show ?thesis
  proof cases
    case other then show ?thesis using assms(2) inv_other by simp
  next
    case (invoke async code timeoutMillis now)
    then have "Suc (g_cmds g) \<le> 2 ^ 32" using assms(3) by (simp add: invoke_insert_def Let_def)
    then show ?thesis using invoke assms(2) inv_invoke by simp
  next
    case (sent i) then show ?thesis using assms(2,4) inv_mark [of g i True] by simp
  next
    case (failed i) then show ?thesis using assms(2,4) inv_mark [of g i False] by simp
  qed (use assms c inv_send inv_erase inv_finish inv_wait inv_take_response inv_put inv_lose inv_done_response inv_take_timeout inv_done_timeout in auto)
qed

lemma reachable_inv: "reachable g \<Longrightarrow> g_cmds g \<le> 2 ^ 32 \<Longrightarrow> \<not> g_bad g \<Longrightarrow> r_inv g"
proof (induction rule: reachable.induct)
  case init
  then show ?case by (simp add: inv_new)
next
  case (step g h)
  then have "g_cmds g \<le> 2 ^ 32" "\<not> g_bad g" using step_cmds [OF step.hyps(2)] by (auto elim: step.cases)
  with step show ?case using inv_step by blast
qed

text \<open>Where undefined behaviour can start: a sender that has not finished with a request another thread has taken out of the table,
  or a worker or the timer holding the future of a synchronous request whose sender has freed it.\<close>

definition race :: "remoting \<Rightarrow> nat \<Rightarrow> bool" where
  "race g i \<longleftrightarrow> i < g_next g \<and>
     (if g_async g i then \<not> in_table g i \<and> g_sender g i \<in> {Some SSent, Some SFailed, Some SFailMarked}
      else g_futures g i = None \<and> g_taker g i \<noteq> None)"

lemma race_sender:
  assumes "r_inv g" "g_sender g i \<in> {Some SSent, Some SFailed}" "g_futures g i = None"
  shows "race g i"
proof -
  have i: "i < g_next g" using assms(1,2) known [of g i] by auto
  then show ?thesis using slot_of [OF assms(1) i] assms(2,3) by (auto simp: race_def slot_def slot_ok_def)
qed

lemma race_taker:
  assumes "r_inv g" "g_taker g i \<noteq> None" "g_futures g i = None"
  shows "race g i"
proof -
  have i: "i < g_next g" using assms(1,2) known [of g i] by auto
  then show ?thesis using slot_of [OF assms(1) i] assms(2,3) by (auto simp: race_def slot_def slot_ok_def)
qed

lemma race_erase:
  assumes "r_inv g" "g_sender g i = Some SFailMarked" "g_async g i" "map_find ll_lt (opaque_of g i) (g_table g) = None"
  shows "race g i"
proof -
  have "tab_wf (g_table g)" using assms(1) by (simp add: r_inv_def)
  then have "\<not> in_table g i" using assms(4) ll.find_Some_iff [of "g_table g" "opaque_of g i" i] by (auto simp: in_table_def)
  then show ?thesis using assms known [of g i] by (auto simp: race_def)
qed

text \<open>The sender frees a future only once.\<close>

lemma finish_safe:
  assumes "r_inv g" "\<not> g_bad g" "g_sender g i = Some SErased"
  shows "\<not> g_bad (finish_failed i g)"
proof -
  have i: "i < g_next g" using assms by (simp add: known)
  obtain f where f: "g_futures g i = Some f" using slot_of [OF assms(1) i] assms(3) by (auto simp: slot_def slot_ok_def)
  show ?thesis
  proof (cases "g_async g i")
    case True
    then show ?thesis using assms(2) run_delete [OF assms(1) i f] by (simp add: finish_failed_def set_pc_def)
  next
    case False
    then show ?thesis using assms(2) f by (simp add: finish_failed_def set_pc_def delete_future_def)
  qed
qed

lemma wait_safe:
  assumes "r_inv g" "\<not> g_bad g" "g_sender g i = Some SWaiting"
  shows "\<not> g_bad (wait_return i g)"
proof -
  have i: "i < g_next g" using assms by (simp add: known)
  obtain f where f: "g_futures g i = Some f" using slot_of [OF assms(1) i] assms(3) by (auto simp: slot_def slot_ok_def)
  then show ?thesis using assms(2) by (auto simp: wait_return_def set_pc_def delete_future_def split: option.split)
qed

lemma completed_safe:
  assumes "\<not> g_bad g" "g_futures g i = Some f"
  shows "\<not> g_bad (worker_finish i g)" "\<not> g_bad (timer_finish i g)"
  using assms by (auto simp: worker_finish_def timer_finish_def delete_future_def run_callback_def upd_future_def Let_def split_beta)

lemma bad_step:
  assumes "step g h" "r_inv g" "g_cmds g \<le> 2 ^ 32" "g_bad h"
  shows "g_called h = g_called g \<and> (\<exists>i. race g i)"
  using assms(1)
proof cases
  case (sent i)
  then show ?thesis using assms(2,4) race_sender [of g i]
    by (auto simp: mark_sent_def set_pc_def upd_future_def split: option.splits)
next
  case (failed i)
  then show ?thesis using assms(2,4) race_sender [of g i]
    by (auto simp: mark_failed_def set_pc_def upd_future_def split: option.splits)
next
  case (erase i)
  then show ?thesis using assms(2,4) race_erase [of g i] by (auto simp: erase_failed_def set_pc_def split: if_splits)
next
  case (finish i)
  then show ?thesis using finish_safe assms(2,4) by blast
next
  case (wait i)
  then show ?thesis using wait_safe assms(2,4) by blast
next
  case (take_response c)
  then show ?thesis using inv_take_response [OF assms(2,3)] assms(4) by blast
next
  case (put i c)
  then show ?thesis using assms(2,4) race_taker [of g i] by (auto simp: worker_put_def upd_future_def split: option.splits)
next
  case (done_response i c)
  then show ?thesis using assms(2,4) race_taker [of g i] completed_safe(1) [of g i]
    by (cases "g_futures g i") (auto simp: worker_finish_def)
next
  case (take_timeout i now)
  then show ?thesis using inv_take_timeout [OF assms(2,3)] assms(4) by blast
next
  case (done_timeout i)
  then show ?thesis using assms(2,4) race_taker [of g i] completed_safe(2) [of g i]
    by (cases "g_futures g i") (auto simp: timer_finish_def)
qed (use assms(4) in \<open>auto simp: other_command_def invoke_insert_def send_cmd_def set_pc_def worker_lose_def Let_def\<close>)

lemma reachable_called: "reachable g \<Longrightarrow> g_cmds g \<le> 2 ^ 32 \<Longrightarrow> distinct (g_called g)"
proof (induction rule: reachable.induct)
  case init
  then show ?case by (simp add: remoting_new_def)
next
  case (step g h)
  then have g: "g_cmds g \<le> 2 ^ 32" "\<not> g_bad g" using step_cmds [OF step.hyps(2)] by (auto elim: step.cases)
  note inv = reachable_inv [OF step.hyps(1) g]
  show ?case
  proof (cases "g_bad h")
    case True
    then show ?thesis using bad_step [OF step.hyps(2) inv g(1)] step.IH g(1) by simp
  next
    case False
    then show ?thesis using inv_step [OF step.hyps(2) inv step.prems False] by (simp add: r_inv_def)
  qed
qed

section \<open>Properties\<close>

text \<open>
  C7. Asynchronous requests, for every interleaving of the sending threads, the workers and the timer, up to \<open>2 ^ 32\<close> commands. No callback runs
  twice in a run up to and including its first touch of a freed future, where the machine stops. Until a freed future is touched, a request whose \<open>invokeAsync\<close> has returned is in exactly one of three situations:
  still in the table, or taken out by one worker or by the timer and not yet called back, or called back. A worker that loses the future because the
  answer's header cannot be read (\<open>WLost\<close>) stays in the second situation for ever. And a freed future is touched for the first
  time only by a step from a state with a race: an asynchronous request taken out of the table while its sender has not yet
  finished, or a synchronous request freed by its sender while a worker or the timer holds it.
\<close>

theorem async_callback_at_most_once:
  assumes "reachable g" "g_cmds g \<le> 2 ^ 32"
  shows "distinct (g_called g) \<and>
    (\<not> g_bad g \<longrightarrow> (\<forall>i r. i < g_next g \<and> g_async g i \<and> g_sender g i = Some (SReturned r) \<longrightarrow>
       (if i \<in> set (g_called g) then \<not> in_table g i \<and> g_taker g i = None
        else if in_table g i then g_taker g i = None else g_taker g i \<noteq> None))) \<and>
    (\<forall>h. \<not> g_bad g \<and> step g h \<and> g_bad h \<longrightarrow> (\<exists>i. race g i))"
proof -
  have "if i \<in> set (g_called g) then \<not> in_table g i \<and> g_taker g i = None
        else if in_table g i then g_taker g i = None else g_taker g i \<noteq> None"
    if "\<not> g_bad g" "i < g_next g" "g_async g i" "g_sender g i = Some (SReturned r)" for i r
    using slot_of [OF reachable_inv [OF assms that(1)] that(2)] that by (auto simp: slot_def slot_ok_def)
  moreover have "\<exists>i. race g i" if "\<not> g_bad g" "step g h" "g_bad h" for h
    using bad_step [OF that(2) reachable_inv [OF assms that(1)] assms(2) that(3)] by blast
  ultimately show ?thesis using reachable_called [OF assms] by blast
qed

text \<open>
  C37. Responses reach the request they answer: a command that \<open>invokeSync\<close> returns carries the opaque of its own
  request, and no other request has that opaque.
\<close>

theorem response_matches_request:
  assumes "reachable g" "g_cmds g \<le> 2 ^ 32" "\<not> g_bad g" "g_sender g i = Some (SReturned (Some c))" "j < g_next g"
  shows "cmd_opaque c = opaque_of g i \<and> (opaque_of g j = cmd_opaque c \<longleftrightarrow> j = i)"
proof -
  have inv: "r_inv g" by (rule reachable_inv [OF assms(1-3)])
  have i: "i < g_next g" using inv assms(4) by (simp add: known)
  with slot_of [OF inv i] assms(4) opaque_inj [OF inv assms(2) assms(5) i] show ?thesis by (auto simp: slot_def slot_ok_def)
qed

definition sample_reply :: "int \<Rightarrow> RemotingCommand" where
  "sample_reply k = \<lparr>cmd_code = 0, cmd_language = ''JAVA'', cmd_version = 0, cmd_opaque = k, cmd_flag = 1, cmd_remark = '''',
     cmd_header = None, cmd_head = None, cmd_body = None\<rparr>"

lemmas machine_defs = other_command_def invoke_insert_def send_cmd_def mark_sent_def mark_failed_def erase_failed_def finish_failed_def
  wait_return_def worker_take_def worker_put_def worker_lose_def worker_finish_def timer_take_def timer_finish_def remoting_new_def
  ResponseFuture_new_def sample_reply_def slot_simps isTimeout_def

text \<open>Schedules: one action per step, executed when it is enabled.\<close>

datatype action =
    Invoke bool int int int | Send nat bool | Sent_OK nat | Sent_Failed nat | Erase nat | Finish nat | Wait nat
  | Reply RemotingCommand | Put nat | Lose nat | Reply_Done nat | Expire nat int | Expire_Done nat

definition exec :: "action \<Rightarrow> remoting \<Rightarrow> remoting option" where
  "exec a g =
     (if g_bad g then None
      else case a of
        Invoke async code timeoutMillis now \<Rightarrow> if g_lock g then None else Some (invoke_insert async code timeoutMillis now g)
      | Send i ok \<Rightarrow> if g_sender g i = Some SInserted then Some (send_cmd i ok g) else None
      | Sent_OK i \<Rightarrow> if g_sender g i = Some SSent then Some (mark_sent i g) else None
      | Sent_Failed i \<Rightarrow> if g_sender g i = Some SFailed then Some (mark_failed i g) else None
      | Erase i \<Rightarrow> if g_sender g i = Some SFailMarked \<and> \<not> g_lock g then Some (erase_failed i g) else None
      | Finish i \<Rightarrow> if g_sender g i = Some SErased then Some (finish_failed i g) else None
      | Wait i \<Rightarrow> if g_sender g i = Some SWaiting then Some (wait_return i g) else None
      | Reply c \<Rightarrow> if g_lock g then None else Some (worker_take c g)
      | Put i \<Rightarrow> (case g_taker g i of Some (WTaken c) \<Rightarrow> Some (worker_put i c g) | _ \<Rightarrow> None)
      | Lose i \<Rightarrow> (case g_taker g i of Some (WTaken c) \<Rightarrow> Some (worker_lose i g) | _ \<Rightarrow> None)
      | Reply_Done i \<Rightarrow> (case g_taker g i of Some (WPut c) \<Rightarrow> Some (worker_finish i g) | _ \<Rightarrow> None)
      | Expire i now \<Rightarrow> if \<not> g_lock g \<and> map_find ll_lt (opaque_of g i) (g_table g) = Some i then Some (timer_take i now g) else None
      | Expire_Done i \<Rightarrow> if g_taker g i = Some TPut then Some (timer_finish i g) else None)"

fun run :: "action list \<Rightarrow> remoting \<Rightarrow> remoting option" where
  "run [] g = Some g"
| "run (a # as) g = Option.bind (exec a g) (run as)"

lemma exec_step: "exec a g = Some h \<Longrightarrow> step g h"
  by (cases a) (auto simp: exec_def intro: step.intros split: if_splits option.splits taker_pc.splits)

lemma run_reachable: "reachable g \<Longrightarrow> run as g = Some h \<Longrightarrow> reachable h"
  by (induction as arbitrary: g) (auto simp: bind_eq_Some_conv dest: exec_step intro: reachable.step)

lemma zero_opaque: "s32 0 = 0"
  by (simp add: s32_def)

lemma sync_answered:
  "\<exists>g. run [Invoke False 10 3000 0, Send 0 True, Sent_OK 0, Reply (sample_reply 0), Put 0, Reply_Done 0, Wait 0] remoting_new = Some g
     \<and> g_sender g 0 = Some (SReturned (Some (sample_reply 0))) \<and> g_futures g 0 = None \<and> \<not> g_bad g \<and> g_cmds g = 1 \<and> g_next g = 1
     \<and> opaque_of g 0 = 0"
  by (simp add: exec_def machine_defs zero_opaque)

lemma async_answered:
  "\<exists>g. run [Invoke True 10 3000 0, Send 0 True, Sent_OK 0, Expire 0 5000, Expire_Done 0] remoting_new = Some g
     \<and> g_sender g 0 = Some (SReturned None) \<and> g_called g = [0] \<and> \<not> g_bad g \<and> g_cmds g = 1 \<and> g_next g = 1 \<and> g_async g 0"
  by (simp add: exec_def machine_defs zero_opaque)

theorem async_callback_at_most_once_witness:
  "\<exists>g. reachable g \<and> g_called g = [0] \<and> distinct (g_called g) \<and> \<not> in_table g 0 \<and> g_taker g 0 = None"
proof -
  obtain g where g: "run [Invoke True 10 3000 0, Send 0 True, Sent_OK 0, Expire 0 5000, Expire_Done 0] remoting_new = Some g"
    "g_sender g 0 = Some (SReturned None)" "g_called g = [0]" "\<not> g_bad g" "g_cmds g = 1" "g_next g = 1" "g_async g 0"
    using async_answered by blast
  have r: "reachable g" by (rule run_reachable [OF reachable.init g(1)])
  have "distinct (g_called g) \<and> (\<not> g_bad g \<longrightarrow> (\<forall>i r. i < g_next g \<and> g_async g i \<and> g_sender g i = Some (SReturned r) \<longrightarrow>
       (if i \<in> set (g_called g) then \<not> in_table g i \<and> g_taker g i = None
        else if in_table g i then g_taker g i = None else g_taker g i \<noteq> None)))"
    using async_callback_at_most_once [OF r] g(5) by simp
  with g r show ?thesis by (intro exI [of _ g]) simp
qed

theorem response_matches_request_witness:
  "\<exists>g. reachable g \<and> g_sender g 0 = Some (SReturned (Some (sample_reply 0))) \<and> cmd_opaque (sample_reply 0) = opaque_of g 0"
proof -
  obtain g where g: "run [Invoke False 10 3000 0, Send 0 True, Sent_OK 0, Reply (sample_reply 0), Put 0, Reply_Done 0, Wait 0] remoting_new = Some g"
    "g_sender g 0 = Some (SReturned (Some (sample_reply 0)))" "\<not> g_bad g" "g_cmds g = 1" "g_next g = 1"
    using sync_answered by blast
  have r: "reachable g" by (rule run_reachable [OF reachable.init g(1)])
  have "cmd_opaque (sample_reply 0) = opaque_of g 0 \<and> (opaque_of g 0 = cmd_opaque (sample_reply 0) \<longleftrightarrow> 0 = (0::nat))"
    by (rule response_matches_request [OF r _ g(3,2)]) (simp_all add: g(4,5))
  with g(2) r show ?thesis by blast
qed

text \<open>
  Three races on a freed future, each a schedule of the threads: an asynchronous answer is complete before the
  sender's \<open>setSendRequestOK\<close>; a synchronous waiter times out between the worker's assignment and its
  notification, reads the answer and deletes the future; and a failed asynchronous send erases an entry the timer has
  already removed.
\<close>

theorem completion_races:
  "(\<exists>g. run [Invoke True 10 3000 0, Send 0 True, Reply (sample_reply 0), Put 0, Reply_Done 0, Sent_OK 0] remoting_new = Some g \<and> g_bad g)
   \<and> (\<exists>g. run [Invoke False 10 3000 0, Send 0 True, Sent_OK 0, Reply (sample_reply 0), Put 0, Wait 0, Reply_Done 0] remoting_new = Some g \<and> g_bad g)
   \<and> (\<exists>g. run [Invoke True 10 3000 0, Send 0 False, Sent_Failed 0, Expire 0 5000, Expire_Done 0, Erase 0] remoting_new = Some g \<and> g_bad g)"
  by (intro conjI; simp add: exec_def machine_defs zero_opaque)

text \<open>A future nobody can free: synchronous, its caller gone.\<close>

lemma abandoned_step:
  assumes "step g h" "r_inv g" "\<not> g_async g i" "g_sender g i = Some (SReturned None)" "g_futures g i \<noteq> None"
  shows "\<not> g_async h i \<and> g_sender h i = Some (SReturned None) \<and> g_futures h i \<noteq> None"
proof -
  have i: "i < g_next g" using assms by (simp add: known)
  have cb: "f_callback f = False" if "g_futures g i = Some f" for f
    using slot_of [OF assms(2) i] assms(3) that by (simp add: slot_def slot_ok_def)
  from assms(1) show ?thesis
  proof cases
    case (done_response j c)
    then show ?thesis using assms cb
      by (cases "j = i") (auto simp: worker_finish_def run_callback_def delete_future_def upd_future_def Let_def split_beta split: option.splits)
  next
    case (done_timeout j)
    then show ?thesis using assms cb
      by (cases "j = i") (auto simp: timer_finish_def run_callback_def delete_future_def upd_future_def Let_def split_beta split: option.splits)
  next
    case (wait j)
    then show ?thesis using assms
      by (cases "j = i") (auto simp: wait_return_def set_pc_def delete_future_def split: option.splits)
  next
    case (finish j)
    then show ?thesis using assms
      by (cases "j = i") (auto simp: finish_failed_def set_pc_def delete_future_def run_callback_def Let_def split_beta split: option.splits)
  qed (use assms i in \<open>auto simp: other_command_def invoke_insert_def send_cmd_def mark_sent_def mark_failed_def erase_failed_def
      worker_take_def worker_put_def worker_lose_def timer_take_def set_pc_def upd_future_def Let_def split: option.splits\<close>)
qed

text \<open>A property of one request that every step keeps, carried through a schedule.\<close>

lemma run_keeps:
  assumes "reachable g" "run as g = Some h" "g_cmds h \<le> 2 ^ 32" "\<not> g_bad h" "P g"
    and "\<And>g h. step g h \<Longrightarrow> r_inv g \<Longrightarrow> g_cmds g \<le> 2 ^ 32 \<Longrightarrow> P g \<Longrightarrow> P h"
  shows "P h"
  using assms(1,2,5)
proof (induction as arbitrary: g)
  case Nil
  then show ?case by simp
next
  case (Cons a as)
  then obtain m where m: "exec a g = Some m" "run as m = Some h" by (auto simp: bind_eq_Some_conv)
  have s: "step g m" by (rule exec_step [OF m(1)])
  have "run bs x = Some y \<Longrightarrow> g_cmds x \<le> g_cmds y" for bs x y
  proof (induction bs arbitrary: x)
    case (Cons b bs)
    then obtain z where z: "exec b x = Some z" "run bs z = Some y" by (auto simp: bind_eq_Some_conv)
    with Cons.IH [of z] step_cmds [OF exec_step [OF z(1)]] show ?case by auto
  qed simp
  from this [OF m(2)] have c: "g_cmds g \<le> 2 ^ 32" using step_cmds [OF s] assms(3) by simp
  have "\<not> g_bad g" using m(1) by (auto simp: exec_def)
  from reachable_inv [OF Cons.prems(1) c this] have "P m" by (rule assms(6) [OF s _ c Cons.prems(3)])
  then show ?case by (rule Cons.IH [OF reachable.step [OF Cons.prems(1) s] m(2)])
qed

text \<open>
  A synchronous request whose wait timed out is never released: its future stays allocated in every
  state the machine reaches from there, whether the answer still comes or the timer drops it.
\<close>

theorem timed_out_future_leaks:
  assumes "reachable g" "run as g = Some h" "g_cmds h \<le> 2 ^ 32" "\<not> g_bad h"
    and "\<not> g_async g i" "g_sender g i = Some (SReturned None)" "g_futures g i \<noteq> None"
  shows "g_futures h i \<noteq> None"
proof -
  have "\<not> g_async h i \<and> g_sender h i = Some (SReturned None) \<and> g_futures h i \<noteq> None"
    by (rule run_keeps [OF assms(1-4)]) (use assms(5-7) abandoned_step in blast)+
  then show ?thesis by blast
qed

theorem timed_out_future_leaks_witness:
  "\<exists>g h. reachable g \<and> run [Reply (sample_reply 0), Put 0, Reply_Done 0] g = Some h \<and> g_futures h 0 \<noteq> None"
proof -
  obtain g where g: "run [Invoke False 10 3000 0, Send 0 True, Sent_OK 0, Wait 0] remoting_new = Some g"
    "\<not> g_async g 0" "g_sender g 0 = Some (SReturned None)" "g_futures g 0 \<noteq> None"
    "\<exists>h. run [Reply (sample_reply 0), Put 0, Reply_Done 0] g = Some h \<and> g_cmds h = 1 \<and> \<not> g_bad h"
    by (simp add: exec_def machine_defs zero_opaque)
  then obtain h where h: "run [Reply (sample_reply 0), Put 0, Reply_Done 0] g = Some h" "g_cmds h = 1" "\<not> g_bad h" by blast
  have r: "reachable g" by (rule run_reachable [OF reachable.init g(1)])
  from timed_out_future_leaks [OF r h(1) _ h(3) g(2-4)] h(2) r h(1) show ?thesis by auto
qed

text \<open>
  An asynchronous request whose answer arrives with a header that cannot be read is lost: its callback does not run in any later state,
  not even with a timeout.
\<close>

lemma lost_step:
  assumes "step g h" "r_inv g" "g_cmds g \<le> 2 ^ 32" "g_taker g i = Some WLost"
  shows "g_taker h i = Some WLost"
proof -
  have i: "i < g_next g" using assms by (simp add: known)
  have t: "\<not> in_table g i" using slot_of [OF assms(2) i] assms(4) by (auto simp: slot_def slot_ok_def)
  have nf: "map_find ll_lt k (g_table g) \<noteq> Some i" for k using find_entry(3) [OF assms(2)] t by blast
  from assms(1) show ?thesis
  proof cases
    case (take_response c)
    then show ?thesis using assms(4) nf [of "cmd_opaque c"] by (auto simp: worker_take_def split: option.splits)
  next
    case (take_timeout j now)
    then have "j \<noteq> i" using nf by auto
    then show ?thesis using assms(4) take_timeout by (auto simp: timer_take_def upd_future_def split: option.splits)
  qed (use assms(4) in \<open>auto simp: other_command_def invoke_insert_def send_cmd_def mark_sent_def mark_failed_def erase_failed_def finish_failed_def
      wait_return_def worker_put_def worker_lose_def worker_finish_def timer_finish_def set_pc_def upd_future_def delete_future_def run_callback_def Let_def
      split_beta split: option.splits\<close>)
qed

theorem unreadable_answer_never_called:
  assumes "reachable g" "run as g = Some h" "g_cmds h \<le> 2 ^ 32" "\<not> g_bad h" "g_taker g i = Some WLost"
  shows "i \<notin> set (g_called h)"
proof -
  have l: "g_taker h i = Some WLost" by (rule run_keeps [OF assms(1-4)]) (use assms(5) lost_step in blast)+
  have inv: "r_inv h" by (rule reachable_inv [OF run_reachable [OF assms(1,2)] assms(3,4)])
  have "i < g_next h" using inv l by (simp add: known)
  from slot_of [OF inv this] l show ?thesis by (auto simp: slot_def slot_ok_def)
qed

theorem unreadable_answer_never_called_witness:
  "\<exists>g. reachable g \<and> g_async g 0 \<and> g_sender g 0 = Some (SReturned None) \<and> g_taker g 0 = Some WLost \<and>
     (\<forall>as h. run as g = Some h \<and> g_cmds h \<le> 2 ^ 32 \<and> \<not> g_bad h \<longrightarrow> 0 \<notin> set (g_called h))"
proof -
  obtain g where g: "run [Invoke True 10 3000 0, Send 0 True, Sent_OK 0, Reply (sample_reply 0), Lose 0] remoting_new = Some g"
    "g_async g 0" "g_sender g 0 = Some (SReturned None)" "g_taker g 0 = Some WLost"
    by (simp add: exec_def machine_defs zero_opaque)
  have "reachable g" by (rule run_reachable [OF reachable.init g(1)])
  with g unreadable_answer_never_called show ?thesis by blast
qed

section \<open>The connections\<close>

text \<open>\<open>m_tcpTransportTable\<close>, the transports it points to, the descriptor set and \<open>m_maxFd\<close> of the event thread.
  \<open>None\<close> is following a dangling pointer. \<open>n_closed\<close> logs the descriptors closed.\<close>

record net =
  n_table :: "(string, nat) smap"
  n_heap :: "nat \<Rightarrow> transport option"
  n_next :: nat
  n_rset :: "int list"
  n_maxFd :: int
  n_closed :: "int list"

fun update_loop :: "(string, nat) smap \<Rightarrow> net \<Rightarrow> net option" where
  "update_loop [] n = Some n"
| "update_loop ((addr, p) # es) n =
     (case n_heap n p of None \<Rightarrow> None
      | Some t \<Rightarrow>
          if \<not> IsConnected t then update_loop es n
          else update_loop es (n\<lparr>n_rset := t_sfd t # n_rset n, n_maxFd := (if t_sfd t > n_maxFd n then t_sfd t else n_maxFd n)\<rparr>))"

definition UpdateEvent :: "net \<Rightarrow> net option" where
  "UpdateEvent n = update_loop (n_table n) (n\<lparr>n_maxFd := 0, n_rset := []\<rparr>)"

text \<open>The result is the transport's address or null.\<close>

definition create_transport :: "(int \<Rightarrow> bool) \<Rightarrow> connect_env \<Rightarrow> string \<Rightarrow> net \<Rightarrow> (nat option \<times> net) option" where
  "create_transport alloc env addr n =
     (let (iRet, closed, tts) = Connect env addr (TcpTransport_new alloc []);
          n = n\<lparr>n_closed := n_closed n @ closed\<rparr>
      in if iRet \<noteq> CLIENT_ERROR_SUCCESS then Some (None, n\<lparr>n_closed := n_closed n @ TcpTransport_delete tts\<rparr>)
         else
           let p = n_next n;
               n = n\<lparr>n_heap := (n_heap n)(p \<mapsto> tts), n_next := Suc p, n_table := map_put str_lt addr p (n_table n)\<rparr>
           in map_option (\<lambda>n. (Some p, n)) (UpdateEvent n))"

definition GetAndCreateTransport :: "(int \<Rightarrow> bool) \<Rightarrow> connect_env \<Rightarrow> string \<Rightarrow> net \<Rightarrow> (nat option \<times> net) option" where
  "GetAndCreateTransport alloc env addr n =
     (case map_find str_lt addr (n_table n) of
        None \<Rightarrow> create_transport alloc env addr n
      | Some p \<Rightarrow>
          (case n_heap n p of None \<Rightarrow> None
           | Some tts \<Rightarrow>
               if IsConnected tts then Some (Some p, n)
               else create_transport alloc env addr
                      (n\<lparr>n_table := map_erase str_lt addr (n_table n), n_heap := (n_heap n)(p := None),
                         n_closed := n_closed n @ TcpTransport_delete tts\<rparr>)))"

text \<open>Reading every ready connection. An exception loses the packets collected so far: \<open>HThrows\<close>.\<close>

datatype socket_event = HData "string list" bool net | HThrows net | HUndefined

fun socket_loop :: "(int \<Rightarrow> bool) \<Rightarrow> (nat \<Rightarrow> recv_result) \<Rightarrow> int list \<Rightarrow> (string, nat) smap \<Rightarrow> string list \<Rightarrow> bool \<Rightarrow> net \<Rightarrow> socket_event option" where
  "socket_loop alloc recv rset [] data bUpdate n = Some (HData data bUpdate n)"
| "socket_loop alloc recv rset ((addr, p) # es) data bUpdate n =
     (case n_heap n p of None \<Rightarrow> Some HUndefined
      | Some tts \<Rightarrow>
          if t_sfd tts \<in> set rset then
            (case RecvData alloc (recv p) tts of None \<Rightarrow> None
             | Some (ret, PDone out t) \<Rightarrow>
                 socket_loop alloc recv rset es (data @ out) (if ret \<le> 0 then True else bUpdate) (n\<lparr>n_heap := (n_heap n)(p \<mapsto> t)\<rparr>)
             | Some (ret, PThrows out t) \<Rightarrow> Some (HThrows (n\<lparr>n_heap := (n_heap n)(p \<mapsto> t)\<rparr>))
             | Some (ret, PUndefined) \<Rightarrow> Some HUndefined)
          else socket_loop alloc recv rset es data bUpdate n)"

text \<open>The packets handed to the thread pool.\<close>

definition HandleSocketEvent :: "(int \<Rightarrow> bool) \<Rightarrow> (nat \<Rightarrow> recv_result) \<Rightarrow> int list \<Rightarrow> net \<Rightarrow> socket_event option" where
  "HandleSocketEvent alloc recv rset n =
     (case socket_loop alloc recv rset (n_table n) [] False n of
        Some (HData data bUpdate n) \<Rightarrow>
          if bUpdate then (case UpdateEvent n of None \<Rightarrow> Some HUndefined | Some n \<Rightarrow> Some (HData data bUpdate n))
          else Some (HData data bUpdate n)
      | r \<Rightarrow> r)"

text \<open>The timer runs at most every 10 milliseconds: the new \<open>s_LastTimer\<close>, \<open>None\<close> when it does not run.\<close>

definition timer_due :: "int \<Rightarrow> int \<Rightarrow> int option" where
  "timer_due s_LastTimer tm = (if tm < s_LastTimer + 10 then None else Some tm)"

definition net_ok :: "net \<Rightarrow> bool" where
  "net_ok n \<longleftrightarrow> map_wf str_lt any_key (n_table n) \<and> (\<forall>(addr, p) \<in> set (n_table n). p < n_next n \<and> n_heap n p \<noteq> None)
     \<and> (\<forall>p \<ge> n_next n. n_heap n p = None) \<and> inj_on snd (set (n_table n))"

lemma update_loop_spec:
  "(\<forall>(addr, p) \<in> set es. n_heap n p \<noteq> None) \<Longrightarrow>
   \<exists>m. update_loop es n = Some m \<and> n_table m = n_table n \<and> n_heap m = n_heap n \<and> n_next m = n_next n
     \<and> set (n_rset m) = set (n_rset n) \<union> {t_sfd t |t addr p. (addr, p) \<in> set es \<and> n_heap n p = Some t \<and> IsConnected t}
     \<and> n_maxFd n \<le> n_maxFd m \<and> (\<forall>t addr p. (addr, p) \<in> set es \<and> n_heap n p = Some t \<and> IsConnected t \<longrightarrow> t_sfd t \<le> n_maxFd m)"
proof (induction es arbitrary: n)
  case Nil
  then show ?case by simp
next
  case (Cons e es)
  obtain addr p where e: "e = (addr, p)" by (cases e)
  obtain t where t: "n_heap n p = Some t" using Cons.prems e by auto
  let ?n = "if IsConnected t then n\<lparr>n_rset := t_sfd t # n_rset n, n_maxFd := (if t_sfd t > n_maxFd n then t_sfd t else n_maxFd n)\<rparr> else n"
  have same: "n_heap ?n = n_heap n" "n_table ?n = n_table n" "n_next ?n = n_next n" by simp_all
  have pr: "\<forall>(addr, p) \<in> set es. n_heap ?n p \<noteq> None" unfolding same using Cons.prems by simp
  obtain m where m: "update_loop es ?n = Some m" "n_table m = n_table n" "n_heap m = n_heap n" "n_next m = n_next n"
    "set (n_rset m) = set (n_rset ?n) \<union> {t_sfd t |t addr p. (addr, p) \<in> set es \<and> n_heap n p = Some t \<and> IsConnected t}"
    "n_maxFd ?n \<le> n_maxFd m" "\<forall>t addr p. (addr, p) \<in> set es \<and> n_heap n p = Some t \<and> IsConnected t \<longrightarrow> t_sfd t \<le> n_maxFd m"
    using Cons.IH [OF pr] unfolding same by (elim exE conjE) rule
  have "update_loop (e # es) n = Some m" using m(1) t e by (simp split: if_splits)
  moreover have "set (n_rset m) = set (n_rset n) \<union> {t_sfd t |t addr p. (addr, p) \<in> set (e # es) \<and> n_heap n p = Some t \<and> IsConnected t}"
    using m(5) t e by (auto split: if_splits)
  moreover have "n_maxFd n \<le> n_maxFd m" "IsConnected t \<Longrightarrow> t_sfd t \<le> n_maxFd m" using m(6) by (auto split: if_splits)
  ultimately show ?case using m(2-4,7) t e by auto
qed

lemma Connect_success:
  "Connect env addr (TcpTransport_new alloc []) = (CLIENT_ERROR_SUCCESS, closed, t) \<Longrightarrow> IsConnected t"
  by (auto simp: Connect_def TcpTransport_new_def IsConnected_def Let_def split: if_splits option.splits prod.splits)

definition watches :: "net \<Rightarrow> bool" where
  "watches m \<longleftrightarrow> set (n_rset m) = {t_sfd t |t a q. (a, q) \<in> set (n_table m) \<and> n_heap m q = Some t \<and> IsConnected t}"

lemma create_transport_spec:
  assumes "net_ok n"
  shows "\<exists>r m. create_transport alloc env addr n = Some (r, m) \<and> net_ok m
    \<and> (case r of None \<Rightarrow> True
       | Some p \<Rightarrow> \<exists>t. n_heap m p = Some t \<and> IsConnected t \<and> map_find str_lt addr (n_table m) = Some p \<and> watches m)"
proof -
  obtain e closed t where c: "Connect env addr (TcpTransport_new alloc []) = (e, closed, t)" by (metis prod.collapse)
  show ?thesis
  proof (cases "e = CLIENT_ERROR_SUCCESS")
    case False
    then show ?thesis using assms c by (simp add: create_transport_def net_ok_def)
  next
    case True
    let ?p = "n_next n"
    let ?n = "n\<lparr>n_closed := n_closed n @ closed, n_heap := (n_heap n)(?p \<mapsto> t), n_next := Suc ?p, n_table := map_put str_lt addr ?p (n_table n)\<rparr>"
    have tab: "set (n_table ?n) = insert (addr, ?p) {e \<in> set (n_table n). fst e \<noteq> addr}" "map_wf str_lt any_key (n_table ?n)"
      using assms by (simp_all add: net_ok_def str.put_set str.put_wf)
    have "inj_on snd (set (n_table ?n))" using assms unfolding tab(1) net_ok_def inj_on_def by fastforce
    then have ok: "net_ok ?n" using assms tab by (auto simp: net_ok_def less_SucI)
    then have "\<forall>(addr, p) \<in> set (n_table ?n). n_heap ?n p \<noteq> None" by (auto simp: net_ok_def)
    then have "\<forall>(addr, p) \<in> set (n_table ?n). n_heap (?n\<lparr>n_maxFd := 0, n_rset := []\<rparr>) p \<noteq> None" by simp
    from update_loop_spec [OF this] obtain m where m: "UpdateEvent ?n = Some m" "n_table m = n_table ?n" "n_heap m = n_heap ?n"
      "n_next m = n_next ?n" "set (n_rset m) = {t_sfd t |t a q. (a, q) \<in> set (n_table ?n) \<and> n_heap ?n q = Some t \<and> IsConnected t}"
      by (auto simp: UpdateEvent_def)
    have "IsConnected t" using Connect_success c True by blast
    moreover have "map_find str_lt addr (n_table m) = Some ?p" using m(2) assms by (simp add: str.find_put net_ok_def)
    moreover have "watches m" unfolding watches_def m(2,3) by (rule m(5))
    moreover have "net_ok m" using ok m(2-4) by (simp add: net_ok_def)
    moreover have "n_heap m ?p = Some t" using m(3) by simp
    moreover have "create_transport alloc env addr n = Some (Some ?p, m)" using c True m(1) by (simp add: create_transport_def)
    ultimately show ?thesis by auto
  qed
qed

text \<open>
  \<open>GetAndCreateTransport\<close> returns null or a connected transport that the table holds under the address;
  after a new connection the event thread watches exactly the descriptors of the connected transports.
\<close>

theorem GetAndCreateTransport_spec:
  assumes "net_ok n"
  shows "\<exists>r m. GetAndCreateTransport alloc env addr n = Some (r, m) \<and> net_ok m
    \<and> (case r of None \<Rightarrow> True
       | Some p \<Rightarrow> \<exists>t. n_heap m p = Some t \<and> IsConnected t \<and> map_find str_lt addr (n_table m) = Some p \<and> (m = n \<or> watches m))"
proof (cases "map_find str_lt addr (n_table n)")
  case None
  with create_transport_spec [OF assms, of alloc env addr] show ?thesis
    by (fastforce simp: GetAndCreateTransport_def split: option.splits)
next
  case (Some p)
  then have "(addr, p) \<in> set (n_table n)" using assms by (simp add: str.find_Some_iff net_ok_def)
  then obtain t where t: "n_heap n p = Some t" using assms by (auto simp: net_ok_def)
  show ?thesis
  proof (cases "IsConnected t")
    case True
    with Some t assms show ?thesis by (simp add: GetAndCreateTransport_def)
  next
    case False
    let ?n = "n\<lparr>n_table := map_erase str_lt addr (n_table n), n_heap := (n_heap n)(p := None), n_closed := n_closed n @ TcpTransport_delete t\<rparr>"
    have tab: "set (n_table ?n) = {e \<in> set (n_table n). fst e \<noteq> addr}" "map_wf str_lt any_key (n_table ?n)"
      using assms by (simp_all add: net_ok_def str.erase_set str.erase_wf)
    have "q \<noteq> p" if "(a, q) \<in> set (n_table ?n)" for a q
    proof
      assume "q = p"
      with that tab have "(a, p) \<in> set (n_table n)" "a \<noteq> addr" by auto
      with assms \<open>(addr, p) \<in> set (n_table n)\<close> show False by (fastforce simp: net_ok_def inj_on_def)
    qed
    moreover have "inj_on snd (set (n_table ?n))" using assms tab(1) by (auto simp: net_ok_def inj_on_def)
    ultimately have "net_ok ?n" using assms tab by (fastforce simp: net_ok_def)
    from create_transport_spec [OF this, of alloc env addr] Some t False show ?thesis
      by (fastforce simp: GetAndCreateTransport_def split: option.splits)
  qed
qed

definition sample_net :: net where
  "sample_net = \<lparr>n_table = [], n_heap = (\<lambda>_. None), n_next = 0, n_rset = [], n_maxFd = 0, n_closed = []\<rparr>"

theorem GetAndCreateTransport_spec_witness:
  "\<exists>r m. GetAndCreateTransport (\<lambda>_. True) \<lparr>ce_fd = 5, ce_nonblocking = 0, ce_noDelay = 0, ce_connect = (\<lambda>_ _. 0), ce_inProgress = False,
      ce_select = 0, ce_writable = True, ce_getsockopt = 0, ce_opterr = 0\<rparr> ''127.0.0.1:9876'' sample_net = Some (r, m) \<and> net_ok m
    \<and> (case r of None \<Rightarrow> True
       | Some p \<Rightarrow> \<exists>t. n_heap m p = Some t \<and> IsConnected t \<and> map_find str_lt ''127.0.0.1:9876'' (n_table m) = Some p \<and> (m = sample_net \<or> watches m))"
  by (rule GetAndCreateTransport_spec) (simp add: net_ok_def sample_net_def)

end
