(* ===== verification/Message_Queue.thy ===== *)
theory Message_Queue
  imports Prelude
begin

text \<open>
  \<open>MessageQueue\<close> (\<open>src/src/message/MessageQueue.cpp\<close>): the triple that names a queue on a
  broker, its equality and the order \<open>std::map<MessageQueue, _>\<close> and
  \<open>std::set<MessageQueue>\<close> use. The order compares C strings with \<open>strcmp\<close> and
  subtracts queue ids in \<open>int\<close>; it is a strict total order on the queues that satisfy
  \<open>mq_ok\<close> (no NUL byte in the names, a non-negative queue id), which is the content of
  the interpretation \<open>mq\<close> of the container contract.
\<close>

record MessageQueue =
  m_topic :: string
  m_brokerName :: string
  m_queueId :: int

definition mq_make :: "string \<Rightarrow> string \<Rightarrow> int \<Rightarrow> MessageQueue" where
  "mq_make topic brokerName queueId =
     \<lparr>m_topic = topic, m_brokerName = brokerName, m_queueId = queueId\<rparr>"

definition mq_hashCode :: "MessageQueue \<Rightarrow> int" where
  "mq_hashCode mq = (let result = 1 in result)"

definition mq_eq :: "MessageQueue \<Rightarrow> MessageQueue \<Rightarrow> bool" where
  "mq_eq this mq =
     (if m_brokerName this \<noteq> m_brokerName mq then False
      else if m_queueId this \<noteq> m_queueId mq then False
      else if m_topic this \<noteq> m_topic mq then False
      else True)"

definition mq_compareTo :: "MessageQueue \<Rightarrow> MessageQueue \<Rightarrow> int" where
  "mq_compareTo this mq =
     (let r = strcmp (m_topic this) (m_topic mq) in
      if r \<noteq> 0 then r
      else let r = strcmp (m_brokerName this) (m_brokerName mq) in
        if r \<noteq> 0 then r
        else s32 (m_queueId this - m_queueId mq))"

definition mq_lt :: "MessageQueue \<Rightarrow> MessageQueue \<Rightarrow> bool" where
  "mq_lt this mq \<longleftrightarrow> mq_compareTo this mq < 0"

definition mq_ok :: "MessageQueue \<Rightarrow> bool" where
  "mq_ok mq \<longleftrightarrow> no_nul (m_topic mq) \<and> no_nul (m_brokerName mq) \<and>
     0 \<le> m_queueId mq \<and> m_queueId mq < 2 ^ 31"

lemma mq_eq_iff: "mq_eq a b \<longleftrightarrow> a = b"
  by (cases a; cases b) (auto simp: mq_eq_def)

lemma mq_diff_s32: "mq_ok a \<Longrightarrow> mq_ok b \<Longrightarrow> s32 (m_queueId a - m_queueId b) = m_queueId a - m_queueId b"
  by (rule s32_id) (auto simp: mq_ok_def)

lemma strcmp_less: "no_nul a \<Longrightarrow> no_nul b \<Longrightarrow> strcmp a b < 0 \<longleftrightarrow> str_lt a b"
  by (simp add: strcmp_def)

lemma strcmp_eq: "no_nul a \<Longrightarrow> no_nul b \<Longrightarrow> strcmp a b = 0 \<longleftrightarrow> a = b"
  using str_lt_total [of a b] str_lt_irrefl [of a] by (auto simp: strcmp_def)

text \<open>On the queues in use the order is lexicographic in topic, broker name and queue id.\<close>

lemma mq_lt_iff:
  assumes "mq_ok a" "mq_ok b"
  shows "mq_lt a b \<longleftrightarrow>
    str_lt (m_topic a) (m_topic b) \<or>
    (m_topic a = m_topic b \<and>
      (str_lt (m_brokerName a) (m_brokerName b) \<or>
       (m_brokerName a = m_brokerName b \<and> m_queueId a < m_queueId b)))"
proof -
  have t: "strcmp (m_topic a) (m_topic b) < 0 \<longleftrightarrow> str_lt (m_topic a) (m_topic b)"
    "strcmp (m_topic a) (m_topic b) = 0 \<longleftrightarrow> m_topic a = m_topic b"
    and n: "strcmp (m_brokerName a) (m_brokerName b) < 0 \<longleftrightarrow> str_lt (m_brokerName a) (m_brokerName b)"
    "strcmp (m_brokerName a) (m_brokerName b) = 0 \<longleftrightarrow> m_brokerName a = m_brokerName b"
    using assms by (auto simp: mq_ok_def strcmp_less strcmp_eq)
  from mq_diff_s32 [OF assms] t n show ?thesis
    by (auto simp: mq_lt_def mq_compareTo_def Let_def str_lt_irrefl)
qed

interpretation mq: std_map mq_lt mq_ok
proof unfold_locales
  fix x assume "mq_ok x"
  then show "\<not> mq_lt x x" by (simp add: mq_lt_iff str_lt_irrefl)
next
  fix x y z assume ok: "mq_ok x" "mq_ok y" "mq_ok z" and "mq_lt x y" "mq_lt y z"
  then show "mq_lt x z" using str_lt_trans by (auto simp: mq_lt_iff)
next
  fix x y assume ok: "mq_ok x" "mq_ok y" and "x \<noteq> y"
  then have "m_topic x \<noteq> m_topic y \<or> m_brokerName x \<noteq> m_brokerName y \<or> m_queueId x \<noteq> m_queueId y"
    by (cases x; cases y) auto
  with ok show "mq_lt x y \<or> mq_lt y x"
    using str_lt_total [of "m_topic x" "m_topic y"] str_lt_total [of "m_brokerName x" "m_brokerName y"]
      linorder_less_linear [of "m_queueId x" "m_queueId y"]
    by (simp add: mq_lt_iff) metis
qed

end
