(* ===== verification/Topic_Route.thy ===== *)
theory Topic_Route
  imports Remoting_Command Message_Queue Flags_Config "HOL-Library.Multiset"
begin

text \<open>
  Routes: \<open>TopicRouteData\<close> with \<open>QueueData\<close> and \<open>BrokerData\<close> (\<open>src/src/protocol/TopicRouteData.h\<close>),
  \<open>TopicPublishInfo\<close> (\<open>src/src/producer/TopicPublishInfo.h\<close>) and the conversions of \<open>MQClientFactory\<close>
  (\<open>src/src/MQClientFactory.cpp\<close>): what a name server answer means for producers and consumers, and when a new
  answer counts as a change. The queue pointers of \<open>TopicPublishInfo\<close> are owned and copied deeply; the model holds
  the queues. Accesses through the JSON library end in \<open>jres\<close>: a value, an exception of the library, or a failed
  assertion.
\<close>

section \<open>std::list::sort\<close>

fun list_insert :: "('a \<Rightarrow> 'a \<Rightarrow> bool) \<Rightarrow> 'a \<Rightarrow> 'a list \<Rightarrow> 'a list" where
  "list_insert lt x [] = [x]"
| "list_insert lt x (y # ys) = (if lt y x then y # list_insert lt x ys else x # y # ys)"

definition list_sort :: "('a \<Rightarrow> 'a \<Rightarrow> bool) \<Rightarrow> 'a list \<Rightarrow> 'a list" where
  "list_sort lt xs = foldr (list_insert lt) xs []"

section \<open>TopicRouteData\<close>

record QueueData =
  qd_brokerName :: string
  qd_readQueueNums :: int
  qd_writeQueueNums :: int
  qd_perm :: int

record BrokerData =
  bd_brokerName :: string
  bd_brokerAddrs :: "(int, string) smap"

record TopicRouteData =
  m_orderTopicConf :: string
  m_queueDatas :: "QueueData list"
  m_brokerDatas :: "BrokerData list"

definition qd_lt :: "QueueData \<Rightarrow> QueueData \<Rightarrow> bool" where
  "qd_lt this other \<longleftrightarrow> str_lt (qd_brokerName this) (qd_brokerName other)"

definition bd_lt :: "BrokerData \<Rightarrow> BrokerData \<Rightarrow> bool" where
  "bd_lt this other \<longleftrightarrow> str_lt (bd_brokerName this) (bd_brokerName other)"

definition qd_eq :: "QueueData \<Rightarrow> QueueData \<Rightarrow> bool" where
  "qd_eq this other \<longleftrightarrow> qd_brokerName this = qd_brokerName other \<and> qd_readQueueNums this = qd_readQueueNums other
     \<and> qd_writeQueueNums this = qd_writeQueueNums other \<and> qd_perm this = qd_perm other"

definition bd_eq :: "BrokerData \<Rightarrow> BrokerData \<Rightarrow> bool" where
  "bd_eq this other \<longleftrightarrow> bd_brokerName this = bd_brokerName other \<and> bd_brokerAddrs this = bd_brokerAddrs other"

definition route_eq :: "TopicRouteData \<Rightarrow> TopicRouteData \<Rightarrow> bool" where
  "route_eq this other =
     (if \<not> list_all2 bd_eq (m_brokerDatas this) (m_brokerDatas other) then False
      else if m_orderTopicConf this \<noteq> m_orderTopicConf other then False
      else if \<not> list_all2 qd_eq (m_queueDatas this) (m_queueDatas other) then False
      else True)"

datatype 'a jres = JOk 'a | JThrows | JAborts

fun jbind :: "'a jres \<Rightarrow> ('a \<Rightarrow> 'b jres) \<Rightarrow> 'b jres" where
  "jbind (JOk x) f = f x"
| "jbind JThrows f = JThrows"
| "jbind JAborts f = JAborts"

definition at_member :: "json \<Rightarrow> string \<Rightarrow> json jres" where
  \<comment> \<open>\<open>operator[](const char*)\<close>\<close>
  "at_member j k = (case jget j k of None \<Rightarrow> JAborts | Some v \<Rightarrow> JOk v)"

definition as_string :: "json \<Rightarrow> string jres" where
  "as_string j = (case asString j of None \<Rightarrow> JThrows | Some s \<Rightarrow> JOk s)"

definition as_int :: "json \<Rightarrow> int jres" where
  "as_int j = (case asInt j of None \<Rightarrow> JThrows | Some i \<Rightarrow> JOk i)"

text \<open>\<open>size()\<close> and \<open>operator[](size_t)\<close> together: the elements the loop \<open>for (i = 0; i < v.size(); i++)\<close>
  visits. An object has a size, but indexing it fails.\<close>

definition elements :: "json \<Rightarrow> json list jres" where
  "elements j = (case j of JArr js \<Rightarrow> JOk js | JObj ms \<Rightarrow> if ms = [] then JOk [] else JAborts | _ \<Rightarrow> JOk [])"

text \<open>\<open>getMemberNames\<close>: the keys in the order of the library's map.\<close>

definition member_names :: "json \<Rightarrow> string list jres" where
  "member_names j =
     (case j of JNull \<Rightarrow> JOk []
      | JObj ms \<Rightarrow> JOk (fold (\<lambda>(k, _). set_put str_lt k) ms [])
      | _ \<Rightarrow> JAborts)"

fun jfold :: "('a \<Rightarrow> 'b \<Rightarrow> 'b jres) \<Rightarrow> 'a list \<Rightarrow> 'b \<Rightarrow> 'b jres" where
  "jfold f [] b = JOk b"
| "jfold f (x # xs) b = jbind (f x b) (jfold f xs)"

definition decode_queueData :: "json \<Rightarrow> QueueData list \<Rightarrow> QueueData list jres" where
  "decode_queueData qd ds =
     jbind (jbind (at_member qd ''brokerName'') as_string) (\<lambda>brokerName.
     jbind (jbind (at_member qd ''readQueueNums'') as_int) (\<lambda>r.
     jbind (jbind (at_member qd ''writeQueueNums'') as_int) (\<lambda>w.
     jbind (jbind (at_member qd ''perm'') as_int) (\<lambda>p.
       JOk (ds @ [\<lparr>qd_brokerName = brokerName, qd_readQueueNums = r, qd_writeQueueNums = w, qd_perm = p\<rparr>])))))"

definition decode_brokerData :: "json \<Rightarrow> BrokerData list \<Rightarrow> BrokerData list jres" where
  "decode_brokerData bd ds =
     jbind (jbind (at_member bd ''brokerName'') as_string) (\<lambda>brokerName.
     jbind (at_member bd ''brokerAddrs'') (\<lambda>bas.
     jbind (member_names bas) (\<lambda>mbs.
     jbind (jfold (\<lambda>key addrs. jbind (jbind (at_member bas key) as_string) (\<lambda>v.
              JOk (map_put ll_lt (atoi key) v addrs))) mbs []) (\<lambda>addrs.
       JOk (ds @ [\<lparr>bd_brokerName = brokerName, bd_brokerAddrs = addrs\<rparr>])))))"

text \<open>The body of a response is not NUL-terminated, and \<open>Decode\<close> hands the bare pointer to the parser: \<open>after\<close> is what
  follows the body in memory, up to a NUL. \<open>JOk None\<close> is the null pointer.\<close>

definition route_Decode :: "json_parser \<Rightarrow> string \<Rightarrow> string \<Rightarrow> TopicRouteData option jres" where
  "route_Decode parse after pData =
     (case parse (c_str (pData @ after)) of None \<Rightarrow> JOk None
      | Some object \<Rightarrow>
          jbind (jbind (at_member object ''orderTopicConf'') as_string) (\<lambda>conf.
          jbind (jbind (at_member object ''queueDatas'') elements) (\<lambda>qds.
          jbind (jfold decode_queueData qds []) (\<lambda>queueDatas.
          jbind (jbind (at_member object ''brokerDatas'') elements) (\<lambda>bds.
          jbind (jfold decode_brokerData bds []) (\<lambda>brokerDatas.
            JOk (Some \<lparr>m_orderTopicConf = conf, m_queueDatas = queueDatas, m_brokerDatas = brokerDatas\<rparr>)))))))"

definition MASTER_ID :: int where "MASTER_ID = 0"

definition selectBrokerAddr :: "BrokerData \<Rightarrow> string" where
  "selectBrokerAddr data =
     (case map_find ll_lt MASTER_ID (bd_brokerAddrs data) of
        None \<Rightarrow> (case bd_brokerAddrs data of [] \<Rightarrow> '''' | (_, a) # _ \<Rightarrow> a)
      | Some a \<Rightarrow> a)"

section \<open>TopicPublishInfo\<close>

record TopicPublishInfo =
  m_orderTopic :: bool
  m_messageQueueList :: "MessageQueue list"
  m_sendWhichQueue :: int

definition TopicPublishInfo_new :: TopicPublishInfo where
  "TopicPublishInfo_new = \<lparr>m_orderTopic = False, m_messageQueueList = [], m_sendWhichQueue = 0\<rparr>"

definition publish_ok :: "TopicPublishInfo \<Rightarrow> bool" where
  "publish_ok info \<longleftrightarrow> m_messageQueueList info \<noteq> []"

definition clearMessageQueue :: "TopicPublishInfo \<Rightarrow> TopicPublishInfo" where
  "clearMessageQueue info = info\<lparr>m_messageQueueList := []\<rparr>"

text \<open>\<open>abs\<close> of the least \<open>int\<close> is that \<open>int\<close>; the remainder is taken in \<open>size_t\<close>.\<close>

definition c_abs :: "int \<Rightarrow> int" where
  "c_abs i = (if i = - (2 ^ 31) then i else \<bar>i\<bar>)"

definition queue_pos :: "int \<Rightarrow> MessageQueue list \<Rightarrow> nat" where
  "queue_pos index mqs = nat (u64 (c_abs index) mod int (length mqs))"

fun select_other :: "nat \<Rightarrow> int \<Rightarrow> string \<Rightarrow> MessageQueue list \<Rightarrow> MessageQueue option" where
  "select_other 0 index lastBrokerName mqs = None"
| "select_other (Suc n) index lastBrokerName mqs =
     (let mq = mqs ! queue_pos index mqs in
      if m_brokerName mq \<noteq> lastBrokerName then Some mq
      else select_other n (s32 (index + 1)) lastBrokerName mqs)"

definition selectOneMessageQueue :: "string \<Rightarrow> TopicPublishInfo \<Rightarrow> MessageQueue option \<times> TopicPublishInfo" where
  "selectOneMessageQueue lastBrokerName info =
     (let index = m_sendWhichQueue info; mqs = m_messageQueueList info;
          next = info\<lparr>m_sendWhichQueue := s32 (index + 1)\<rparr>
      in if lastBrokerName \<noteq> [] then (select_other (length mqs) index lastBrokerName mqs, next)
         else if mqs = [] then (None, info)
         else (Some (mqs ! queue_pos index mqs), next))"

section \<open>What a route means\<close>

definition numbered_queues :: "string \<Rightarrow> string \<Rightarrow> int \<Rightarrow> MessageQueue list" where
  \<comment> \<open>\<open>for (int i = 0; i < nums; i++)\<close>\<close>
  "numbered_queues topic brokerName nums = map (\<lambda>i. mq_make topic brokerName (int i)) [0 ..< nat nums]"

fun order_queues :: "string \<Rightarrow> string list \<Rightarrow> MessageQueue list option" where
  "order_queues topic [] = Some []"
| "order_queues topic (b # brokers) =
     (case Split [] b '':'' of None \<Rightarrow> None
      | Some item \<Rightarrow>
          if length item < 2 then None
          else map_option (\<lambda>rest. numbered_queues topic (item ! 0) (atoi (item ! 1)) @ rest) (order_queues topic brokers))"

definition broker_of :: "string \<Rightarrow> BrokerData list \<Rightarrow> BrokerData option" where
  "broker_of name bds = find (\<lambda>bd. bd_brokerName bd = name) bds"

definition write_queues :: "string \<Rightarrow> BrokerData list \<Rightarrow> QueueData \<Rightarrow> MessageQueue list" where
  "write_queues topic bds qd =
     (if isWriteable (qd_perm qd) then
        (case broker_of (qd_brokerName qd) bds of None \<Rightarrow> []
         | Some bd \<Rightarrow>
             if map_find ll_lt MASTER_ID (bd_brokerAddrs bd) = None then []
             else numbered_queues topic (qd_brokerName qd) (qd_writeQueueNums qd))
      else [])"

text \<open>\<open>None\<close>: the entry of an order configuration without a colon is indexed out of range.\<close>

definition topicRouteData2TopicPublishInfo :: "string \<Rightarrow> TopicRouteData \<Rightarrow> TopicPublishInfo option" where
  "topicRouteData2TopicPublishInfo topic route =
     (if m_orderTopicConf route \<noteq> [] then
        Option.bind (Split [] (m_orderTopicConf route) '';'') (\<lambda>brokers.
        map_option (\<lambda>mqs. TopicPublishInfo_new\<lparr>m_orderTopic := True, m_messageQueueList := mqs\<rparr>)
          (order_queues topic brokers))
      else Some (TopicPublishInfo_new\<lparr>m_orderTopic := False,
        m_messageQueueList := concat (map (write_queues topic (m_brokerDatas route)) (list_sort qd_lt (m_queueDatas route)))\<rparr>))"

definition read_queues :: "string \<Rightarrow> QueueData \<Rightarrow> MessageQueue list" where
  "read_queues topic qd =
     (if isReadable (qd_perm qd) then numbered_queues topic (qd_brokerName qd) (qd_readQueueNums qd) else [])"

definition topicRouteData2TopicSubscribeInfo :: "string \<Rightarrow> TopicRouteData \<Rightarrow> MessageQueue list" where
  "topicRouteData2TopicSubscribeInfo topic route =
     fold (\<lambda>qd mqs. fold (set_put mq_lt) (read_queues topic qd) mqs) (m_queueDatas route) []"

definition topicRouteDataIsChange :: "TopicRouteData \<Rightarrow> TopicRouteData \<Rightarrow> bool" where
  "topicRouteDataIsChange olddata nowdata =
     (let sorted = (\<lambda>r. r\<lparr>m_queueDatas := list_sort qd_lt (m_queueDatas r), m_brokerDatas := list_sort bd_lt (m_brokerDatas r)\<rparr>)
      in \<not> route_eq (sorted olddata) (sorted nowdata))"

section \<open>Sorting by name\<close>

locale named_order =
  fixes name :: "'a \<Rightarrow> string" and lt :: "'a \<Rightarrow> 'a \<Rightarrow> bool"
  assumes lt_name: "lt x y \<longleftrightarrow> str_lt (name x) (name y)"
begin

lemma insert_mset: "mset (list_insert lt x ys) = add_mset x (mset ys)"
  by (induction ys) auto

lemma sort_mset: "mset (list_sort lt xs) = mset xs"
  by (induction xs) (auto simp: list_sort_def insert_mset)

lemma find_insert:
  "find (\<lambda>y. name y = n) (list_insert lt x ys) = (if name x = n then Some x else find (\<lambda>y. name y = n) ys)"
  by (induction ys) (auto simp: lt_name str_lt_irrefl)

lemma find_sort: "find (\<lambda>y. name y = n) (list_sort lt xs) = find (\<lambda>y. name y = n) xs"
  by (induction xs) (auto simp: list_sort_def find_insert)

lemma insert_commute:
  "name x \<noteq> name y \<Longrightarrow> list_insert lt x (list_insert lt y zs) = list_insert lt y (list_insert lt x zs)"
proof (induction zs)
  case Nil
  then show ?case using str_lt_total str_lt_trans str_lt_irrefl by (auto simp: lt_name) blast+
next
  case (Cons z zs)
  then show ?case using str_lt_total str_lt_trans str_lt_irrefl by (auto simp: lt_name) blast+
qed

lemma sort_perm:
  assumes "distinct (map name xs)" "mset xs = mset ys"
  shows "list_sort lt xs = list_sort lt ys"
proof -
  have "list_insert lt x \<circ> list_insert lt y = list_insert lt y \<circ> list_insert lt x" if "x \<in> set xs" "y \<in> set xs" for x y
  proof (cases "x = y")
    case False
    with that assms(1) have "name x \<noteq> name y" by (auto simp: distinct_map inj_on_def)
    then show ?thesis using insert_commute by (simp add: fun_eq_iff)
  qed simp
  then have "fold (list_insert lt) (rev xs) = fold (list_insert lt) (rev ys)"
    using assms(2) by (intro fold_multiset_equiv) auto
  then show ?thesis by (simp add: list_sort_def foldr_conv_fold)
qed

end

interpretation qd: named_order qd_brokerName qd_lt
  by unfold_locales (simp add: qd_lt_def)

interpretation bd: named_order bd_brokerName bd_lt
  by unfold_locales (simp add: bd_lt_def)

lemma qd_eq_iff: "qd_eq a b \<longleftrightarrow> a = b"
  by (cases a; cases b) (auto simp: qd_eq_def)

lemma bd_eq_iff: "bd_eq a b \<longleftrightarrow> a = b"
  by (cases a; cases b) (auto simp: bd_eq_def)

lemma isChange_iff:
  "topicRouteDataIsChange r r' \<longleftrightarrow>
   \<not> (m_orderTopicConf r = m_orderTopicConf r' \<and> list_sort qd_lt (m_queueDatas r) = list_sort qd_lt (m_queueDatas r')
      \<and> list_sort bd_lt (m_brokerDatas r) = list_sort bd_lt (m_brokerDatas r'))"
proof -
  have "qd_eq = (=)" "bd_eq = (=)" by (simp_all add: qd_eq_iff bd_eq_iff fun_eq_iff)
  then have "list_all2 qd_eq = (=)" "list_all2 bd_eq = (=)" by (simp_all add: list.rel_eq)
  then show ?thesis by (auto simp: topicRouteDataIsChange_def Let_def route_eq_def)
qed

text \<open>
  C23. A new route counts as unchanged exactly when it has the same order configuration and, in whatever
  order the name server lists them, the same queue data and the same broker data: comparing the two sorted lists is
  comparing multisets, as long as no broker is named twice.
\<close>

theorem route_change_iff:
  assumes "distinct (map qd_brokerName (m_queueDatas r))" "distinct (map bd_brokerName (m_brokerDatas r))"
  shows "topicRouteDataIsChange r r' \<longleftrightarrow>
    \<not> (m_orderTopicConf r = m_orderTopicConf r' \<and> mset (m_queueDatas r) = mset (m_queueDatas r')
       \<and> mset (m_brokerDatas r) = mset (m_brokerDatas r'))"
  using qd.sort_perm [OF assms(1)] bd.sort_perm [OF assms(2)] unfolding isChange_iff
  by (metis qd.sort_mset bd.sort_mset)

definition sample_route :: TopicRouteData where
  "sample_route = \<lparr>m_orderTopicConf = '''',
     m_queueDatas = [\<lparr>qd_brokerName = ''b'', qd_readQueueNums = 2, qd_writeQueueNums = 1, qd_perm = 6\<rparr>,
                     \<lparr>qd_brokerName = ''a'', qd_readQueueNums = 1, qd_writeQueueNums = 1, qd_perm = 6\<rparr>],
     m_brokerDatas = [\<lparr>bd_brokerName = ''b'', bd_brokerAddrs = [(0, ''1.2.3.4:1''), (1, ''1.2.3.5:1'')]\<rparr>,
                      \<lparr>bd_brokerName = ''a'', bd_brokerAddrs = [(0, ''1.2.3.6:1'')]\<rparr>]\<rparr>"

definition sample_route_listed :: TopicRouteData where
  "sample_route_listed = sample_route\<lparr>m_queueDatas := rev (m_queueDatas sample_route)\<rparr>"

theorem route_change_iff_witness: "\<not> topicRouteDataIsChange sample_route sample_route_listed"
  using route_change_iff [of sample_route sample_route_listed] by (simp add: sample_route_def sample_route_listed_def)

definition route_names_ok :: "string \<Rightarrow> TopicRouteData \<Rightarrow> bool" where
  "route_names_ok topic r \<longleftrightarrow> no_nul topic \<and> list_all (\<lambda>qd. no_nul (qd_brokerName qd) \<and> qd_readQueueNums qd < 2 ^ 31) (m_queueDatas r)"

lemma read_queues_ok: "no_nul topic \<Longrightarrow> no_nul (qd_brokerName qd) \<Longrightarrow> qd_readQueueNums qd < 2 ^ 31 \<Longrightarrow>
  list_all mq_ok (read_queues topic qd)"
  by (auto simp: read_queues_def numbered_queues_def list_all_iff mq_ok_def mq_make_def)

lemma subscribe_set:
  assumes "route_names_ok topic r"
  shows "set_wf mq_lt mq_ok (topicRouteData2TopicSubscribeInfo topic r)"
    and "set (topicRouteData2TopicSubscribeInfo topic r) = (\<Union>qd \<in> set (m_queueDatas r). set (read_queues topic qd))"
proof -
  have "set_wf mq_lt mq_ok (fold (\<lambda>qd. fold (set_put mq_lt) (read_queues topic qd)) qds mqs)
      \<and> set (fold (\<lambda>qd. fold (set_put mq_lt) (read_queues topic qd)) qds mqs) = set mqs \<union> (\<Union>qd \<in> set qds. set (read_queues topic qd))"
    if "set_wf mq_lt mq_ok mqs" "list_all (\<lambda>qd. no_nul (qd_brokerName qd) \<and> qd_readQueueNums qd < 2 ^ 31) qds" for qds mqs
    using that
  proof (induction qds arbitrary: mqs)
    case (Cons qd qds)
    with assms read_queues_ok [of topic qd] mq.fold_set_put [of mqs "read_queues topic qd"] show ?case
      by (auto simp: route_names_ok_def)
  qed simp
  from this [of "[]" "m_queueDatas r"] assms
  show "set_wf mq_lt mq_ok (topicRouteData2TopicSubscribeInfo topic r)"
    "set (topicRouteData2TopicSubscribeInfo topic r) = (\<Union>qd \<in> set (m_queueDatas r). set (read_queues topic qd))"
    by (auto simp: topicRouteData2TopicSubscribeInfo_def route_names_ok_def)
qed

lemma unchanged_sets:
  assumes "\<not> topicRouteDataIsChange r r'"
  shows "set (m_queueDatas r) = set (m_queueDatas r')" "broker_of n (m_brokerDatas r) = broker_of n (m_brokerDatas r')"
proof -
  from assms have s: "list_sort qd_lt (m_queueDatas r) = list_sort qd_lt (m_queueDatas r')"
    "list_sort bd_lt (m_brokerDatas r) = list_sort bd_lt (m_brokerDatas r')" by (auto simp: isChange_iff)
  show "set (m_queueDatas r) = set (m_queueDatas r')" by (metis s(1) qd.sort_mset set_mset_mset)
  show "broker_of n (m_brokerDatas r) = broker_of n (m_brokerDatas r')" by (metis s(2) bd.find_sort broker_of_def)
qed

text \<open>
  Skipping an update that \<open>topicRouteDataIsChange\<close> finds unchanged is safe: the
  queues a producer would get from the new answer are the ones it has, in the same order, and the queues a consumer
  would get are the same set.
\<close>

theorem unchanged_route_same_queues:
  assumes "\<not> topicRouteDataIsChange r r'" "route_names_ok topic r"
  shows "topicRouteData2TopicPublishInfo topic r = topicRouteData2TopicPublishInfo topic r'
    \<and> topicRouteData2TopicSubscribeInfo topic r = topicRouteData2TopicSubscribeInfo topic r'"
proof -
  note u = unchanged_sets [OF assms(1)]
  have n: "route_names_ok topic r'" using assms(2) u(1) by (simp add: route_names_ok_def list_all_iff)
  have w: "write_queues topic (m_brokerDatas r) = write_queues topic (m_brokerDatas r')"
    by (simp add: write_queues_def u(2) fun_eq_iff)
  have "topicRouteData2TopicPublishInfo topic r = topicRouteData2TopicPublishInfo topic r'"
    using assms(1) by (simp add: topicRouteData2TopicPublishInfo_def isChange_iff w)
  moreover have "topicRouteData2TopicSubscribeInfo topic r = topicRouteData2TopicSubscribeInfo topic r'"
    using subscribe_set [OF assms(2)] subscribe_set [OF n] u(1) by (intro mq.set_wf_unique) auto
  ultimately show ?thesis ..
qed

lemma sample_unchanged: "\<not> topicRouteDataIsChange sample_route sample_route_listed"
  by (simp add: isChange_iff sample_route_def sample_route_listed_def list_sort_def qd_lt_def)

theorem unchanged_route_same_queues_witness:
  "topicRouteData2TopicPublishInfo ''T'' sample_route = topicRouteData2TopicPublishInfo ''T'' sample_route_listed
    \<and> topicRouteData2TopicSubscribeInfo ''T'' sample_route = topicRouteData2TopicSubscribeInfo ''T'' sample_route_listed"
  using unchanged_route_same_queues [OF sample_unchanged, of "''T''"]
  by (simp add: route_names_ok_def sample_route_def no_nul_def)

section \<open>Choosing a queue\<close>

definition counter_ok :: "TopicPublishInfo \<Rightarrow> bool" where
  \<comment> \<open>the counter does not wrap while the queues are gone through once\<close>
  "counter_ok info \<longleftrightarrow> 0 \<le> m_sendWhichQueue info \<and> m_sendWhichQueue info + int (length (m_messageQueueList info)) \<le> 2 ^ 31 - 1"

lemma queue_pos_nonneg:
  "0 \<le> i \<Longrightarrow> i < 2 ^ 31 \<Longrightarrow> mqs \<noteq> [] \<Longrightarrow> queue_pos i mqs = nat i mod length mqs"
  by (simp add: queue_pos_def c_abs_def u64_id nat_mod_distrib)

fun select_many :: "nat \<Rightarrow> TopicPublishInfo \<Rightarrow> MessageQueue option list" where
  "select_many 0 info = []"
| "select_many (Suc n) info = (let (mq, info) = selectOneMessageQueue '''' info in mq # select_many n info)"

lemma select_many_nth:
  assumes "mqs \<noteq> []" "m_messageQueueList info = mqs" "0 \<le> m_sendWhichQueue info" "m_sendWhichQueue info + int n \<le> 2 ^ 31 - 1"
  shows "select_many n info = map (\<lambda>i. Some (mqs ! ((nat (m_sendWhichQueue info) + i) mod length mqs))) [0 ..< n]"
  using assms(2-)
proof (induction n arbitrary: info)
  case (Suc n)
  let ?i = "m_sendWhichQueue info"
  let ?next = "info\<lparr>m_sendWhichQueue := s32 (?i + 1)\<rparr>"
  have s: "s32 (?i + 1) = ?i + 1" using Suc.prems by (intro s32_id) auto
  have "nat (?i + 1) = Suc (nat ?i)" using Suc.prems(2) by simp
  then have ih: "select_many n ?next = map (\<lambda>i. Some (mqs ! ((Suc (nat ?i) + i) mod length mqs))) [0 ..< n]"
    using Suc.IH [of ?next] Suc.prems s by simp
  have "selectOneMessageQueue '''' info = (Some (mqs ! (nat ?i mod length mqs)), ?next)"
    using Suc.prems assms(1) queue_pos_nonneg [of ?i mqs] by (simp add: selectOneMessageQueue_def Let_def)
  then show ?case using ih by (simp add: map_upt_Suc del: upt_Suc)
qed simp

text \<open>
  C31. Without a broker to avoid, the producer goes round robin: as many successive
  choices as there are queues visit every queue exactly once, in the order of the list, starting at the counter.
\<close>

theorem round_robin:
  assumes "counter_ok info" "m_messageQueueList info \<noteq> []"
  shows "select_many (length (m_messageQueueList info)) info
    = map Some (rotate (nat (m_sendWhichQueue info)) (m_messageQueueList info))"
proof -
  let ?l = "m_messageQueueList info"
  have "select_many (length ?l) info = map (\<lambda>i. Some (?l ! ((nat (m_sendWhichQueue info) + i) mod length ?l))) [0 ..< length ?l]"
    using assms by (intro select_many_nth) (auto simp: counter_ok_def)
  also have "\<dots> = map Some (rotate (nat (m_sendWhichQueue info)) ?l)"
    by (rule nth_equalityI) (auto simp: nth_rotate)
  finally show ?thesis .
qed

definition sample_info :: TopicPublishInfo where
  "sample_info = \<lparr>m_orderTopic = False, m_messageQueueList = [mq_make ''T'' ''a'' 0, mq_make ''T'' ''a'' 1, mq_make ''T'' ''b'' 0],
     m_sendWhichQueue = 4\<rparr>"

theorem round_robin_witness:
  "select_many 3 sample_info = map Some [mq_make ''T'' ''a'' 1, mq_make ''T'' ''b'' 0, mq_make ''T'' ''a'' 0]"
  using round_robin [of sample_info] by (simp add: sample_info_def counter_ok_def rotate_def numeral_eq_Suc)

lemma select_other_scan:
  assumes "mqs \<noteq> []" "0 \<le> i" "i + int n \<le> 2 ^ 31 - 1"
  shows "(case select_other n i lastB mqs of
      Some mq \<Rightarrow> mq \<in> set mqs \<and> m_brokerName mq \<noteq> lastB
    | None \<Rightarrow> (\<forall>k < n. m_brokerName (mqs ! ((nat i + k) mod length mqs)) = lastB))"
  using assms(2-)
proof (induction n arbitrary: i)
  case (Suc n)
  let ?mq = "mqs ! (nat i mod length mqs)"
  have p: "queue_pos i mqs = nat i mod length mqs" using Suc.prems assms(1) by (intro queue_pos_nonneg) auto
  have s: "s32 (i + 1) = i + 1" using Suc.prems by (intro s32_id) auto
  show ?case
  proof (cases "m_brokerName ?mq = lastB")
    case False
    then show ?thesis using p assms(1) by simp
  next
    case True
    have "nat (i + 1) = Suc (nat i)" using Suc.prems(1) by simp
    with Suc.IH [of "i + 1"] Suc.prems have ih: "case select_other n (i + 1) lastB mqs of
        Some mq \<Rightarrow> mq \<in> set mqs \<and> m_brokerName mq \<noteq> lastB
      | None \<Rightarrow> (\<forall>k < n. m_brokerName (mqs ! ((nat i + Suc k) mod length mqs)) = lastB)" by (simp split: option.splits)
    have r: "select_other (Suc n) i lastB mqs = select_other n (i + 1) lastB mqs" using True p s by simp
    show ?thesis
    proof (cases "select_other n (i + 1) lastB mqs")
      case None
      with ih have "\<forall>k < n. m_brokerName (mqs ! ((nat i + Suc k) mod length mqs)) = lastB" by simp
      then have "\<forall>k < Suc n. m_brokerName (mqs ! ((nat i + k) mod length mqs)) = lastB"
        using True by (simp add: less_Suc_eq_0_disj) auto
      with r None show ?thesis by simp
    next
      case (Some mq)
      with ih r show ?thesis by simp
    qed
  qed
qed simp

lemma residues: "x < length mqs \<Longrightarrow> \<exists>k < length mqs. (a + k) mod length mqs = x"
  for a :: nat
proof (rule exI [of _ "(x + (length mqs - a mod length mqs)) mod length mqs"])
  assume x: "x < length mqs"
  let ?n = "length mqs"
  have n: "0 < ?n" using x by linarith
  then have "a mod ?n < ?n" by simp
  have "(a + (x + (?n - a mod ?n)) mod ?n) mod ?n = (a mod ?n + (x + (?n - a mod ?n))) mod ?n"
    by (simp add: mod_simps)
  also have "\<dots> = (x + ?n) mod ?n" using \<open>a mod ?n < ?n\<close> by (simp add: algebra_simps)
  also have "\<dots> = x" using x by simp
  finally show "(x + (?n - a mod ?n)) mod ?n < ?n \<and> (a + (x + (?n - a mod ?n)) mod ?n) mod ?n = x" using n by simp
qed

text \<open>
  After a failure on one broker the next choice is a queue of another broker, and there is
  none exactly when every queue of the topic is on that broker.
\<close>

theorem select_avoids_broker:
  assumes "counter_ok info" "lastBrokerName \<noteq> []"
  shows "case fst (selectOneMessageQueue lastBrokerName info) of
      Some mq \<Rightarrow> mq \<in> set (m_messageQueueList info) \<and> m_brokerName mq \<noteq> lastBrokerName
    | None \<Rightarrow> (\<forall>mq \<in> set (m_messageQueueList info). m_brokerName mq = lastBrokerName)"
proof (cases "m_messageQueueList info = []")
  case True
  with assms(2) show ?thesis by (simp add: selectOneMessageQueue_def Let_def)
next
  case False
  let ?l = "m_messageQueueList info" and ?i = "m_sendWhichQueue info"
  have f: "fst (selectOneMessageQueue lastBrokerName info) = select_other (length ?l) ?i lastBrokerName ?l"
    using assms(2) by (simp add: selectOneMessageQueue_def Let_def)
  have s: "case select_other (length ?l) ?i lastBrokerName ?l of
      Some mq \<Rightarrow> mq \<in> set ?l \<and> m_brokerName mq \<noteq> lastBrokerName
    | None \<Rightarrow> (\<forall>k < length ?l. m_brokerName (?l ! ((nat ?i + k) mod length ?l)) = lastBrokerName)"
    using assms(1) False by (intro select_other_scan) (auto simp: counter_ok_def)
  show ?thesis
  proof (cases "select_other (length ?l) ?i lastBrokerName ?l")
    case None
    with s have a: "\<forall>k < length ?l. m_brokerName (?l ! ((nat ?i + k) mod length ?l)) = lastBrokerName" by simp
    have "m_brokerName (?l ! x) = lastBrokerName" if "x < length ?l" for x
      using residues [OF that, of "nat ?i"] a by metis
    with f None show ?thesis by (auto simp: in_set_conv_nth)
  qed (use s f in simp)
qed

theorem select_avoids_broker_witness:
  "fst (selectOneMessageQueue ''a'' sample_info) = Some (mq_make ''T'' ''b'' 0)
   \<and> mq_make ''T'' ''b'' 0 \<in> set (m_messageQueueList sample_info) \<and> m_brokerName (mq_make ''T'' ''b'' 0) \<noteq> ''a''"
proof -
  have "fst (selectOneMessageQueue ''a'' sample_info) = Some (mq_make ''T'' ''b'' 0)"
    by (simp add: selectOneMessageQueue_def sample_info_def Let_def numeral_eq_Suc queue_pos_def c_abs_def u64_def s32_def mq_make_def take_bit_eq_mod signed_take_bit_eq_take_bit_shift)
  with select_avoids_broker [of sample_info "''a''"] show ?thesis by (simp add: sample_info_def counter_ok_def)
qed

text \<open>Once the counter has wrapped, the remainders of its absolute values do not visit every queue: the choice can fail
  although another broker has a queue.\<close>

theorem wrapped_counter_misses_broker:
  "fst (selectOneMessageQueue ''a'' (sample_info\<lparr>m_sendWhichQueue := - 1\<rparr>)) = None
   \<and> mq_make ''T'' ''b'' 0 \<in> set (m_messageQueueList sample_info)"
  by (simp add: selectOneMessageQueue_def sample_info_def Let_def numeral_eq_Suc queue_pos_def c_abs_def u64_def s32_def mq_make_def
      take_bit_eq_mod signed_take_bit_eq_take_bit_shift)

section \<open>The answer of the name server\<close>

definition queue_json :: "QueueData \<Rightarrow> json" where
  "queue_json q = JObj [(''brokerName'', JStr (qd_brokerName q)), (''perm'', JInt (qd_perm q)),
     (''readQueueNums'', JInt (qd_readQueueNums q)), (''writeQueueNums'', JInt (qd_writeQueueNums q))]"

definition broker_json :: "BrokerData \<Rightarrow> json" where
  "broker_json b = JObj [(''brokerAddrs'', JObj (map (\<lambda>(i, a). (show_int i, JStr a)) (bd_brokerAddrs b))),
     (''brokerName'', JStr (bd_brokerName b))]"

definition route_json :: "TopicRouteData \<Rightarrow> json" where
  "route_json r = JObj [(''brokerDatas'', JArr (map broker_json (m_brokerDatas r))),
     (''orderTopicConf'', JStr (m_orderTopicConf r)), (''queueDatas'', JArr (map queue_json (m_queueDatas r)))]"

definition addrs_ok :: "(int, string) smap \<Rightarrow> bool" where
  "addrs_ok m \<longleftrightarrow> map_wf ll_lt any_key m \<and> list_all (\<lambda>(i, _). is_s32 i) m"

lemma map_wf_ext: "map_wf ll_lt any_key m \<Longrightarrow> map_wf ll_lt any_key m' \<Longrightarrow> map_of m = map_of m' \<Longrightarrow> m = m'"
proof -
  assume w: "map_wf ll_lt any_key m" "map_wf ll_lt any_key m'" and e: "map_of m = map_of m'"
  have "set_wf ll_lt any_key (map fst m)" "set_wf ll_lt any_key (map fst m')" using w by (auto simp: map_wf_def set_wf_def)
  moreover have "set (map fst m) = set (map fst m')" using e by (metis dom_map_of image_set)
  ultimately have k: "map fst m = map fst m'" by (rule ll.set_wf_unique)
  have "m = map (\<lambda>k. (k, the (map_of n k))) (map fst m)" if "m = n" "distinct (map fst n)" for m n :: "(int, 'a) smap"
    using that by (auto intro!: map_idI [symmetric] simp: map_of_is_SomeI)
  from this [OF refl ll.wf_distinct [OF w(1)]] this [OF refl ll.wf_distinct [OF w(2)]] show "m = m'"
    by (simp only: e k)
qed

lemma jfold_snoc: "(\<And>x ds. x \<in> set xs \<Longrightarrow> f (g x) ds = JOk (ds @ [x])) \<Longrightarrow> jfold f (map g xs) ds = JOk (ds @ xs)"
  by (induction xs arbitrary: ds) auto

definition counts_ok :: "QueueData \<Rightarrow> bool" where
  "counts_ok q \<longleftrightarrow> fits_int (qd_perm q) \<and> fits_int (qd_readQueueNums q) \<and> fits_int (qd_writeQueueNums q)"

lemma decode_queue: "counts_ok q \<Longrightarrow> decode_queueData (queue_json q) ds = JOk (ds @ [q])"
  by (simp add: counts_ok_def decode_queueData_def queue_json_def at_member_def jget_def as_string_def asString_def as_int_def asInt_def)

lemma fold_put_fun:
  "map_wf ll_lt any_key m \<Longrightarrow>
   map_of (fold (\<lambda>x. map_put ll_lt (f x) (h (f x))) xs m) k = (if k \<in> f ` set xs then Some (h k) else map_of m k)"
  by (induction xs arbitrary: m) (auto simp: ll.put_wf ll.put_map_of)

lemma member_key:
  assumes "addrs_ok m" "(i, a) \<in> set m"
  shows "map_of (map (\<lambda>(i, a). (show_int i, JStr a)) m) (show_int i) = Some (JStr a)"
proof -
  have "inj_on show_int (fst ` set m)"
    using assms(1) by (intro inj_on_inverseI [of _ atoi]) (auto simp: addrs_ok_def list_all_iff atoi_show_int)
  then have "distinct (map show_int (map fst m))"
    using assms(1) ll.wf_distinct [of m] unfolding distinct_map addrs_ok_def by auto
  then have "distinct (map fst (map (\<lambda>(i, a). (show_int i, JStr a)) m))" by (simp add: case_prod_unfold comp_def)
  then show ?thesis using assms(2) by (intro map_of_is_SomeI) force+
qed

lemma decode_addrs:
  assumes "addrs_ok m"
  defines "bas \<equiv> JObj (map (\<lambda>(i, a). (show_int i, JStr a)) m)"
  shows "jbind (member_names bas) (\<lambda>mbs. jfold (\<lambda>key addrs. jbind (jbind (at_member bas key) as_string)
    (\<lambda>v. JOk (map_put ll_lt (atoi key) v addrs))) mbs []) = JOk m"
proof -
  define names where "names = fold (\<lambda>(k, _ :: json). set_put str_lt k) (map (\<lambda>(i, a). (show_int i, JStr a)) m) []"
  have "names = fold (set_put str_lt) (map (\<lambda>(i, a). show_int i) m) []"
    unfolding names_def by (simp add: fold_map comp_def case_prod_unfold)
  then have n: "set names = show_int ` fst ` set m"
    using str.fold_set_put [of "[]" "map (\<lambda>(i, a). show_int i) m"] by (simp add: list_all_iff case_prod_unfold image_image)
  have "atoi (show_int i) = i" if "i \<in> fst ` set m" for i
    using that assms(1) by (auto simp: addrs_ok_def list_all_iff intro!: atoi_show_int)
  then have at: "atoi ` set names = fst ` set m" by (simp add: n image_image)
  let ?h = "\<lambda>k. the (map_of m k)"
  have v: "jbind (at_member bas key) as_string = JOk (?h (atoi key))" if k: "key \<in> set names" for key
  proof -
    obtain i a where e: "(i, a) \<in> set m" "key = show_int i" using k n by auto
    then have "is_s32 i" using assms(1) by (auto simp: addrs_ok_def list_all_iff)
    then have "atoi key = i" using e by (simp add: atoi_show_int)
    moreover have "map_of m i = Some a" using e assms(1) ll.map_of_set [of m i a] by (simp add: addrs_ok_def)
    ultimately show ?thesis
      using member_key [OF assms(1) e(1)] e(2) by (simp add: at_member_def jget_def bas_def as_string_def asString_def)
  qed
  have "jfold (\<lambda>key addrs. jbind (jbind (at_member bas key) as_string) (\<lambda>v. JOk (map_put ll_lt (atoi key) v addrs))) ks acc
      = JOk (fold (\<lambda>key. map_put ll_lt (atoi key) (?h (atoi key))) ks acc)" if "set ks \<subseteq> set names" for ks acc
    using that by (induction ks arbitrary: acc) (auto simp: v)
  moreover have "fold (\<lambda>key. map_put ll_lt (atoi key) (?h (atoi key))) names [] = m"
  proof (rule map_wf_ext)
    show "map_wf ll_lt any_key (fold (\<lambda>key. map_put ll_lt (atoi key) (?h (atoi key))) names [])"
      by (rule ll.fold_put_wf) (auto simp: list_all_iff)
    show "map_wf ll_lt any_key m" using assms(1) by (simp add: addrs_ok_def)
    show "map_of (fold (\<lambda>key. map_put ll_lt (atoi key) (?h (atoi key))) names []) = map_of m"
    proof
      fix k
      show "map_of (fold (\<lambda>key. map_put ll_lt (atoi key) (?h (atoi key))) names []) k = map_of m k"
      proof (cases "k \<in> fst ` set m")
        case True
        then obtain a where "map_of m k = Some a" by (metis dom_map_of domD)
        with True show ?thesis using fold_put_fun [of "[]" atoi ?h names k] at by simp
      next
        case False
        then show ?thesis using fold_put_fun [of "[]" atoi ?h names k] at by (simp add: map_of_eq_None)
      qed
    qed
  qed
  moreover have "member_names bas = JOk names" by (simp add: member_names_def bas_def names_def)
  ultimately show ?thesis by simp
qed

lemma decode_broker: "addrs_ok (bd_brokerAddrs b) \<Longrightarrow> decode_brokerData (broker_json b) ds = JOk (ds @ [b])"
proof -
  assume "addrs_ok (bd_brokerAddrs b)"
  note d = decode_addrs [OF this]
  let ?bas = "JObj (map (\<lambda>(i, a). (show_int i, JStr a)) (bd_brokerAddrs b))"
  obtain mbs where m: "member_names ?bas = JOk mbs" by (simp add: member_names_def)
  have a: "at_member (broker_json b) ''brokerAddrs'' = JOk ?bas"
    "jbind (at_member (broker_json b) ''brokerName'') as_string = JOk (bd_brokerName b)"
    by (simp_all add: broker_json_def at_member_def jget_def as_string_def asString_def)
  show ?thesis using d unfolding decode_brokerData_def a jbind.simps m by simp
qed

lemma Decode_route:
  assumes "parse (c_str (body @ after)) = Some (route_json r)" "\<forall>b \<in> set (m_brokerDatas r). addrs_ok (bd_brokerAddrs b)"
    and "\<forall>q \<in> set (m_queueDatas r). counts_ok q"
  shows "route_Decode parse after body = JOk (Some r)"
proof -
  have "jfold decode_queueData (map queue_json (m_queueDatas r)) [] = JOk ([] @ m_queueDatas r)"
    using assms(3) by (intro jfold_snoc) (simp add: decode_queue)
  moreover have "jfold decode_brokerData (map broker_json (m_brokerDatas r)) [] = JOk ([] @ m_brokerDatas r)"
    using assms(2) by (intro jfold_snoc) (simp add: decode_broker)
  moreover have "jbind (at_member (route_json r) ''orderTopicConf'') as_string = JOk (m_orderTopicConf r)"
    "jbind (at_member (route_json r) ''queueDatas'') elements = JOk (map queue_json (m_queueDatas r))"
    "jbind (at_member (route_json r) ''brokerDatas'') elements = JOk (map broker_json (m_brokerDatas r))"
    by (simp_all add: route_json_def at_member_def jget_def as_string_def asString_def elements_def)
  ultimately show ?thesis using assms(1) by (simp add: route_Decode_def)
qed

text \<open>
  When the JSON library reads the answer of the name server as the object that lists a route
  (the broker ids being keys of \<open>brokerAddrs\<close>, the numbers of a queue entry 32-bit), \<open>Decode\<close> gives that route back: every queue entry, every broker, and
  the address table ordered by id.
\<close>

theorem route_Decode_json:
  assumes "parse (c_str (body @ after)) = Some (route_json r)" "\<forall>b \<in> set (m_brokerDatas r). addrs_ok (bd_brokerAddrs b)"
    and "\<forall>q \<in> set (m_queueDatas r). counts_ok q"
  shows "route_Decode parse after body = JOk (Some r)"
  using assms by (rule Decode_route)

lemma sample_addrs_ok: "\<forall>b \<in> set (m_brokerDatas sample_route). addrs_ok (bd_brokerAddrs b)"
  by (simp add: sample_route_def addrs_ok_def)

lemma sample_counts_ok: "\<forall>q \<in> set (m_queueDatas sample_route). counts_ok q"
  by (simp add: sample_route_def counts_ok_def fits_int_def)

theorem route_Decode_json_witness:
  "route_Decode (\<lambda>_. Some (route_json sample_route)) ''x'' ''{}'' = JOk (Some sample_route)"
  using route_Decode_json [of "\<lambda>_. Some (route_json sample_route)" "''{}''" "''x''" sample_route] sample_addrs_ok sample_counts_ok by simp

end
