(* ===== verification/Allocate.thy ===== *)
theory Allocate
  imports Message_Queue
begin

text \<open>
  The queue allocation strategies of \<open>src/src/consumer/AllocateMessageQueueStrategyInner.h\<close>.
  \<open>allocate_averagely\<close> is the whole method, with its three exceptions, the \<open>NULL\<close> result for
  a consumer that is not in the list, and the index arithmetic in \<open>int\<close>. The reference
  definition \<open>share\<close> is a contiguous slice; \<open>allocate_share\<close> shows the two agree, and from
  it follow that the consumers of a group partition the queues in order and that no
  share is more than one queue larger than another.
\<close>

text \<open>\<open>std::vector::at\<close>: \<open>None\<close> is \<open>std::out_of_range\<close>.\<close>

definition vec_at :: "'a list \<Rightarrow> int \<Rightarrow> 'a option" where
  "vec_at xs i = (if 0 \<le> i \<and> i < int (length xs) then Some (xs ! nat i) else None)"

fun find_cid :: "string \<Rightarrow> string list \<Rightarrow> int \<Rightarrow> int" where
  "find_cid cid [] i = -1"
| "find_cid cid (x # xs) i = (if x = cid then i else find_cid cid xs (s32 (i + 1)))"

text \<open>The copying loop, for the values of \<open>i\<close> still to be visited.\<close>

fun alloc_loop :: "'a list \<Rightarrow> int \<Rightarrow> int \<Rightarrow> int list \<Rightarrow> 'a list option" where
  "alloc_loop mqAll mqAllSize startIndex [] = Some []"
| "alloc_loop mqAll mqAllSize startIndex (i # is) =
     (case vec_at mqAll (c_mod (s32 (startIndex + i)) mqAllSize) of None \<Rightarrow> None
      | Some x \<Rightarrow> (case alloc_loop mqAll mqAllSize startIndex is of None \<Rightarrow> None
                   | Some r \<Rightarrow> Some (x # r)))"

datatype 'a alloc_result =
    AllocThrows mq_exception
  | AllocOutOfRange
  | AllocNull
  | AllocVector "'a list"

definition allocate_averagely :: "string \<Rightarrow> 'a list \<Rightarrow> string list \<Rightarrow> 'a alloc_result" where
  "allocate_averagely currentCID mqAll cidAll =
     (if currentCID = [] then AllocThrows (MQClientException ''currentCID is empty'' (-1))
      else if mqAll = [] then AllocThrows (MQClientException ''mqAll is empty'' (-1))
      else if cidAll = [] then AllocThrows (MQClientException ''cidAll is empty'' (-1))
      else
        let cidAllSize = s32 (int (length cidAll));
            index = find_cid currentCID cidAll 0
        in if index = -1 then AllocNull
        else
          let mqAllSize = s32 (int (length mqAll));
              md = c_mod mqAllSize cidAllSize;
              averageSize =
                (if mqAllSize \<le> cidAllSize then 1
                 else if md > 0 \<and> index < md then s32 (c_div mqAllSize cidAllSize + 1)
                 else c_div mqAllSize cidAllSize);
              startIndex =
                (if md > 0 \<and> index < md then s32 (index * averageSize)
                 else s32 (s32 (index * averageSize) + md));
              range = min averageSize (s32 (mqAllSize - startIndex))
          in (case alloc_loop mqAll mqAllSize startIndex [0..range - 1] of
                None \<Rightarrow> AllocOutOfRange
              | Some r \<Rightarrow> AllocVector r))"

definition allocate_by_config :: "string \<Rightarrow> 'a list \<Rightarrow> string list \<Rightarrow> 'a alloc_result" where
  "allocate_by_config currentCID mqAll cidAll = AllocNull"

definition allocate_by_machine_room :: "string \<Rightarrow> 'a list \<Rightarrow> string list \<Rightarrow> 'a alloc_result" where
  "allocate_by_machine_room currentCID mqAll cidAll = AllocNull"

section \<open>Reference: contiguous shares\<close>

definition share_start :: "nat \<Rightarrow> nat \<Rightarrow> nat \<Rightarrow> nat" where
  "share_start n c i = i * (n div c) + min i (n mod c)"

definition share_size :: "nat \<Rightarrow> nat \<Rightarrow> nat \<Rightarrow> nat" where
  "share_size n c i = n div c + (if i < n mod c then 1 else 0)"

definition share :: "'a list \<Rightarrow> nat \<Rightarrow> nat \<Rightarrow> 'a list" where
  "share xs c i = take (share_size (length xs) c i) (drop (share_start (length xs) c i) xs)"

lemma share_start_Suc: "share_start n c (Suc i) = share_start n c i + share_size n c i"
  by (auto simp: share_start_def share_size_def)

lemma share_start_all: "0 < c \<Longrightarrow> share_start n c c = n"
  using mod_less_divisor [of c n] by (simp add: share_start_def min_absorb2 less_imp_le)

lemma share_start_mono: "i \<le> j \<Longrightarrow> share_start n c i \<le> share_start n c j"
  by (auto simp: share_start_def intro: add_mono)

lemma concat_shares: "concat (map (share xs c) [0..<k]) = take (share_start (length xs) c k) xs"
proof (induction k)
  case 0
  then show ?case by (simp add: share_start_def)
next
  case (Suc k)
  then show ?case
    by (simp add: share_def share_start_Suc take_add)
qed

lemma share_fits: "i < c \<Longrightarrow> share_start n c i + share_size n c i \<le> n"
  using share_start_mono [of "Suc i" c n c] share_start_all [of c n] by (simp add: share_start_Suc)

lemma length_share: "i < c \<Longrightarrow> length (share xs c i) = share_size (length xs) c i"
  using share_fits [of i c "length xs"] by (simp add: share_def)

lemma alloc_loop_eq:
  assumes "0 \<le> start" "0 \<le> r" "start + r \<le> int (length xs)" "xs \<noteq> []" "int (length xs) < 2 ^ 31"
    and "0 \<le> a"
  shows "alloc_loop xs (int (length xs)) start [a..r - 1] = Some (take (nat (r - a)) (drop (nat (start + a)) xs))"
  using assms(6)
proof (induction "nat (r - a)" arbitrary: a)
  case 0
  then show ?case by simp
next
  case (Suc k)
  then have a: "a < r" by linarith
  then have u: "[a..r - 1] = a # [a + 1..r - 1]" by (simp add: upto_rec1)
  have IH: "alloc_loop xs (int (length xs)) start [a + 1..r - 1] =
      Some (take (nat (r - (a + 1))) (drop (nat (start + (a + 1))) xs))"
    using Suc a by (intro Suc.hyps(1)) auto
  have b: "start + a < int (length xs)" "0 \<le> start + a" using a assms Suc.prems by auto
  then have "c_mod (s32 (start + a)) (int (length xs)) = start + a"
    using assms by (simp add: s32_id c_mod_nonneg)
  moreover have "take (nat (r - a)) (drop (nat (start + a)) xs) =
     xs ! nat (start + a) # take (nat (r - (a + 1))) (drop (nat (start + (a + 1))) xs)"
  proof -
    have "nat (start + a) < length xs" using b by linarith
    moreover have "nat (r - a) = Suc (nat (r - (a + 1)))" "nat (start + (a + 1)) = Suc (nat (start + a))"
      using a b by auto
    ultimately show ?thesis by (simp flip: Cons_nth_drop_Suc)
  qed
  ultimately show ?case using u IH b by (simp add: vec_at_def)
qed

lemma find_cid_nth:
  assumes "i < length xs" "distinct xs" "0 \<le> k" "k + int (length xs) < 2 ^ 31"
  shows "find_cid (xs ! i) xs k = k + int i"
  using assms
proof (induction xs arbitrary: i k)
  case Nil
  then show ?case by simp
next
  case (Cons x xs)
  show ?case
  proof (cases i)
    case 0
    then show ?thesis by simp
  next
    case (Suc j)
    with Cons.prems have j: "j < length xs" and "x \<noteq> xs ! j" by auto
    have "find_cid (xs ! j) xs (k + 1) = k + 1 + int j"
      using Cons.prems j by (intro Cons.IH) auto
    then show ?thesis using Suc \<open>x \<noteq> xs ! j\<close> Cons.prems by (simp add: s32_id)
  qed
qed

lemma find_cid_absent: "cid \<notin> set xs \<Longrightarrow> find_cid cid xs k = -1"
  by (induction xs arbitrary: k) auto

lemma find_cid_present: "cid \<in> set xs \<Longrightarrow> 0 \<le> k \<Longrightarrow> k + int (length xs) < 2 ^ 31 \<Longrightarrow> 0 \<le> find_cid cid xs k"
  by (induction xs arbitrary: k) (auto simp: s32_id)

text \<open>The C arithmetic of one consumer, over the natural numbers.\<close>

lemma alloc_arith:
  fixes n c i :: nat
  assumes "i < c" "0 < n" "n + c < 2 ^ 31"
  defines "avg \<equiv> (if n \<le> c then 1 else if 0 < n mod c \<and> i < n mod c then n div c + 1 else n div c)"
  defines "start \<equiv> (if 0 < n mod c \<and> i < n mod c then i * avg else i * avg + n mod c)"
  shows "i * avg + n mod c < 2 ^ 31"
    and "min (int avg) (int n - int start) \<le> 0 \<and> share_size n c i = 0 \<or>
         start = share_start n c i \<and> min (int avg) (int n - int start) = int (share_size n c i)"
proof -
  have c: "0 < c" using assms(1) by simp
  consider "n < c" | "n = c" | "c < n" by linarith
  then have "i * avg + n mod c < 2 ^ 31 \<and>
    (min (int avg) (int n - int start) \<le> 0 \<and> share_size n c i = 0 \<or>
         start = share_start n c i \<and> min (int avg) (int n - int start) = int (share_size n c i))"
  proof cases
    case 1
    then show ?thesis using assms by (auto simp: share_start_def share_size_def)
  next
    case 2
    then show ?thesis using assms by (auto simp: share_start_def share_size_def)
  next
    case 3
    have fit: "share_start n c i + share_size n c i \<le> n" using assms(1) by (rule share_fits)
    have avg: "avg = share_size n c i" using 3 unfolding avg_def share_size_def by auto
    have start: "start = share_start n c i"
      unfolding start_def avg share_start_def share_size_def by (auto simp: min_def)
    have "i * avg + n mod c \<le> n + c"
    proof -
      have "i * avg \<le> share_start n c i"
        unfolding avg share_start_def share_size_def by auto
      moreover have "n mod c < c" using c by simp
      ultimately show ?thesis using fit by linarith
    qed
    with fit avg start assms(3) show ?thesis by auto
  qed
  then show "i * avg + n mod c < 2 ^ 31"
    and "min (int avg) (int n - int start) \<le> 0 \<and> share_size n c i = 0 \<or>
         start = share_start n c i \<and> min (int avg) (int n - int start) = int (share_size n c i)"
    by auto
qed

lemma allocate_share:
  assumes "i < length cidAll" "distinct cidAll" "cidAll ! i \<noteq> []" "mqAll \<noteq> []"
    and small: "length mqAll + length cidAll < 2 ^ 31"
  shows "allocate_averagely (cidAll ! i) mqAll cidAll = AllocVector (share mqAll (length cidAll) i)"
proof -
  let ?n = "length mqAll" and ?c = "length cidAll"
  define avg where "avg = (if ?n \<le> ?c then 1 else if 0 < ?n mod ?c \<and> i < ?n mod ?c then ?n div ?c + 1 else ?n div ?c)"
  define start where "start = (if 0 < ?n mod ?c \<and> i < ?n mod ?c then i * avg else i * avg + ?n mod ?c)"
  have n: "0 < ?n" and c: "0 < ?c" using assms by auto
  note ar = alloc_arith [OF assms(1) n small, folded avg_def, folded start_def]
  have "int (i * avg + ?n mod ?c) < 2 ^ 31" using ar(1) by (metis of_nat_less_iff of_nat_numeral of_nat_power)
  then have b1: "int i * int avg + int ?n mod int ?c < 2 ^ 31" by (simp add: zmod_int)
  have b0: "- 2147483648 \<le> int i * int avg" "0 \<le> int ?n mod int ?c"
    using c zero_le_mult_iff [of "int i" "int avg"] by (auto intro: order_trans [of _ 0])
  have idx: "find_cid (cidAll ! i) cidAll 0 = int i"
    using find_cid_nth [OF assms(1,2), of 0] small by simp
  have sz: "s32 (int ?n) = int ?n" "s32 (int ?c) = int ?c" using small by (auto intro!: s32_id)
  have md: "c_mod (int ?n) (int ?c) = int (?n mod ?c)" "c_div (int ?n) (int ?c) = int (?n div ?c)"
    using n c by (simp_all add: c_mod_nonneg c_div_nonneg zmod_int zdiv_int)
  have dv: "?n div ?c < 2147483647"
  proof -
    have "?n + ?c < 2147483648" using small by simp
    then show ?thesis using c div_le_dividend [of ?n ?c] by linarith
  qed
  have s32q: "s32 (int (?n div ?c) + 1) = int (?n div ?c) + 1"
    using small dv by (intro s32_id) auto
  have av: "(if int ?n \<le> int ?c then 1 else if int (?n mod ?c) > 0 \<and> int i < int (?n mod ?c)
      then s32 (int (?n div ?c) + 1) else int (?n div ?c)) = int avg"
    using c unfolding s32q by (auto simp: avg_def)
  have s1: "s32 (int i * int avg) = int (i * avg)"
    using b1 b0 by (subst s32_id) auto
  have s2: "s32 (int (i * avg) + int (?n mod ?c)) = int (i * avg + ?n mod ?c)"
    using b1 b0 by (subst s32_id) (auto simp: zmod_int)
  have st: "(if int (?n mod ?c) > 0 \<and> int i < int (?n mod ?c) then s32 (int i * int avg)
      else s32 (s32 (int i * int avg) + int (?n mod ?c))) = int start"
    unfolding s1 s2 start_def by auto
  have startb: "start < 2 ^ 31" using ar(1) unfolding start_def by auto
  have rg: "s32 (int ?n - int start) = int ?n - int start"
    using startb small by (intro s32_id) auto
  have "alloc_loop mqAll (int ?n) (int start) [0..min (int avg) (int ?n - int start) - 1]
      = Some (share mqAll ?c i)"
    using ar(2)
  proof
    assume "min (int avg) (int ?n - int start) \<le> 0 \<and> share_size ?n ?c i = 0"
    then show ?thesis by (simp add: share_def)
  next
    assume e: "start = share_start ?n ?c i \<and> min (int avg) (int ?n - int start) = int (share_size ?n ?c i)"
    then have "alloc_loop mqAll (int ?n) (int start) [0..int (share_size ?n ?c i) - 1] =
      Some (take (nat (int (share_size ?n ?c i) - 0)) (drop (nat (int start + 0)) mqAll))"
      using share_fits [OF assms(1), of ?n] assms(4) small by (intro alloc_loop_eq) auto
    moreover have "min (int avg) (int ?n - int start) = int (share_size ?n ?c i)" using e ..
    ultimately show ?thesis using e by (simp only: share_def) simp
  qed
  then show ?thesis
    using assms(1,3,4) c
    unfolding allocate_averagely_def Let_def sz idx md av st rg by auto
qed

lemma allocate_shares_map:
  assumes "distinct cidAll" "[] \<notin> set cidAll" "mqAll \<noteq> []" "length mqAll + length cidAll < 2 ^ 31"
  shows "map (\<lambda>cid. allocate_averagely cid mqAll cidAll) cidAll =
         map (\<lambda>i. AllocVector (share mqAll (length cidAll) i)) [0..<length cidAll]"
proof (rule nth_equalityI)
  show "length (map (\<lambda>cid. allocate_averagely cid mqAll cidAll) cidAll) =
    length (map (\<lambda>i. AllocVector (share mqAll (length cidAll) i)) [0..<length cidAll])" by simp
next
  fix i assume "i < length (map (\<lambda>cid. allocate_averagely cid mqAll cidAll) cidAll)"
  then have i: "i < length cidAll" by simp
  then have "cidAll ! i \<noteq> []" using assms(2) by (metis nth_mem)
  with i assms allocate_share [OF i] show
    "map (\<lambda>cid. allocate_averagely cid mqAll cidAll) cidAll ! i =
     map (\<lambda>i. AllocVector (share mqAll (length cidAll) i)) [0..<length cidAll] ! i" by simp
qed

text \<open>The queues a result hands out.\<close>

fun alloc_queues :: "'a alloc_result \<Rightarrow> 'a list" where
  "alloc_queues (AllocVector r) = r"
| "alloc_queues _ = []"

section \<open>The contract of a strategy\<close>

text \<open>What rebalancing relies on: a strategy throws only on an empty argument, and hands out only queues it
  was given.\<close>

locale allocation_strategy =
  fixes alloc :: "string \<Rightarrow> 'a list \<Rightarrow> string list \<Rightarrow> 'a alloc_result"
  assumes throws_only_empty: "alloc cid mqs cids = AllocThrows e \<Longrightarrow> cid = [] \<or> mqs = [] \<or> cids = []"
    and hands_out_given: "alloc cid mqs cids = AllocVector r \<Longrightarrow> set r \<subseteq> set mqs"
begin

lemma no_throw: "cid \<noteq> [] \<Longrightarrow> mqs \<noteq> [] \<Longrightarrow> cids \<noteq> [] \<Longrightarrow> alloc cid mqs cids \<noteq> AllocThrows e"
  using throws_only_empty by blast

lemma queues_given: "set (alloc_queues (alloc cid mqs cids)) \<subseteq> set mqs"
  using hands_out_given by (cases "alloc cid mqs cids") auto

end

lemma alloc_loop_subset: "alloc_loop mqAll n start is = Some r \<Longrightarrow> set r \<subseteq> set mqAll"
proof (induction "is" arbitrary: r)
  case Nil
  then show ?case by simp
next
  case (Cons i "is")
  then show ?case by (auto simp: vec_at_def split: option.splits if_splits)
qed

interpretation averagely: allocation_strategy allocate_averagely
proof
  fix cid cids e and mqs r :: "'a list"
  show "allocate_averagely cid mqs cids = AllocThrows e \<Longrightarrow> cid = [] \<or> mqs = [] \<or> cids = []"
    by (auto simp: allocate_averagely_def Let_def split: if_splits option.splits)
  show "allocate_averagely cid mqs cids = AllocVector r \<Longrightarrow> set r \<subseteq> set mqs"
    by (auto simp: allocate_averagely_def Let_def split: if_splits option.splits dest: alloc_loop_subset [THEN subsetD])
qed

interpretation by_config: allocation_strategy allocate_by_config
  by unfold_locales (simp_all add: allocate_by_config_def)

interpretation by_machine_room: allocation_strategy allocate_by_machine_room
  by unfold_locales (simp_all add: allocate_by_machine_room_def)

section \<open>Claims\<close>

text \<open>
  C4. Rebalancing loses no queue and gives none away twice: for a group of distinct, non-empty
  consumer ids, concatenating what \<open>AllocateMessageQueueAveragely::allocate\<close> returns to each
  consumer, in the order of the consumers, is exactly the list of queues.
\<close>

theorem allocate_partition:
  assumes "distinct cidAll" "[] \<notin> set cidAll" "cidAll \<noteq> []" "mqAll \<noteq> []"
    and "length mqAll + length cidAll < 2 ^ 31"
  shows "concat (map (\<lambda>cid. alloc_queues (allocate_averagely cid mqAll cidAll)) cidAll) = mqAll"
proof -
  have "map (\<lambda>cid. alloc_queues (allocate_averagely cid mqAll cidAll)) cidAll =
        map alloc_queues (map (\<lambda>cid. allocate_averagely cid mqAll cidAll) cidAll)" by simp
  also have "\<dots> = map (share mqAll (length cidAll)) [0..<length cidAll]"
    unfolding allocate_shares_map [OF assms(1,2,4,5)] by simp
  finally show ?thesis
    using assms(3) by (simp add: concat_shares share_start_all)
qed

theorem allocate_partition_witness:
  "concat (map (\<lambda>cid. alloc_queues (allocate_averagely cid [10, 11, 12, 13, 14 :: nat] [''a'', ''b'', ''c'']))
     [''a'', ''b'', ''c'']) = [10, 11, 12, 13, 14]"
  by (rule allocate_partition) auto

text \<open>
  The allocation is balanced and total: every listed consumer gets a vector (never an
  exception, \<open>NULL\<close> or an out-of-range access), whose size is the quotient of queues by
  consumers or one more; the first \<open>mqAllSize % cidAllSize\<close> consumers get the extra queue.
\<close>

theorem allocate_balanced:
  assumes "i < length cidAll" "distinct cidAll" "cidAll ! i \<noteq> []" "mqAll \<noteq> []"
    and "length mqAll + length cidAll < 2 ^ 31"
  shows "\<exists>r. allocate_averagely (cidAll ! i) mqAll cidAll = AllocVector r \<and>
    length r = length mqAll div length cidAll + (if i < length mqAll mod length cidAll then 1 else 0)"
  using allocate_share [OF assms] length_share [OF assms(1), of mqAll] by (simp add: share_size_def)

theorem allocate_balanced_witness:
  "\<exists>r. allocate_averagely ([''a'', ''b'', ''c''] ! 1) [10, 11, 12, 13, 14 :: nat] [''a'', ''b'', ''c''] = AllocVector r \<and>
    length r = length [10, 11, 12, 13, 14 :: nat] div length [''a'', ''b'', ''c''] +
      (if 1 < length [10, 11, 12, 13, 14 :: nat] mod length [''a'', ''b'', ''c''] then 1 else 0)"
  by (rule allocate_balanced) auto

text \<open>
  The error branches: an empty client id, queue list or consumer list throws, in that
  order of checks, and a consumer that is not in the list gets \<open>NULL\<close>.
\<close>

theorem allocate_errors:
  assumes "cid \<notin> set cidAll"
  shows "allocate_averagely cid mqAll cidAll =
    (if cid = [] then AllocThrows (MQClientException ''currentCID is empty'' (-1))
     else if mqAll = [] then AllocThrows (MQClientException ''mqAll is empty'' (-1))
     else if cidAll = [] then AllocThrows (MQClientException ''cidAll is empty'' (-1))
     else AllocNull)"
  using find_cid_absent [OF assms, of 0] by (simp add: allocate_averagely_def Let_def)

theorem allocate_errors_witness:
  "allocate_averagely ''x'' [10 :: nat] [''a''] =
    (if ''x'' = [] then AllocThrows (MQClientException ''currentCID is empty'' (-1))
     else if [10 :: nat] = [] then AllocThrows (MQClientException ''mqAll is empty'' (-1))
     else if [''a''] = [] then AllocThrows (MQClientException ''cidAll is empty'' (-1))
     else AllocNull)"
  by (rule allocate_errors) simp

end
