(* ===== verification/Subscription.thy ===== *)
theory Subscription
  imports Util_All
begin

text \<open>
  \<open>SubscriptionData\<close> (\<open>src/src/consumer/SubscriptionData.cpp\<close>) and
  \<open>FilterAPI::buildSubscriptionData\<close> (\<open>FilterAPI.h\<close>). No constructor sets \<open>m_subVersion\<close>; its
  value in a new object is the argument \<open>junk\<close>.
\<close>

record SubscriptionData =
  sd_topic :: string
  sd_subString :: string
  sd_tagsSet :: "string list"
  sd_codeSet :: "int list"
  sd_subVersion :: int

definition SUB_ALL :: string where "SUB_ALL = ''*''"

definition SubscriptionData_new :: "int \<Rightarrow> SubscriptionData" where
  "SubscriptionData_new junk =
     \<lparr>sd_topic = '''', sd_subString = '''', sd_tagsSet = [], sd_codeSet = [], sd_subVersion = junk\<rparr>"

definition SubscriptionData_make :: "int \<Rightarrow> string \<Rightarrow> string \<Rightarrow> SubscriptionData" where
  "SubscriptionData_make junk topic subString =
     \<lparr>sd_topic = topic, sd_subString = subString, sd_tagsSet = [], sd_codeSet = [], sd_subVersion = junk\<rparr>"

definition sd_eq :: "SubscriptionData \<Rightarrow> SubscriptionData \<Rightarrow> bool" where
  "sd_eq a b =
     (if sd_codeSet a \<noteq> sd_codeSet b then False
      else if sd_subString a \<noteq> sd_subString b then False
      else if sd_subVersion a \<noteq> sd_subVersion b then False
      else if sd_tagsSet a \<noteq> sd_tagsSet b then False
      else if sd_topic a \<noteq> sd_topic b then False
      else True)"

definition sd_lt :: "SubscriptionData \<Rightarrow> SubscriptionData \<Rightarrow> bool" where
  "sd_lt a b =
     (if str_lt (sd_topic a) (sd_topic b) then True
      else if sd_topic a = sd_topic b
        then (if str_lt (sd_subString a) (sd_subString b) then True else False)
      else False)"

definition add_tag :: "string \<Rightarrow> SubscriptionData \<Rightarrow> SubscriptionData" where
  "add_tag tag sd =
     (if tag \<noteq> []
      then let trimString = Trim tag in
        (if trimString \<noteq> []
         then sd\<lparr>sd_tagsSet := set_put str_lt trimString (sd_tagsSet sd),
                 sd_codeSet := set_put ll_lt (hashCode trimString) (sd_codeSet sd)\<rparr>
         else sd)
      else sd)"

text \<open>\<open>None\<close> would be a call that does not return; \<open>Inl\<close> the exception.\<close>

definition buildSubscriptionData :: "int \<Rightarrow> string \<Rightarrow> string \<Rightarrow> (mq_exception + SubscriptionData) option" where
  "buildSubscriptionData junk topic subString =
     (let sd = (SubscriptionData_new junk)\<lparr>sd_topic := topic, sd_subString := subString\<rparr> in
      if subString = [] \<or> subString = SUB_ALL then Some (Inr (sd\<lparr>sd_subString := SUB_ALL\<rparr>))
      else case Split [] subString ''||'' of
        None \<Rightarrow> None
      | Some out \<Rightarrow>
          if out = [] then Some (Inl (MQClientException ''FilterAPI subString split error'' (-1)))
          else Some (Inr (fold add_tag out sd)))"

section \<open>Lemmas\<close>

definition sd_wf :: "SubscriptionData \<Rightarrow> bool" where
  "sd_wf sd \<longleftrightarrow> set_wf str_lt any_key (sd_tagsSet sd) \<and> set_wf ll_lt any_key (sd_codeSet sd)"

lemma add_tag_sets:
  assumes "sd_wf sd"
  shows "sd_wf (add_tag tag sd)"
    and "set (sd_tagsSet (add_tag tag sd)) = set (sd_tagsSet sd) \<union> ({Trim tag} - {[]})"
    and "set (sd_codeSet (add_tag tag sd)) = set (sd_codeSet sd) \<union> hashCode ` ({Trim tag} - {[]})"
    and "sd_topic (add_tag tag sd) = sd_topic sd" and "sd_subString (add_tag tag sd) = sd_subString sd"
proof -
  have e: "Trim [] = []" by (simp add: Trim_def)
  show "sd_wf (add_tag tag sd)"
    using assms by (auto simp: add_tag_def sd_wf_def Let_def str.set_put_wf ll.set_put_wf)
  show "set (sd_tagsSet (add_tag tag sd)) = set (sd_tagsSet sd) \<union> ({Trim tag} - {[]})"
    using assms e by (auto simp: add_tag_def sd_wf_def Let_def str.set_put_set)
  show "set (sd_codeSet (add_tag tag sd)) = set (sd_codeSet sd) \<union> hashCode ` ({Trim tag} - {[]})"
    using assms e by (auto simp: add_tag_def sd_wf_def Let_def ll.set_put_set)
  show "sd_topic (add_tag tag sd) = sd_topic sd" "sd_subString (add_tag tag sd) = sd_subString sd"
    by (simp_all add: add_tag_def Let_def)
qed

lemma fold_add_tag:
  assumes "sd_wf sd"
  shows "sd_wf (fold add_tag ts sd) \<and>
    set (sd_tagsSet (fold add_tag ts sd)) = set (sd_tagsSet sd) \<union> (Trim ` set ts - {[]}) \<and>
    set (sd_codeSet (fold add_tag ts sd)) = set (sd_codeSet sd) \<union> hashCode ` (Trim ` set ts - {[]}) \<and>
    sd_topic (fold add_tag ts sd) = sd_topic sd \<and> sd_subString (fold add_tag ts sd) = sd_subString sd"
  using assms
proof (induction ts arbitrary: sd)
  case Nil
  then show ?case by simp
next
  case (Cons t ts)
  note s = add_tag_sets [OF Cons.prems, of t]
  have "sd_wf (fold add_tag (t # ts) sd)" using Cons.IH [OF s(1)] by simp
  moreover have "set (sd_tagsSet (fold add_tag (t # ts) sd)) = set (sd_tagsSet sd) \<union> (Trim ` set (t # ts) - {[]})"
    using Cons.IH [OF s(1)] s(2) by auto
  moreover have "set (sd_codeSet (fold add_tag (t # ts) sd)) =
      set (sd_codeSet sd) \<union> hashCode ` (Trim ` set (t # ts) - {[]})"
    using Cons.IH [OF s(1)] s(3) by auto
  ultimately show ?case using Cons.IH [OF s(1)] s(4,5) by simp
qed

section \<open>Claims\<close>

text \<open>
  A tag expression is parsed into exactly its tags: the call always returns an object for the topic and
  never throws; the empty expression and \<open>*\<close> mean all messages (no tags); otherwise the tag set is the set
  of the non-blank trimmed pieces of the expression between its double bars, and the code set holds their
  hash codes.
\<close>

theorem buildSubscriptionData_tags:
  "\<exists>sd. buildSubscriptionData junk topic expr = Some (Inr sd) \<and> sd_wf sd \<and> sd_topic sd = topic \<and>
     set (sd_codeSet sd) = hashCode ` set (sd_tagsSet sd) \<and>
     (if expr = [] \<or> expr = ''*'' then sd_subString sd = ''*'' \<and> sd_tagsSet sd = []
      else sd_subString sd = expr \<and>
        (\<exists>r. join ''||'' r = expr \<and> (\<forall>x \<in> set r. free_of ''||'' x) \<and> set (sd_tagsSet sd) = Trim ` set r - {[]}))"
proof (cases "expr = [] \<or> expr = ''*''")
  case True
  then show ?thesis
    by (auto simp: buildSubscriptionData_def SubscriptionData_new_def SUB_ALL_def sd_wf_def)
next
  case False
  define sd where "sd = (SubscriptionData_new junk)\<lparr>sd_topic := topic, sd_subString := expr\<rparr>"
  have sd: "sd_wf sd" "sd_tagsSet sd = []" "sd_codeSet sd = []" "sd_topic sd = topic" "sd_subString sd = expr"
    by (simp_all add: sd_def SubscriptionData_new_def sd_wf_def)
  obtain r where r: "split_loop ''||'' expr = Some r" "r \<noteq> []" "join ''||'' r = expr" "\<forall>x \<in> set r. free_of ''||'' x"
    using split_loop_Some [of "''||''" expr] by auto
  have b: "buildSubscriptionData junk topic expr = Some (Inr (fold add_tag r sd))"
    using False r(1,2) by (simp add: buildSubscriptionData_def Split_def SUB_ALL_def Let_def sd_def)
  have "set (sd_tagsSet (fold add_tag r sd)) = Trim ` set r - {[]}"
    using fold_add_tag [OF sd(1), of r] sd(2) by simp
  then show ?thesis
    using False b r(3,4) fold_add_tag [OF sd(1), of r] sd by auto
qed

theorem buildSubscriptionData_tags_witness:
  "\<exists>sd. buildSubscriptionData 0 ''t'' '' a ||b'' = Some (Inr sd) \<and> sd_subString sd = '' a ||b''"
  using buildSubscriptionData_tags [of 0 "''t''" "'' a ||b''"] by auto

end
