(* ===== verification/Process_Queue.thy ===== *)
theory Process_Queue
  imports Message_Data
begin

text \<open>
  \<open>ProcessQueue\<close> (\<open>src/src/consumer/ProcessQueue.cpp\<close>): the messages of one queue that
  were pulled and are not yet acknowledged. Messages are addressed by pointer: \<open>heap\<close> maps
  the live addresses to \<open>MessageExt\<close> objects, \<open>delete\<close> removes one, and an operation
  that dereferences a dangling pointer is \<open>None\<close>. \<open>m_msgTreeMap\<close> holds the messages to
  consume, \<open>m_msgTreeMapTemp\<close> those handed to an orderly listener and not committed. Every
  operation runs under \<open>m_lockTreeMap\<close>, so it is one atomic step of the model.

  The lemmas give the effect of each operation on the two offset sets, the invariant
  \<open>pq_wf\<close>, the accounting of \<open>m_msgCount\<close>, and the safety of the offset that
  \<open>removeMessage\<close> and \<open>commit\<close> return.
\<close>

type_synonym addr = nat
type_synonym heap = "addr \<Rightarrow> MessageExt option"

record ProcessQueue =
  m_msgTreeMap :: "(int, addr) smap"
  m_queueOffsetMax :: int
  m_msgCount :: int
  m_droped :: bool
  m_locked :: bool
  m_lastLockTimestamp :: int
  m_consuming :: bool
  m_msgTreeMapTemp :: "(int, addr) smap"

definition s_RebalanceLockMaxLiveTime :: int where "s_RebalanceLockMaxLiveTime = 30000"
definition s_RebalanceLockInterval :: int where "s_RebalanceLockInterval = 20000"

definition ProcessQueue_new :: "int \<Rightarrow> ProcessQueue" where
  "ProcessQueue_new now =
     \<lparr>m_msgTreeMap = [], m_queueOffsetMax = 0, m_msgCount = 0, m_droped = False, m_locked = False,
      m_lastLockTimestamp = now, m_consuming = False, m_msgTreeMapTemp = []\<rparr>"

text \<open>Both operands are \<open>unsigned long long\<close>, so the difference wraps.\<close>

definition isLockExpired :: "int \<Rightarrow> ProcessQueue \<Rightarrow> bool" where
  "isLockExpired now pq \<longleftrightarrow> u64 (now - m_lastLockTimestamp pq) > s_RebalanceLockMaxLiveTime"

text \<open>The pointers of a list paired with \<open>msg->getQueueOffset()\<close>.\<close>

fun deref_offsets :: "heap \<Rightarrow> addr list \<Rightarrow> (int \<times> addr) list option" where
  "deref_offsets h [] = Some []"
| "deref_offsets h (p # ps) =
     (case h p of None \<Rightarrow> None
      | Some m \<Rightarrow> (case deref_offsets h ps of None \<Rightarrow> None
                   | Some r \<Rightarrow> Some ((ext_queueOffset m, p) # r)))"

definition put_all :: "(int \<times> addr) list \<Rightarrow> (int, addr) smap \<Rightarrow> (int, addr) smap" where
  "put_all ops m = fold (\<lambda>x m. map_put ll_lt (fst x) (snd x) m) ops m"

definition erase_all :: "(int \<times> addr) list \<Rightarrow> (int, addr) smap \<Rightarrow> (int, addr) smap" where
  "erase_all ops m = fold (\<lambda>x m. map_erase ll_lt (fst x) m) ops m"

definition putMessage :: "heap \<Rightarrow> addr list \<Rightarrow> ProcessQueue \<Rightarrow> (bool \<times> ProcessQueue) option" where
  "putMessage h msgs pq =
     (case deref_offsets h msgs of None \<Rightarrow> None
      | Some ops \<Rightarrow>
         (let pq = pq\<lparr>m_msgTreeMap := put_all ops (m_msgTreeMap pq),
                      m_queueOffsetMax := (if ops = [] then m_queueOffsetMax pq else fst (last ops))\<rparr>;
              pq = pq\<lparr>m_msgCount := s64 (m_msgCount pq + int (length msgs))\<rparr>
          in if m_msgTreeMap pq \<noteq> [] \<and> \<not> m_consuming pq
             then Some (True, pq\<lparr>m_consuming := True\<rparr>)
             else Some (False, pq)))"

definition getMaxSpan :: "ProcessQueue \<Rightarrow> int" where
  "getMaxSpan pq =
     (if m_msgTreeMap pq \<noteq> []
      then s64 (fst (last (m_msgTreeMap pq)) - fst (hd (m_msgTreeMap pq)))
      else 0)"

definition removeMessage :: "heap \<Rightarrow> addr list \<Rightarrow> ProcessQueue \<Rightarrow> (int \<times> ProcessQueue) option" where
  "removeMessage h msgs pq =
     (if m_msgTreeMap pq = [] then Some (-1, pq)
      else case deref_offsets h msgs of None \<Rightarrow> None
      | Some ops \<Rightarrow>
         (let origin = fst (hd (m_msgTreeMap pq));
              result = s64 (m_queueOffsetMax pq + 1);
              pq = pq\<lparr>m_msgTreeMap := erase_all ops (m_msgTreeMap pq)\<rparr>;
              pq = pq\<lparr>m_msgCount := s64 (m_msgCount pq - int (length msgs))\<rparr>
          in if m_msgTreeMap pq \<noteq> []
             then if origin \<noteq> fst (hd (m_msgTreeMap pq))
                  then Some (fst (hd (m_msgTreeMap pq)), pq)
                  else Some (-1, pq)
             else Some (result, pq)))"

definition setDroped :: "bool \<Rightarrow> ProcessQueue \<Rightarrow> ProcessQueue" where
  "setDroped b pq = pq\<lparr>m_droped := b\<rparr>"

definition setLocked :: "bool \<Rightarrow> ProcessQueue \<Rightarrow> ProcessQueue" where
  "setLocked b pq = pq\<lparr>m_locked := b\<rparr>"

definition setLastLockTimestamp :: "int \<Rightarrow> ProcessQueue \<Rightarrow> ProcessQueue" where
  "setLastLockTimestamp t pq = pq\<lparr>m_lastLockTimestamp := u64 t\<rparr>"

definition rollback :: "ProcessQueue \<Rightarrow> ProcessQueue" where
  "rollback pq = pq\<lparr>m_msgTreeMap := put_all (m_msgTreeMapTemp pq) (m_msgTreeMap pq),
                     m_msgTreeMapTemp := []\<rparr>"

definition commit :: "ProcessQueue \<Rightarrow> int \<times> ProcessQueue" where
  "commit pq =
     (if m_msgTreeMapTemp pq \<noteq> []
      then let offset = fst (last (m_msgTreeMapTemp pq));
               pq = pq\<lparr>m_msgCount := s64 (m_msgCount pq - int (length (m_msgTreeMapTemp pq)))\<rparr>;
               pq = pq\<lparr>m_msgTreeMapTemp := []\<rparr>
           in (s64 (offset + 1), pq)
      else (-1, pq))"

definition consume_again1 :: "int \<times> addr \<Rightarrow> ProcessQueue \<Rightarrow> ProcessQueue" where
  "consume_again1 op pq =
     pq\<lparr>m_msgTreeMapTemp := map_erase ll_lt (fst op) (m_msgTreeMapTemp pq),
        m_msgTreeMap := map_put ll_lt (fst op) (snd op) (m_msgTreeMap pq)\<rparr>"

definition makeMessageToCosumeAgain :: "heap \<Rightarrow> addr list \<Rightarrow> ProcessQueue \<Rightarrow> ProcessQueue option" where
  "makeMessageToCosumeAgain h msgs pq =
     (case deref_offsets h msgs of None \<Rightarrow> None | Some ops \<Rightarrow> Some (fold consume_again1 ops pq))"

text \<open>The loop of \<open>takeMessags\<close>: \<open>i\<close> counts down from \<open>batchSize\<close>.\<close>

fun take_loop :: "nat \<Rightarrow> (int, addr) smap \<Rightarrow> (int, addr) smap \<Rightarrow> addr list
    \<Rightarrow> addr list \<times> (int, addr) smap \<times> (int, addr) smap" where
  "take_loop 0 tree temp result = (result, tree, temp)"
| "take_loop (Suc i) tree temp result =
     (case tree of
        [] \<Rightarrow> (result, tree, temp)
      | (k, p) # rest \<Rightarrow> take_loop i rest (map_put ll_lt k p temp) (result @ [p]))"

definition takeMessags :: "int \<Rightarrow> ProcessQueue \<Rightarrow> addr list \<times> ProcessQueue" where
  "takeMessags batchSize pq =
     (let (result, tree, temp) =
            (if m_msgTreeMap pq \<noteq> []
             then take_loop (nat batchSize) (m_msgTreeMap pq) (m_msgTreeMapTemp pq) []
             else ([], m_msgTreeMap pq, m_msgTreeMapTemp pq));
          pq = pq\<lparr>m_msgTreeMap := tree, m_msgTreeMapTemp := temp\<rparr>
      in if result = [] then (result, pq\<lparr>m_consuming := False\<rparr>) else (result, pq))"

section \<open>Abstraction and invariant\<close>

abbreviation ll_wf :: "(int, addr) smap \<Rightarrow> bool" where "ll_wf \<equiv> map_wf ll_lt any_key"

definition keys_of :: "('k, 'v) smap \<Rightarrow> 'k set" where
  "keys_of m = fst ` set m"

definition pending :: "ProcessQueue \<Rightarrow> int set" where
  "pending pq = keys_of (m_msgTreeMap pq)"

definition inflight :: "ProcessQueue \<Rightarrow> int set" where
  "inflight pq = keys_of (m_msgTreeMapTemp pq)"

definition pq_wf :: "ProcessQueue \<Rightarrow> bool" where
  "pq_wf pq \<longleftrightarrow> ll_wf (m_msgTreeMap pq) \<and> ll_wf (m_msgTreeMapTemp pq) \<and> pending pq \<inter> inflight pq = {}"

definition pq_counted :: "ProcessQueue \<Rightarrow> bool" where
  \<comment> \<open>\<open>m_msgCount\<close> is the number of messages held\<close>
  "pq_counted pq \<longleftrightarrow> m_msgCount pq = int (card (pending pq) + card (inflight pq))"

definition pq_live :: "heap \<Rightarrow> ProcessQueue \<Rightarrow> bool" where
  \<comment> \<open>every held pointer is a live message with the offset it is filed under\<close>
  "pq_live h pq \<longleftrightarrow>
     list_all (\<lambda>(k, p). case h p of None \<Rightarrow> False | Some m \<Rightarrow> ext_queueOffset m = k)
       (m_msgTreeMap pq @ m_msgTreeMapTemp pq)"

section \<open>Lemmas\<close>

lemma keys_of_simps [simp]:
  "keys_of [] = {}" "keys_of (x # m) = insert (fst x) (keys_of m)" "keys_of (m @ m') = keys_of m \<union> keys_of m'"
  by (auto simp: keys_of_def)

lemma finite_keys_of [simp]: "finite (keys_of m)"
  by (simp add: keys_of_def)

lemma card_keys_of: "ll_wf m \<Longrightarrow> card (keys_of m) = length m"
  using distinct_card [OF ll.wf_distinct, of m] by (simp add: keys_of_def)

lemma ll_wf_put_all [simp]: "ll_wf m \<Longrightarrow> ll_wf (put_all ops m)"
  unfolding put_all_def by (rule ll.fold_put_wf) (auto simp: list_all_iff)

lemma keys_put_all: "ll_wf m \<Longrightarrow> keys_of (put_all ops m) = keys_of m \<union> keys_of ops"
  unfolding put_all_def keys_of_def using ll.fold_put_keys [where m = m and f = fst and xs = ops and g = snd]
  by (simp add: list_all_iff)

lemma ll_wf_erase_all [simp]: "ll_wf m \<Longrightarrow> ll_wf (erase_all ops m)"
  unfolding erase_all_def by (rule ll.fold_erase_wf)

lemma keys_erase_all: "ll_wf m \<Longrightarrow> keys_of (erase_all ops m) = keys_of m - keys_of ops"
  unfolding erase_all_def keys_of_def using ll.fold_erase_keys [where m = m and f = fst and xs = ops]
  by (simp add: list_all_iff)

lemma ll_wf_hd_least: "ll_wf m \<Longrightarrow> k \<in> keys_of m \<Longrightarrow> fst (hd m) \<le> k"
  by (cases m) (auto simp: keys_of_def, force)

lemma ll_wf_append: "ll_wf (a @ b) \<longleftrightarrow> ll_wf a \<and> ll_wf b \<and> (\<forall>x \<in> keys_of a. \<forall>y \<in> keys_of b. x < y)"
  by (auto simp: map_wf_def sorted_wrt_append keys_of_def)

lemma ll_wf_last_greatest: "ll_wf m \<Longrightarrow> k \<in> keys_of m \<Longrightarrow> k \<le> fst (last m)"
proof (induction m rule: rev_induct)
  case Nil
  then show ?case by simp
next
  case (snoc x m)
  then show ?case by (auto simp: ll_wf_append)
qed

lemma last_in_keys: "m \<noteq> [] \<Longrightarrow> fst (last m) \<in> keys_of m"
  by (simp add: keys_of_def)

lemma hd_in_keys: "m \<noteq> [] \<Longrightarrow> fst (hd m) \<in> keys_of m"
  by (simp add: keys_of_def)

lemma deref_offsets_snd: "deref_offsets h ps = Some ops \<Longrightarrow> map snd ops = ps"
  by (induction ps arbitrary: ops) (auto split: option.splits)

lemma deref_offsets_length: "deref_offsets h ps = Some ops \<Longrightarrow> length ops = length ps"
  by (auto dest: deref_offsets_snd)

lemma deref_offsets_live:
  assumes "list_all (\<lambda>(k, p). case h p of None \<Rightarrow> False | Some m \<Rightarrow> ext_queueOffset m = k) kps"
  shows "deref_offsets h (map snd kps) = Some kps"
  using assms by (induction kps) (auto split: option.splits)

lemma put_eq_snoc:
  assumes "ll_wf m" "\<forall>x \<in> keys_of m. x < k"
  shows "map_put ll_lt k p m = m @ [(k, p)]"
  using assms by (induction m) auto

text \<open>The batch is the first \<open>min batchSize size\<close> entries in offset order.\<close>

lemma take_loop_result:
  "take_loop n tree temp res =
     (res @ map snd (take n tree), drop n tree, put_all (take n tree) temp)"
proof (induction n tree temp res rule: take_loop.induct)
  case (1 tree temp result)
  then show ?case by (simp add: put_all_def)
next
  case (2 i tree temp result)
  then show ?case by (cases tree) (auto simp: put_all_def)
qed

lemma takeMessags_eq:
  "takeMessags n pq =
     (let t = m_msgTreeMap pq; k = nat n; r = map snd (take k t);
          pq' = pq\<lparr>m_msgTreeMap := drop k t, m_msgTreeMapTemp := put_all (take k t) (m_msgTreeMapTemp pq)\<rparr>
      in if r = [] then (r, pq'\<lparr>m_consuming := False\<rparr>) else (r, pq'))"
  by (auto simp: takeMessags_def take_loop_result Let_def put_all_def)

lemma take_drop_keys:
  assumes "ll_wf m"
  shows "keys_of m = keys_of (take n m) \<union> keys_of (drop n m)"
    and "\<forall>x \<in> keys_of (take n m). \<forall>y \<in> keys_of (drop n m). x < y"
    and "ll_wf (take n m)" and "ll_wf (drop n m)"
  using assms ll_wf_append [of "take n m" "drop n m"]
  by (auto simp: keys_of_def simp flip: image_Un set_append)

lemma takeMessags_fields:
  assumes "takeMessags n pq = (r, pq')"
  shows "m_msgTreeMap pq' = drop (nat n) (m_msgTreeMap pq)"
    and "m_msgTreeMapTemp pq' = put_all (take (nat n) (m_msgTreeMap pq)) (m_msgTreeMapTemp pq)"
    and "r = map snd (take (nat n) (m_msgTreeMap pq))"
    and "m_msgCount pq' = m_msgCount pq" and "m_queueOffsetMax pq' = m_queueOffsetMax pq"
  using assms by (auto simp: takeMessags_eq Let_def split: if_splits)

lemma takeMessags_wf:
  assumes "pq_wf pq" "takeMessags n pq = (r, pq')"
  shows "pq_wf pq'" and "pending pq' \<union> inflight pq' = pending pq \<union> inflight pq"
    and "inflight pq \<subseteq> inflight pq'"
proof -
  let ?t = "take (nat n) (m_msgTreeMap pq)" and ?d = "drop (nat n) (m_msgTreeMap pq)"
  have w: "ll_wf (m_msgTreeMap pq)" "ll_wf (m_msgTreeMapTemp pq)"
    and dis: "keys_of (m_msgTreeMap pq) \<inter> keys_of (m_msgTreeMapTemp pq) = {}"
    using assms(1) by (auto simp: pq_wf_def pending_def inflight_def)
  note td = take_drop_keys [OF w(1), of "nat n"] and f = takeMessags_fields [OF assms(2)]
  have i: "inflight pq' = inflight pq \<union> keys_of ?t" and p: "pending pq' = keys_of ?d"
    using keys_put_all [OF w(2)] by (auto simp: inflight_def pending_def f)
  show "pq_wf pq'"
    using w td dis unfolding pq_wf_def i p
    by (simp add: f inflight_def) (blast dest: order.asym)
  show "pending pq' \<union> inflight pq' = pending pq \<union> inflight pq"
    using td(1) unfolding i p by (auto simp: pending_def)
  show "inflight pq \<subseteq> inflight pq'" unfolding i by blast
qed

lemma card_pq: "pq_wf pq \<Longrightarrow> card (pending pq) + card (inflight pq) = card (pending pq \<union> inflight pq)"
  by (subst card_Un_disjoint) (auto simp: pq_wf_def pending_def inflight_def)

lemma takeMessags_counted:
  "pq_wf pq \<Longrightarrow> pq_counted pq \<Longrightarrow> takeMessags n pq = (r, pq') \<Longrightarrow> pq_counted pq'"
  unfolding pq_counted_def
  by (simp add: card_pq takeMessags_wf takeMessags_fields)

lemma rollback_wf:
  assumes "pq_wf pq"
  shows "pq_wf (rollback pq)" and "pending (rollback pq) = pending pq \<union> inflight pq"
    and "inflight (rollback pq) = {}"
  using assms by (auto simp: pq_wf_def pending_def inflight_def rollback_def keys_put_all)

lemma rollback_counted: "pq_wf pq \<Longrightarrow> pq_counted pq \<Longrightarrow> pq_counted (rollback pq)"
  using card_pq [of pq] by (simp add: pq_counted_def rollback_wf) (simp add: rollback_def)

lemma commit_wf:
  assumes "pq_wf pq"
  shows "pq_wf (snd (commit pq))" and "pending (snd (commit pq)) = pending pq"
    and "inflight (snd (commit pq)) = {}"
  using assms by (auto simp: commit_def Let_def pq_wf_def pending_def inflight_def)

lemma commit_counted:
  assumes "pq_wf pq" "pq_counted pq" "is_s64 (m_msgCount pq)"
  shows "pq_counted (snd (commit pq))"
proof -
  have "length (m_msgTreeMapTemp pq) = card (inflight pq)"
    using assms(1) by (simp add: pq_wf_def inflight_def card_keys_of)
  with assms show ?thesis
    by (auto simp: commit_def Let_def pq_counted_def pending_def inflight_def s64_id)
qed

lemma consume_again1_wf:
  assumes "pq_wf pq"
  shows "pq_wf (consume_again1 op pq)"
    and "pending (consume_again1 op pq) = insert (fst op) (pending pq)"
    and "inflight (consume_again1 op pq) = inflight pq - {fst op}"
  using assms ll.put_keys [of "m_msgTreeMap pq"] ll.erase_keys [of "m_msgTreeMapTemp pq"]
  by (auto simp: pq_wf_def pending_def inflight_def consume_again1_def keys_of_def ll.put_wf ll.erase_wf)

lemma fold_consume_again_wf:
  assumes "pq_wf pq"
  shows "pq_wf (fold consume_again1 ops pq) \<and>
    pending (fold consume_again1 ops pq) = pending pq \<union> keys_of ops \<and>
    inflight (fold consume_again1 ops pq) = inflight pq - keys_of ops"
  using assms
proof (induction ops arbitrary: pq)
  case Nil
  then show ?case by simp
next
  case (Cons op ops)
  then show ?case using consume_again1_wf [OF Cons.prems, of op] by auto
qed

lemma removeMessage_cases:
  assumes "removeMessage h msgs pq = Some (r, pq')" "m_msgTreeMap pq \<noteq> []"
  obtains ops where "deref_offsets h msgs = Some ops"
    and "pq' = pq\<lparr>m_msgTreeMap := erase_all ops (m_msgTreeMap pq),
                  m_msgCount := s64 (m_msgCount pq - int (length msgs))\<rparr>"
    and "r = (if m_msgTreeMap pq' = [] then s64 (m_queueOffsetMax pq + 1)
              else if fst (hd (m_msgTreeMap pq)) \<noteq> fst (hd (m_msgTreeMap pq')) then fst (hd (m_msgTreeMap pq'))
              else -1)"
  using assms by (auto simp: removeMessage_def Let_def split: option.splits if_splits)

lemma removeMessage_wf:
  assumes "pq_wf pq" "removeMessage h msgs pq = Some (r, pq')"
  shows "pq_wf pq'" and "pending pq' \<subseteq> pending pq" and "inflight pq' = inflight pq"
  using assms
  by (auto simp: removeMessage_def Let_def pq_wf_def pending_def inflight_def keys_erase_all
      split: option.splits if_splits)

lemma putMessage_fields:
  assumes "putMessage h msgs pq = Some (d, pq')" "deref_offsets h msgs = Some ops"
  shows "m_msgTreeMap pq' = put_all ops (m_msgTreeMap pq)"
    and "m_msgTreeMapTemp pq' = m_msgTreeMapTemp pq"
    and "m_msgCount pq' = s64 (m_msgCount pq + int (length msgs))"
    and "m_queueOffsetMax pq' = (if ops = [] then m_queueOffsetMax pq else fst (last ops))"
  using assms by (auto simp: putMessage_def Let_def split: if_splits)

lemma putMessage_wf:
  assumes "pq_wf pq" "putMessage h msgs pq = Some (d, pq')" "deref_offsets h msgs = Some ops"
    and "keys_of ops \<inter> inflight pq = {}"
  shows "pq_wf pq'" and "pending pq' = pending pq \<union> keys_of ops" and "inflight pq' = inflight pq"
  using assms putMessage_fields [OF assms(2,3)]
  by (auto simp: pq_wf_def pending_def inflight_def keys_put_all)

lemma putMessage_counted:
  assumes "pq_wf pq" "pq_counted pq" "putMessage h msgs pq = Some (d, pq')"
    and "deref_offsets h msgs = Some ops" "distinct (map fst ops)"
    and "keys_of ops \<inter> (pending pq \<union> inflight pq) = {}"
    and "is_s64 (m_msgCount pq + int (length msgs))"
  shows "pq_counted pq'"
proof -
  have k: "card (keys_of ops) = length msgs"
    using assms(4,5) distinct_card [of "map fst ops"] by (simp add: keys_of_def deref_offsets_length)
  have "card (pending pq \<union> keys_of ops) = card (pending pq) + card (keys_of ops)"
    using assms(6) by (intro card_Un_disjoint) (auto simp: pending_def)
  with k assms putMessage_wf [OF assms(1,3,4)] show ?thesis
    by (simp add: pq_counted_def putMessage_fields(3) [OF assms(3,4)] s64_id Int_Un_distrib)
qed

lemma removeMessage_counted:
  assumes "pq_wf pq" "pq_counted pq" "removeMessage h msgs pq = Some (r, pq')"
    and "deref_offsets h msgs = Some ops" "distinct (map fst ops)" "keys_of ops \<subseteq> pending pq"
    and "is_s64 (m_msgCount pq)"
  shows "pq_counted pq'"
proof (cases "m_msgTreeMap pq = []")
  case True
  with assms(3,2) show ?thesis by (simp add: removeMessage_def)
next
  case False
  have k: "card (keys_of ops) = length msgs"
    using assms(4,5) distinct_card [of "map fst ops"] by (simp add: keys_of_def deref_offsets_length)
  have le: "card (keys_of ops) \<le> card (pending pq)"
    using assms(6) by (intro card_mono) (auto simp: pending_def)
  from removeMessage_cases [OF assms(3) False] obtain ops' where
    "deref_offsets h msgs = Some ops'" and pq': "pq' = pq\<lparr>m_msgTreeMap := erase_all ops' (m_msgTreeMap pq),
                  m_msgCount := s64 (m_msgCount pq - int (length msgs))\<rparr>" .
  with assms(4) have [simp]: "ops' = ops" by simp
  have "pending pq' = pending pq - keys_of ops"
    using assms(1) pq' by (simp add: pending_def pq_wf_def keys_erase_all)
  then have c: "card (pending pq') = card (pending pq) - length msgs"
    using assms(6) k by (simp add: card_Diff_subset pending_def)
  have "s64 (m_msgCount pq - int (length msgs)) = m_msgCount pq - int (length msgs)"
    using assms(2,7) le k by (intro s64_id) (auto simp: pq_counted_def)
  with c k le assms(2) pq' show ?thesis by (simp add: pq_counted_def inflight_def)
qed

section \<open>The contract an orderly consumer relies on\<close>

text \<open>
  A queue that hands out batches: what \<open>take\<close> moves in flight, what \<open>commit\<close> and
  \<open>rollback\<close> do with it. The orderly consume service uses \<open>ProcessQueue\<close> through these
  operations only.
\<close>

locale batch_queue =
  fixes take_b :: "int \<Rightarrow> 'q \<Rightarrow> 'm list \<times> 'q" and commit_b :: "'q \<Rightarrow> int \<times> 'q"
    and rollback_b :: "'q \<Rightarrow> 'q" and pend :: "'q \<Rightarrow> int set" and infl :: "'q \<Rightarrow> int set"
    and inv :: "'q \<Rightarrow> bool"
  assumes take_inv: "inv q \<Longrightarrow> take_b n q = (r, q') \<Longrightarrow> inv q'"
    and take_conserves: "inv q \<Longrightarrow> take_b n q = (r, q') \<Longrightarrow> pend q' \<union> infl q' = pend q \<union> infl q"
    and take_grows: "inv q \<Longrightarrow> take_b n q = (r, q') \<Longrightarrow> infl q \<subseteq> infl q'"
    and take_in_order: "inv q \<Longrightarrow> take_b n q = (r, q') \<Longrightarrow> x \<in> infl q' - infl q \<Longrightarrow> y \<in> pend q' \<Longrightarrow> x < y"
    and inv_disjoint: "inv q \<Longrightarrow> pend q \<inter> infl q = {}"
    and inv_finite: "inv q \<Longrightarrow> finite (infl q)"
    and commit_inv: "inv q \<Longrightarrow> inv (snd (commit_b q))"
    and commit_sets: "inv q \<Longrightarrow> pend (snd (commit_b q)) = pend q \<and> infl (snd (commit_b q)) = {}"
    and commit_offset: "inv q \<Longrightarrow> fst (commit_b q) = (if infl q = {} then -1 else s64 (Max (infl q) + 1))"
    and rollback_inv: "inv q \<Longrightarrow> inv (rollback_b q)"
    and rollback_sets: "inv q \<Longrightarrow> pend (rollback_b q) = pend q \<union> infl q \<and> infl (rollback_b q) = {}"
begin

lemma take_then_rollback:
  assumes "inv q" "take_b n q = (r, q')"
  shows "pend (rollback_b q') = pend q \<union> infl q" and "infl (rollback_b q') = {}"
  using rollback_sets [OF take_inv [OF assms]] take_conserves [OF assms] by auto

lemma take_then_commit:
  assumes "inv q" "infl q = {}" "take_b n q = (r, q')" "infl q' \<noteq> {}" "Max (infl q') < 2 ^ 63 - 1"
    and "- (2 ^ 63) \<le> Max (infl q')"
  defines "c \<equiv> commit_b q'"
  shows "\<forall>y \<in> pend (snd c). fst c \<le> y" and "\<forall>x \<in> pend q - pend (snd c). x < fst c"
proof -
  have i: "inv q'" using take_inv assms by blast
  have off: "fst c = Max (infl q') + 1"
    using commit_offset [OF i] assms by (simp add: s64_id)
  have p: "pend (snd c) = pend q'" using commit_sets [OF i] by (simp add: c_def)
  have M: "Max (infl q') \<in> infl q' - infl q"
    using Max_in inv_finite [OF i] assms(2,4) by simp
  show "\<forall>y \<in> pend (snd c). fst c \<le> y"
    using take_in_order [OF assms(1,3) M] unfolding p off by (simp add: zless_imp_add1_zle)
  have "pend q - pend q' \<subseteq> infl q'"
    using take_conserves [OF assms(1,3)] assms(2) by blast
  then show "\<forall>x \<in> pend q - pend (snd c). x < fst c"
    using inv_finite [OF i] unfolding p off by (auto dest!: subsetD intro: le_imp_less_Suc Max_ge)
qed

end

lemma commit_offset_Max: "pq_wf pq \<Longrightarrow> fst (commit pq) = (if inflight pq = {} then -1 else s64 (Max (inflight pq) + 1))"
proof -
  assume w: "pq_wf pq"
  show ?thesis
  proof (cases "m_msgTreeMapTemp pq = []")
    case True
    then show ?thesis by (simp add: commit_def inflight_def)
  next
    case False
    then have "inflight pq \<noteq> {}" by (cases "m_msgTreeMapTemp pq") (auto simp: inflight_def)
    moreover have "Max (inflight pq) = fst (last (m_msgTreeMapTemp pq))"
      using w False unfolding inflight_def
      by (intro Max_eqI) (auto simp: pq_wf_def ll_wf_last_greatest last_in_keys)
    ultimately show ?thesis using False by (simp add: commit_def Let_def)
  qed
qed

lemma takeMessags_in_order:
  assumes "pq_wf pq" "takeMessags n pq = (r, pq')" "x \<in> inflight pq' - inflight pq" "y \<in> pending pq'"
  shows "x < y"
proof -
  have w: "ll_wf (m_msgTreeMap pq)" "ll_wf (m_msgTreeMapTemp pq)" using assms(1) by (auto simp: pq_wf_def)
  have "x \<in> keys_of (take (nat n) (m_msgTreeMap pq))"
    using assms(3) keys_put_all [OF w(2)] by (auto simp: inflight_def takeMessags_fields [OF assms(2)])
  moreover have "y \<in> keys_of (drop (nat n) (m_msgTreeMap pq))"
    using assms(4) by (simp add: pending_def takeMessags_fields [OF assms(2)])
  ultimately show ?thesis using take_drop_keys(2) [OF w(1)] by blast
qed

interpretation pq: batch_queue takeMessags commit rollback pending inflight pq_wf
proof (unfold_locales, goal_cases)
  case 4
  then show ?case using takeMessags_in_order by blast
next
  case 5
  then show ?case by (simp add: pq_wf_def)
next
  case 6
  then show ?case by (simp add: inflight_def)
qed (simp_all add: takeMessags_wf commit_wf rollback_wf commit_offset_Max)

section \<open>Claims\<close>

lemma pending_empty_iff: "pending pq = {} \<longleftrightarrow> m_msgTreeMap pq = []"
  by (cases "m_msgTreeMap pq") (auto simp: pending_def)

lemma Min_pending: "pq_wf pq \<Longrightarrow> m_msgTreeMap pq \<noteq> [] \<Longrightarrow> Min (pending pq) = fst (hd (m_msgTreeMap pq))"
  unfolding pending_def by (intro Min_eqI) (auto simp: pq_wf_def ll_wf_hd_least hd_in_keys)

text \<open>
  C3. \<open>removeMessage\<close> returns the consume progress that is safe to store: the offset it gives
  back (when it is not the "nothing to update" value -1) is not above any message that is
  still waiting, and it is exactly the smallest waiting offset, the offset after the newest
  message when nothing is left, and -1 when the head of the queue did not move. The messages
  removed are those of the batch.
\<close>

theorem removeMessage_progress:
  assumes "pq_wf pq" "removeMessage h msgs pq = Some (r, pq')" "pending pq \<noteq> {}"
    and "deref_offsets h msgs = Some ops"
  shows "pending pq' = pending pq - keys_of ops \<and>
    (r \<noteq> -1 \<longrightarrow> (\<forall>k \<in> pending pq'. r \<le> k)) \<and>
    r = (if pending pq' = {} then s64 (m_queueOffsetMax pq + 1)
         else if Min (pending pq') = Min (pending pq) then -1 else Min (pending pq'))"
proof -
  have ne: "m_msgTreeMap pq \<noteq> []" using assms(3) by (simp add: pending_empty_iff)
  obtain ops' where d: "deref_offsets h msgs = Some ops'"
    and pq': "pq' = pq\<lparr>m_msgTreeMap := erase_all ops' (m_msgTreeMap pq),
                  m_msgCount := s64 (m_msgCount pq - int (length msgs))\<rparr>"
    and r: "r = (if m_msgTreeMap pq' = [] then s64 (m_queueOffsetMax pq + 1)
              else if fst (hd (m_msgTreeMap pq)) \<noteq> fst (hd (m_msgTreeMap pq')) then fst (hd (m_msgTreeMap pq'))
              else -1)"
    by (rule removeMessage_cases [OF assms(2) ne])
  have wf: "pq_wf pq'" using removeMessage_wf [OF assms(1,2)] by blast
  have "pending pq' = pending pq - keys_of ops"
    using assms(1,4) d pq' by (simp add: pending_def pq_wf_def keys_erase_all)
  moreover have e: "r = (if pending pq' = {} then s64 (m_queueOffsetMax pq + 1)
         else if Min (pending pq') = Min (pending pq) then -1 else Min (pending pq'))"
    using r by (auto simp: pending_empty_iff Min_pending [OF wf] Min_pending [OF assms(1) ne])
  moreover have "r \<noteq> -1 \<longrightarrow> (\<forall>k \<in> pending pq'. r \<le> k)"
    unfolding e by (auto simp: pending_def)
  ultimately show ?thesis by blast
qed

definition sample_msg :: "int \<Rightarrow> MessageExt" where
  "sample_msg k = MessageExt_new\<lparr>ext_queueOffset := k\<rparr>"

definition sample_heap :: heap where
  "sample_heap = [1 \<mapsto> sample_msg 7, 2 \<mapsto> sample_msg 8, 3 \<mapsto> sample_msg 9]"

definition sample_queue :: ProcessQueue where
  "sample_queue = (ProcessQueue_new 0)\<lparr>m_msgTreeMap := [(7, 1), (8, 2), (9, 3)], m_queueOffsetMax := 9, m_msgCount := 3\<rparr>"

lemmas sample_defs = sample_msg_def sample_heap_def sample_queue_def ProcessQueue_new_def MessageExt_new_def

lemma sample_queue_wf: "pq_wf sample_queue"
  by (auto simp: pq_wf_def sample_defs pending_def inflight_def)

lemma sample_deref: "deref_offsets sample_heap [1] = Some [(7, 1)]"
  by (simp add: sample_defs)

lemma sample_remove: "removeMessage sample_heap [1] sample_queue =
    Some (8, sample_queue\<lparr>m_msgTreeMap := [(8, 2), (9, 3)], m_msgCount := 2\<rparr>)"
  unfolding removeMessage_def sample_deref
  by (simp add: sample_queue_def ProcessQueue_new_def erase_all_def s64_id)

theorem removeMessage_progress_witness:
  "pending (sample_queue\<lparr>m_msgTreeMap := [(8, 2), (9, 3)], m_msgCount := 2\<rparr>) =
     pending sample_queue - keys_of [(7 :: int, 1 :: nat)]"
  using removeMessage_progress [OF sample_queue_wf sample_remove _ sample_deref]
  by (simp add: pending_empty_iff sample_queue_def)

text \<open>
  \<open>takeMessags\<close> hands out the oldest messages first: the batch is the first
  \<open>batchSize\<close> entries of the queue in offset order, they move to the uncommitted table, no
  message is lost or duplicated, everything handed out is older than everything left, and
  the queue invariant and the message count are kept.
\<close>

theorem takeMessags_batch:
  assumes "pq_wf pq" "pq_counted pq" "takeMessags n pq = (r, pq')"
  shows "r = map snd (take (nat n) (m_msgTreeMap pq)) \<and>
    pending pq' \<union> inflight pq' = pending pq \<union> inflight pq \<and>
    (\<forall>x \<in> inflight pq' - inflight pq. \<forall>y \<in> pending pq'. x < y) \<and>
    pq_wf pq' \<and> pq_counted pq'"
  using takeMessags_fields(3) [OF assms(3)] takeMessags_wf [OF assms(1,3)]
    takeMessags_in_order [OF assms(1,3)] takeMessags_counted [OF assms] by blast

lemma sample_queue_counted: "pq_counted sample_queue"
  by (simp add: pq_counted_def pending_def inflight_def sample_defs)

theorem takeMessags_batch_witness:
  "fst (takeMessags 2 sample_queue) = [1, 2] \<and> pq_wf (snd (takeMessags 2 sample_queue))"
  using takeMessags_batch [OF sample_queue_wf sample_queue_counted, of 2]
  by (cases "takeMessags 2 sample_queue") (simp add: sample_queue_def numeral_2_eq_2)

text \<open>
  C12. Commit after take acknowledges exactly the batch: the offset \<open>commit\<close> returns lies above
  every message that was handed out and not above any message that is still waiting, so
  storing it neither re-delivers a consumed message nor skips an unconsumed one.
\<close>

theorem take_commit_exact:
  assumes "pq_wf pq" "inflight pq = {}" "takeMessags n pq = (r, pq')" "inflight pq' \<noteq> {}"
    and "Max (inflight pq') < 2 ^ 63 - 1" "- (2 ^ 63) \<le> Max (inflight pq')"
  shows "(\<forall>y \<in> pending (snd (commit pq')). fst (commit pq') \<le> y) \<and>
    (\<forall>x \<in> pending pq - pending (snd (commit pq')). x < fst (commit pq'))"
  using pq.take_then_commit [OF assms] by blast

lemma sample_take: "takeMessags 2 sample_queue =
    ([1, 2], sample_queue\<lparr>m_msgTreeMap := [(9, 3)], m_msgTreeMapTemp := [(7, 1), (8, 2)]\<rparr>)"
  by (simp add: takeMessags_def sample_defs numeral_2_eq_2)

theorem take_commit_exact_witness:
  "fst (commit (sample_queue\<lparr>m_msgTreeMap := [(9, 3)], m_msgTreeMapTemp := [(7, 1), (8, 2)]\<rparr>)) \<le> 9"
  using take_commit_exact [OF sample_queue_wf _ sample_take]
  by (simp add: inflight_def pending_def sample_queue_def ProcessQueue_new_def commit_def Let_def)

text \<open>
  Rollback after take puts every message back: the waiting set is what it was before
  together with whatever was uncommitted, nothing stays in flight.
\<close>

theorem take_rollback_restores:
  assumes "pq_wf pq" "takeMessags n pq = (r, pq')"
  shows "pending (rollback pq') = pending pq \<union> inflight pq \<and> inflight (rollback pq') = {} \<and> pq_wf (rollback pq')"
  using pq.take_then_rollback [OF assms] rollback_wf(1) [OF takeMessags_wf(1) [OF assms]] by blast

theorem take_rollback_restores_witness:
  "pending (rollback (sample_queue\<lparr>m_msgTreeMap := [(9, 3)], m_msgTreeMapTemp := [(7, 1), (8, 2)]\<rparr>)) =
     pending sample_queue \<union> inflight sample_queue"
  using take_rollback_restores [OF sample_queue_wf sample_take] by blast

text \<open>
  C33. The message count used for flow control is exact: putting messages with fresh, distinct
  offsets, taking, committing, rolling back and removing messages of the queue keep
  \<open>m_msgCount\<close> equal to the number of messages held (as long as it fits the 64-bit counter).
\<close>

theorem msgCount_exact:
  assumes "pq_wf pq" "pq_counted pq" "is_s64 (m_msgCount pq + int (length msgs))" "is_s64 (m_msgCount pq)"
    and "deref_offsets h msgs = Some ops" "distinct (map fst ops)"
  shows "(keys_of ops \<inter> (pending pq \<union> inflight pq) = {} \<longrightarrow>
           (\<forall>d pq'. putMessage h msgs pq = Some (d, pq') \<longrightarrow> pq_counted pq')) \<and>
    (keys_of ops \<subseteq> pending pq \<longrightarrow>
           (\<forall>r pq'. removeMessage h msgs pq = Some (r, pq') \<longrightarrow> pq_counted pq')) \<and>
    pq_counted (snd (commit pq)) \<and> pq_counted (rollback pq) \<and> pq_counted (snd (takeMessags n pq))"
proof -
  have "pq_counted (snd (takeMessags n pq))"
    using takeMessags_counted [OF assms(1,2)] by (cases "takeMessags n pq") auto
  then show ?thesis
    using putMessage_counted [OF assms(1,2) _ assms(5,6) _ assms(3)]
      removeMessage_counted [OF assms(1,2) _ assms(5,6) _ assms(4)]
      commit_counted [OF assms(1,2,4)] rollback_counted [OF assms(1,2)] by blast
qed

theorem msgCount_exact_witness:
  "pq_counted (sample_queue\<lparr>m_msgTreeMap := [(8, 2), (9, 3)], m_msgCount := 2\<rparr>)"
proof -
  have "removeMessage sample_heap [1] sample_queue = Some (r, pq') \<longrightarrow> pq_counted pq'" for r pq'
    using msgCount_exact [OF sample_queue_wf sample_queue_counted _ _ sample_deref]
    by (simp add: sample_queue_def pending_def)
  then show ?thesis using sample_remove by blast
qed

text \<open>
  The broker lock of an orderly queue expires after 30 seconds, measured in unsigned
  arithmetic: with a clock that has not gone back, the lock is expired exactly when more
  than 30000 ms passed since it was taken; and a clock that reads earlier than the lock time
  makes the lock count as expired at once.
\<close>

theorem isLockExpired_spec:
  assumes "0 \<le> now" "now < 2 ^ 63" "0 \<le> m_lastLockTimestamp pq" "m_lastLockTimestamp pq < 2 ^ 63"
  shows "isLockExpired now pq \<longleftrightarrow>
    (now < m_lastLockTimestamp pq \<or> now > m_lastLockTimestamp pq + 30000)"
proof (cases "now < m_lastLockTimestamp pq")
  case True
  then have "u64 (now - m_lastLockTimestamp pq) = now - m_lastLockTimestamp pq + 2 ^ 64"
    using assms unfolding u64_mod by (subst mod_pos_pos_trivial [symmetric, of _ "2 ^ 64"]) auto
  with True assms show ?thesis by (simp add: isLockExpired_def s_RebalanceLockMaxLiveTime_def)
next
  case False
  then have "u64 (now - m_lastLockTimestamp pq) = now - m_lastLockTimestamp pq"
    using assms by (intro u64_id) auto
  with False show ?thesis by (auto simp: isLockExpired_def s_RebalanceLockMaxLiveTime_def)
qed

theorem isLockExpired_spec_witness:
  "isLockExpired 40000 (ProcessQueue_new 5000) \<and> \<not> isLockExpired 34999 (ProcessQueue_new 5000)"
  using isLockExpired_spec [of 40000 "ProcessQueue_new 5000"] isLockExpired_spec [of 34999 "ProcessQueue_new 5000"]
  by (simp add: ProcessQueue_new_def)

end
