(* ===== verification/Offset_Store.thy ===== *)
theory Offset_Store
  imports Message_Queue Atomic "HOL-Library.Countable"
begin

text \<open>
  The two implementations of the interface \<open>OffsetStore\<close> (\<open>src/include/OffsetStore.h\<close>):
  \<open>RemoteBrokerOffsetStore\<close> (clustering: the broker holds the progress) and
  \<open>LocalFileOffsetStore\<close> (broadcasting: a JSON file does), with \<open>OffsetSerializeWrapper\<close>.

  The broker is an environment of functions (\<open>broker_env\<close>): the address of a broker before
  and after a route refresh, and its answers to the query and update commands. Updates sent
  to the broker are returned as a trace. The JSON library and the file system are parameters
  of the local store (\<open>json_write\<close>, \<open>json_read\<close>, the content of the store file).

  The locale \<open>offset_memory\<close> is the contract of the in-memory table that the consume services
  use; both stores are interpretations of it.
\<close>

datatype ReadOffsetType = READ_FROM_MEMORY | READ_FROM_STORE | MEMORY_FIRST_THEN_STORE

record broker_env =
  addr_now :: "string \<Rightarrow> string"
  addr_refreshed :: "string \<Rightarrow> string"
  query_offset :: "string \<Rightarrow> string \<Rightarrow> MessageQueue \<Rightarrow> mq_exception + int"
  update_offset :: "string \<Rightarrow> string \<Rightarrow> MessageQueue \<Rightarrow> int \<Rightarrow> mq_exception option"

type_synonym offset_send = "string \<times> string \<times> MessageQueue \<times> int"

section \<open>RemoteBrokerOffsetStore\<close>

record RemoteStore =
  r_groupName :: string
  r_offsetTable :: "(MessageQueue, int) smap"
  r_storeTimesTotal :: int

definition remote_updateOffset :: "MessageQueue \<Rightarrow> int \<Rightarrow> bool \<Rightarrow> RemoteStore \<Rightarrow> RemoteStore" where
  "remote_updateOffset mq offset increaseOnly s =
     (let tab = (case map_find mq_lt mq (r_offsetTable s) of
                   None \<Rightarrow> map_put mq_lt mq offset (r_offsetTable s)
                 | Some _ \<Rightarrow> r_offsetTable s)
      in case map_find mq_lt mq tab of
           None \<Rightarrow> s\<lparr>r_offsetTable := tab\<rparr>
         | Some cur \<Rightarrow>
             if increaseOnly
             then s\<lparr>r_offsetTable := map_put mq_lt mq (snd (compareAndIncreaseOnly cur offset)) tab\<rparr>
             else s\<lparr>r_offsetTable := map_put mq_lt mq offset tab\<rparr>)"

text \<open>The broker address, refreshing the route once when it is unknown.\<close>

definition broker_addr :: "broker_env \<Rightarrow> MessageQueue \<Rightarrow> string" where
  "broker_addr env mq =
     (let a = addr_now env (m_brokerName mq) in
      if a = [] then addr_refreshed env (m_brokerName mq) else a)"

definition broker_missing :: "MessageQueue \<Rightarrow> mq_exception" where
  "broker_missing mq = MQClientException (''The broker['' @ m_brokerName mq @ ''] not exist'') (-1)"

definition fetchConsumeOffsetFromBroker :: "broker_env \<Rightarrow> string \<Rightarrow> MessageQueue \<Rightarrow> mq_exception + int" where
  "fetchConsumeOffsetFromBroker env grp mq =
     (let a = broker_addr env mq in
      if a \<noteq> [] then query_offset env a grp mq else Inl (broker_missing mq))"

definition updateConsumeOffsetToBroker ::
  "broker_env \<Rightarrow> string \<Rightarrow> MessageQueue \<Rightarrow> int \<Rightarrow> mq_exception option \<times> offset_send list" where
  "updateConsumeOffsetToBroker env grp mq offset =
     (let a = broker_addr env mq in
      if a \<noteq> []
      then (update_offset env a grp mq offset, [(a, grp, mq, offset)])
      else (Some (broker_missing mq), []))"

definition remote_readFromBroker :: "broker_env \<Rightarrow> MessageQueue \<Rightarrow> RemoteStore \<Rightarrow> int \<times> RemoteStore" where
  "remote_readFromBroker env mq s =
     (case fetchConsumeOffsetFromBroker env (r_groupName s) mq of
        Inr offset \<Rightarrow> (offset, remote_updateOffset mq offset False s)
      | Inl (MQBrokerException _ _) \<Rightarrow> (-1, s)
      | Inl _ \<Rightarrow> (-2, s))"

definition remote_readOffset :: "broker_env \<Rightarrow> MessageQueue \<Rightarrow> ReadOffsetType \<Rightarrow> RemoteStore \<Rightarrow> int \<times> RemoteStore" where
  "remote_readOffset env mq type s =
     (case type of
        READ_FROM_STORE \<Rightarrow> remote_readFromBroker env mq s
      | _ \<Rightarrow> (case map_find mq_lt mq (r_offsetTable s) of
                Some v \<Rightarrow> (v, s)
              | None \<Rightarrow> if type = READ_FROM_MEMORY then (-1, s) else remote_readFromBroker env mq s))"

text \<open>One entry of the table in \<open>persistAll\<close>: sent when the queue is still ours, collected for
  removal otherwise. An exception of the send is logged and does not stop the loop.\<close>

fun persist_loop :: "broker_env \<Rightarrow> string \<Rightarrow> MessageQueue list \<Rightarrow> (MessageQueue, int) smap
    \<Rightarrow> offset_send list \<times> MessageQueue list" where
  "persist_loop env grp mqs [] = ([], [])"
| "persist_loop env grp mqs ((mq, offset) # rest) =
     (let (sends, unused) = persist_loop env grp mqs rest in
      if set_has mq_lt mq mqs
      then (snd (updateConsumeOffsetToBroker env grp mq offset) @ sends, unused)
      else (sends, set_put mq_lt mq unused))"

definition remote_persistAll :: "broker_env \<Rightarrow> MessageQueue list \<Rightarrow> RemoteStore \<Rightarrow> offset_send list \<times> RemoteStore" where
  "remote_persistAll env mqs s =
     (if mqs = [] then ([], s)
      else let (_, times) = atomic_add_and_fetch 1 (r_storeTimesTotal s);
               (sends, unused) = persist_loop env (r_groupName s) mqs (r_offsetTable s)
           in (sends, s\<lparr>r_storeTimesTotal := times,
                        r_offsetTable := fold (\<lambda>mq t. map_erase mq_lt mq t) unused (r_offsetTable s)\<rparr>))"

definition remote_persist :: "broker_env \<Rightarrow> MessageQueue \<Rightarrow> RemoteStore \<Rightarrow> offset_send list" where
  "remote_persist env mq s =
     (case map_find mq_lt mq (r_offsetTable s) of
        None \<Rightarrow> []
      | Some v \<Rightarrow> snd (updateConsumeOffsetToBroker env (r_groupName s) mq v))"

definition remote_removeOffset :: "MessageQueue \<Rightarrow> RemoteStore \<Rightarrow> RemoteStore" where
  "remote_removeOffset mq s = s\<lparr>r_offsetTable := map_erase mq_lt mq (r_offsetTable s)\<rparr>"

definition remote_ReadOffsetByGroup :: "broker_env \<Rightarrow> string \<Rightarrow> MessageQueue \<Rightarrow> mq_exception + int" where
  "remote_ReadOffsetByGroup env grp mq =
     (let a = broker_addr env mq in
      if a \<noteq> []
      then (case query_offset env a grp mq of
              Inl (MQBrokerException _ _) \<Rightarrow> Inr (-1) | r \<Rightarrow> r)
      else Inl (broker_missing mq))"

section \<open>OffsetSerializeWrapper and LocalFileOffsetStore\<close>

text \<open>One element of the JSON array: broker, topic, queue id, offset.\<close>

type_synonym offset_json = "string \<times> string \<times> int \<times> int"

definition Encode_entry :: "MessageQueue \<times> int \<Rightarrow> offset_json" where
  \<comment> \<open>\<open>valueOneOffsetPair["offset"] = (int)itor->second.Get()\<close>\<close>
  "Encode_entry e = (m_brokerName (fst e), m_topic (fst e), m_queueId (fst e), s32 (snd e))"

definition Encode :: "(offset_json list \<Rightarrow> string) \<Rightarrow> (MessageQueue, int) smap \<Rightarrow> string" where
  "Encode json_write tab = json_write (map Encode_entry tab)"

text \<open>\<open>std::map::insert\<close> keeps an entry that is already there.\<close>

definition map_insert_new :: "MessageQueue \<Rightarrow> int \<Rightarrow> (MessageQueue, int) smap \<Rightarrow> (MessageQueue, int) smap" where
  "map_insert_new k v t = (case map_find mq_lt k t of None \<Rightarrow> map_put mq_lt k v t | Some _ \<Rightarrow> t)"

fun Decode_loop :: "offset_json list \<Rightarrow> (MessageQueue, int) smap \<Rightarrow> (MessageQueue, int) smap" where
  "Decode_loop [] tab = tab"
| "Decode_loop ((broker, topic, queueId, offset) # rest) tab =
     Decode_loop rest (map_insert_new (mq_make topic broker queueId) offset tab)"

definition Decode :: "(string \<Rightarrow> offset_json list option) \<Rightarrow> string \<Rightarrow> (MessageQueue, int) smap
    \<Rightarrow> bool \<times> (MessageQueue, int) smap" where
  "Decode json_read data tab =
     (case json_read data of None \<Rightarrow> (False, tab) | Some v \<Rightarrow> (True, Decode_loop v []))"

record LocalStore =
  l_groupName :: string
  l_storePath :: string
  l_offsetTable :: "(MessageQueue, int) smap"
  l_wrapper :: "(MessageQueue, int) smap"

definition AddOffset :: "MessageQueue \<Rightarrow> int \<Rightarrow> (MessageQueue, int) smap \<Rightarrow> (MessageQueue, int) smap" where
  "AddOffset mq offset tab = map_put mq_lt mq offset tab"

text \<open>\<open>file\<close> is what \<open>MQFileUtil::ReadWholeFile\<close> yields: \<open>None\<close> when the file cannot be opened.
  A missing file is not an error: the wrapper keeps its table.\<close>

definition readOffsetFromLocal :: "(string \<Rightarrow> offset_json list option) \<Rightarrow> string option \<Rightarrow> LocalStore
    \<Rightarrow> bool \<times> LocalStore" where
  "readOffsetFromLocal json_read file s =
     (case file of
        None \<Rightarrow> (True, s)
      | Some content \<Rightarrow>
          (let (ok, tab) = Decode json_read content (l_wrapper s) in
           if \<not> ok then (False, s) else (True, s\<lparr>l_wrapper := tab\<rparr>)))"

definition local_load :: "(string \<Rightarrow> offset_json list option) \<Rightarrow> string option \<Rightarrow> LocalStore \<Rightarrow> LocalStore" where
  "local_load json_read file s =
     (let (_, s) = readOffsetFromLocal json_read file s in s\<lparr>l_offsetTable := l_wrapper s\<rparr>)"

definition local_updateOffset :: "MessageQueue \<Rightarrow> int \<Rightarrow> bool \<Rightarrow> LocalStore \<Rightarrow> LocalStore" where
  "local_updateOffset mq offset increaseOnly s =
     (case map_find mq_lt mq (l_offsetTable s) of
        None \<Rightarrow> s\<lparr>l_offsetTable := map_put mq_lt mq offset (l_offsetTable s)\<rparr>
      | Some offsetOld \<Rightarrow>
          if increaseOnly
          then s\<lparr>l_offsetTable := map_put mq_lt mq (snd (compareAndIncreaseOnly offsetOld offset)) (l_offsetTable s)\<rparr>
          else s\<lparr>l_offsetTable := map_put mq_lt mq offset (l_offsetTable s)\<rparr>)"

definition local_readFromFile :: "(string \<Rightarrow> offset_json list option) \<Rightarrow> string option \<Rightarrow> MessageQueue
    \<Rightarrow> LocalStore \<Rightarrow> int \<times> LocalStore" where
  "local_readFromFile json_read file mq s =
     (let (ok, s) = readOffsetFromLocal json_read file s in
      if \<not> ok then (-1, s)
      else case map_find mq_lt mq (l_wrapper s) of
             None \<Rightarrow> (-1, s)
           | Some v \<Rightarrow> (v, local_updateOffset mq v False s))"

definition local_readOffset :: "(string \<Rightarrow> offset_json list option) \<Rightarrow> string option \<Rightarrow> MessageQueue
    \<Rightarrow> ReadOffsetType \<Rightarrow> LocalStore \<Rightarrow> int \<times> LocalStore" where
  "local_readOffset json_read file mq type s =
     (case type of
        READ_FROM_MEMORY \<Rightarrow> (case map_find mq_lt mq (l_offsetTable s) of None \<Rightarrow> (-1, s) | Some v \<Rightarrow> (v, s))
      | MEMORY_FIRST_THEN_STORE \<Rightarrow>
          (case map_find mq_lt mq (l_offsetTable s) of
             None \<Rightarrow> local_readFromFile json_read file mq s | Some v \<Rightarrow> (v, s))
      | READ_FROM_STORE \<Rightarrow> local_readFromFile json_read file mq s)"

fun collect_offsets :: "(MessageQueue, int) smap \<Rightarrow> MessageQueue list \<Rightarrow> (MessageQueue, int) smap \<Rightarrow> (MessageQueue, int) smap" where
  "collect_offsets tab [] w = w"
| "collect_offsets tab (mq # mqs) w =
     (case map_find mq_lt mq tab of
        None \<Rightarrow> collect_offsets tab mqs w
      | Some v \<Rightarrow> collect_offsets tab mqs (AddOffset mq v w))"

text \<open>\<open>persistAll\<close> rebuilds the wrapper from the queues it is given and writes its JSON; the
  first component is the text handed to \<open>MQFileUtil::SafeWriteFile\<close>.\<close>

definition local_persistAll :: "(offset_json list \<Rightarrow> string) \<Rightarrow> MessageQueue list \<Rightarrow> LocalStore
    \<Rightarrow> string option \<times> LocalStore" where
  "local_persistAll json_write mqs s =
     (if mqs = [] then (None, s)
      else let s = s\<lparr>l_wrapper := collect_offsets (l_offsetTable s) mqs []\<rparr>
           in (Some (Encode json_write (l_wrapper s)), s))"

definition local_persist :: "MessageQueue \<Rightarrow> LocalStore \<Rightarrow> LocalStore" where
  "local_persist mq s = s"

definition local_removeOffset :: "MessageQueue \<Rightarrow> LocalStore \<Rightarrow> LocalStore" where
  "local_removeOffset mq s = s"

definition findOffsetStoreDir :: "string option \<Rightarrow> string option \<Rightarrow> string" where
  \<comment> \<open>the environment variables of the offset directory and \<open>HOME\<close>\<close>
  "findOffsetStoreDir dir_env home =
     (case dir_env of Some v \<Rightarrow> v
      | None \<Rightarrow> (case home of Some v \<Rightarrow> v @ ''/'' @ ''.rocketmq_offsets'' | None \<Rightarrow> ''.''))"

definition findOffsetFileRelPath :: "string \<Rightarrow> string \<Rightarrow> string" where
  "findOffsetFileRelPath clientId groupName = clientId @ ''/'' @ groupName @ ''/'' @ ''offsets.json''"

section \<open>The contract of the table\<close>

abbreviation mq_tab :: "(MessageQueue, 'v) smap \<Rightarrow> bool" where "mq_tab \<equiv> map_wf mq_lt mq_ok"
abbreviation mq_find :: "MessageQueue \<Rightarrow> (MessageQueue, 'v) smap \<Rightarrow> 'v option" where
  "mq_find \<equiv> map_find mq_lt"

locale offset_memory =
  fixes upd :: "MessageQueue \<Rightarrow> int \<Rightarrow> bool \<Rightarrow> 's \<Rightarrow> 's"
    and look :: "MessageQueue \<Rightarrow> 's \<Rightarrow> int option"
    and inv :: "'s \<Rightarrow> bool"
  assumes upd_inv: "inv s \<Longrightarrow> mq_ok mq \<Longrightarrow> inv (upd mq off inc s)"
    and look_upd: "inv s \<Longrightarrow> mq_ok mq \<Longrightarrow> mq_ok mq' \<Longrightarrow>
      look mq' (upd mq off inc s) =
        (if mq' = mq
         then (case look mq s of None \<Rightarrow> Some off | Some cur \<Rightarrow> Some (if inc then max cur off else off))
         else look mq' s)"
begin

lemma increase_only_run:
  assumes "inv s" "mq_ok mq"
  shows "inv (fold (\<lambda>off. upd mq off True) offs s) \<and>
    (offs \<noteq> [] \<longrightarrow> look mq (fold (\<lambda>off. upd mq off True) offs s) =
      Some (fold max offs (case look mq s of None \<Rightarrow> hd offs | Some cur \<Rightarrow> cur)))"
  using assms
proof (induction offs arbitrary: s)
  case Nil
  then show ?case by simp
next
  case (Cons off offs)
  have i: "inv (upd mq off True s)" using Cons.prems by (rule upd_inv)
  show ?case
    using Cons.IH [OF i Cons.prems(2)] look_upd [OF Cons.prems Cons.prems(2), of off True] i
    by (cases "offs = []") (auto split: option.splits simp: max.commute)
qed

lemma other_queue:
  assumes "inv s" "mq_ok mq" "mq_ok mq'" "mq' \<noteq> mq"
  shows "look mq' (fold (\<lambda>off. upd mq off inc) offs s) = look mq' s"
  using assms
proof (induction offs arbitrary: s)
  case Nil
  then show ?case by simp
next
  case (Cons off offs)
  then show ?case using look_upd upd_inv by simp
qed

end

lemma remote_updateOffset_table:
  assumes "mq_tab (r_offsetTable s)" "mq_ok mq"
  shows "mq_tab (r_offsetTable (remote_updateOffset mq off inc s)) \<and>
    map_of (r_offsetTable (remote_updateOffset mq off inc s)) =
      (map_of (r_offsetTable s))(mq \<mapsto>
        (case map_of (r_offsetTable s) mq of None \<Rightarrow> off | Some cur \<Rightarrow> if inc then max cur off else off))"
  using assms
  by (auto simp: remote_updateOffset_def Let_def mq.find_map_of mq.put_wf mq.put_map_of
      compareAndIncreaseOnly_eq split: option.splits)

interpretation remote: offset_memory remote_updateOffset "\<lambda>mq s. mq_find mq (r_offsetTable s)"
  "\<lambda>s. mq_tab (r_offsetTable s)"
proof unfold_locales
  fix s :: RemoteStore and mq off inc
  assume "mq_tab (r_offsetTable s)" "mq_ok mq"
  then show "mq_tab (r_offsetTable (remote_updateOffset mq off inc s))"
    using remote_updateOffset_table by blast
next
  fix s :: RemoteStore and mq mq' off inc
  assume a: "mq_tab (r_offsetTable s)" "mq_ok mq" "mq_ok mq'"
  then show "mq_find mq' (r_offsetTable (remote_updateOffset mq off inc s)) =
     (if mq' = mq then (case mq_find mq (r_offsetTable s) of None \<Rightarrow> Some off
        | Some cur \<Rightarrow> Some (if inc then max cur off else off))
      else mq_find mq' (r_offsetTable s))"
    using remote_updateOffset_table [OF a(1,2), of off inc]
    by (auto simp: mq.find_map_of split: option.splits)
qed

lemma local_updateOffset_table:
  assumes "mq_tab (l_offsetTable s)" "mq_ok mq"
  shows "mq_tab (l_offsetTable (local_updateOffset mq off inc s)) \<and>
    map_of (l_offsetTable (local_updateOffset mq off inc s)) =
      (map_of (l_offsetTable s))(mq \<mapsto>
        (case map_of (l_offsetTable s) mq of None \<Rightarrow> off | Some cur \<Rightarrow> if inc then max cur off else off))"
  using assms
  by (auto simp: local_updateOffset_def mq.find_map_of mq.put_wf mq.put_map_of
      compareAndIncreaseOnly_eq split: option.splits)

interpretation local: offset_memory local_updateOffset "\<lambda>mq s. mq_find mq (l_offsetTable s)"
  "\<lambda>s. mq_tab (l_offsetTable s)"
proof unfold_locales
  fix s :: LocalStore and mq off inc
  assume "mq_tab (l_offsetTable s)" "mq_ok mq"
  then show "mq_tab (l_offsetTable (local_updateOffset mq off inc s))"
    using local_updateOffset_table by blast
next
  fix s :: LocalStore and mq mq' off inc
  assume a: "mq_tab (l_offsetTable s)" "mq_ok mq" "mq_ok mq'"
  then show "mq_find mq' (l_offsetTable (local_updateOffset mq off inc s)) =
     (if mq' = mq then (case mq_find mq (l_offsetTable s) of None \<Rightarrow> Some off
        | Some cur \<Rightarrow> Some (if inc then max cur off else off))
      else mq_find mq' (l_offsetTable s))"
    using local_updateOffset_table [OF a(1,2), of off inc]
    by (auto simp: mq.find_map_of split: option.splits)
qed

section \<open>Persistence\<close>

lemma persist_loop_eq:
  assumes "mq_tab tab" "set_wf mq_lt mq_ok mqs"
  shows "fst (persist_loop env grp mqs tab) =
      concat (map (\<lambda>(mq, v). snd (updateConsumeOffsetToBroker env grp mq v)) (filter (\<lambda>e. fst e \<in> set mqs) tab))
    \<and> set_wf mq_lt mq_ok (snd (persist_loop env grp mqs tab))
    \<and> set (snd (persist_loop env grp mqs tab)) = fst ` set tab - set mqs"
  using assms(1)
proof (induction tab)
  case Nil
  then show ?case by simp
next
  case (Cons e tab)
  obtain k v where e: "e = (k, v)" by (cases e)
  with Cons.prems have k: "mq_ok k" and IH: "mq_tab tab" by auto
  show ?case
    using Cons.IH [OF IH] mq.has_iff [OF assms(2) k] k
    by (auto simp: e split_beta Let_def mq.set_put_wf mq.set_put_set)
qed

lemma fold_erase_filter:
  assumes "mq_tab tab" "list_all mq_ok ks"
  shows "mq_tab (fold (\<lambda>k t. map_erase mq_lt k t) ks tab) \<and>
    map_of (fold (\<lambda>k t. map_erase mq_lt k t) ks tab) = (map_of tab) |` (- set ks)"
  using assms
proof (induction ks arbitrary: tab)
  case Nil
  then show ?case by simp
next
  case (Cons k ks)
  then have "mq_tab (map_erase mq_lt k tab)" and ks: "list_all mq_ok ks"
    by (auto simp: mq.erase_wf)
  from Cons.IH [OF this] Cons.prems show ?case
    by (auto simp: mq.erase_map_of restrict_map_def fun_eq_iff)
qed

lemma remote_persistAll_table:
  assumes "mq_tab (r_offsetTable s)" "set_wf mq_lt mq_ok mqs" "mqs \<noteq> []"
  shows "mq_tab (r_offsetTable (snd (remote_persistAll env mqs s)))"
    and "map_of (r_offsetTable (snd (remote_persistAll env mqs s))) = (map_of (r_offsetTable s)) |` set mqs"
proof -
  let ?u = "snd (persist_loop env (r_groupName s) mqs (r_offsetTable s))"
  have u: "set_wf mq_lt mq_ok ?u" "set ?u = fst ` set (r_offsetTable s) - set mqs"
    using persist_loop_eq [OF assms(1,2)] by auto
  have t: "r_offsetTable (snd (remote_persistAll env mqs s)) =
      fold (\<lambda>mq t. map_erase mq_lt mq t) ?u (r_offsetTable s)"
    using assms(3) by (simp add: remote_persistAll_def atomic_add_and_fetch_def split_beta Let_def)
  have f: "mq_tab (fold (\<lambda>mq t. map_erase mq_lt mq t) ?u (r_offsetTable s)) \<and>
    map_of (fold (\<lambda>mq t. map_erase mq_lt mq t) ?u (r_offsetTable s)) = (map_of (r_offsetTable s)) |` (- set ?u)"
    using u(1) by (intro fold_erase_filter assms(1)) (simp add: set_wf_def)
  then show "mq_tab (r_offsetTable (snd (remote_persistAll env mqs s)))" unfolding t by blast
  have "(map_of (r_offsetTable s)) |` (- set ?u) = (map_of (r_offsetTable s)) |` set mqs"
    unfolding u(2) by (auto simp: restrict_map_def fun_eq_iff map_of_eq_None_iff)
  with f show "map_of (r_offsetTable (snd (remote_persistAll env mqs s))) = (map_of (r_offsetTable s)) |` set mqs"
    unfolding t by simp
qed

lemma collect_offsets_table:
  assumes "mq_tab tab" "mq_tab w" "list_all mq_ok mqs"
  shows "mq_tab (collect_offsets tab mqs w) \<and>
    map_of (collect_offsets tab mqs w) = map_of w ++ (map_of tab |` set mqs)"
  using assms(2,3)
proof (induction mqs arbitrary: w)
  case Nil
  then show ?case by simp
next
  case (Cons q mqs)
  then have q: "mq_ok q" and qs: "list_all mq_ok mqs" by auto
  show ?case
  proof (cases "map_of tab q")
    case None
    with Cons.IH [OF Cons.prems(1) qs] q assms(1) show ?thesis
      by (auto simp: mq.find_map_of restrict_map_def map_add_def fun_eq_iff split: option.splits)
  next
    case (Some v)
    have "mq_tab (AddOffset q v w)" using Cons.prems q by (simp add: AddOffset_def mq.put_wf)
    from Cons.IH [OF this qs] Some q assms(1) Cons.prems show ?thesis
      by (auto simp: mq.find_map_of AddOffset_def mq.put_map_of restrict_map_def map_add_def fun_eq_iff
          split: option.splits)
  qed
qed

lemma Decode_Encode_loop:
  assumes "mq_tab tab" "mq_tab w"
  shows "mq_tab (Decode_loop (map Encode_entry tab) w) \<and>
    map_of (Decode_loop (map Encode_entry tab) w) =
      (\<lambda>k. case map_of w k of Some v \<Rightarrow> Some v | None \<Rightarrow> map_option s32 (map_of tab k))"
  using assms
proof (induction tab arbitrary: w)
  case Nil
  then show ?case by (auto simp: fun_eq_iff split: option.splits)
next
  case (Cons e tab)
  obtain k v where e: "e = (k, v)" by (cases e)
  with Cons.prems have k: "mq_ok k" and t: "mq_tab tab" and nk: "k \<notin> fst ` set tab"
    using mq.lt_irrefl by auto
  have mk: "mq_make (m_topic k) (m_brokerName k) (m_queueId k) = k" by (simp add: mq_make_def)
  let ?w = "map_insert_new k (s32 v) w"
  have w: "mq_tab ?w" and
    wm: "map_of ?w = (case map_of w k of None \<Rightarrow> (map_of w)(k \<mapsto> s32 v) | Some _ \<Rightarrow> map_of w)"
    using Cons.prems k by (auto simp: map_insert_new_def mq.find_map_of mq.put_wf mq.put_map_of split: option.splits)
  have "Decode_loop (map Encode_entry (e # tab)) w = Decode_loop (map Encode_entry tab) ?w"
    by (simp add: e Encode_entry_def mk)
  with Cons.IH [OF t w] wm nk show ?case
    by (auto simp: e fun_eq_iff map_of_eq_None split: option.splits)
qed

section \<open>Claims\<close>

text \<open>
  C16. Progress only moves forward in memory: a run of increase-only updates of one queue, as
  the concurrent consume service makes them from its worker threads, leaves the largest
  offset reported (and the previous one if that was larger), whatever their order, and does
  not touch other queues. The statement is for the clustering store; the table of the
  broadcasting store satisfies it too.
\<close>

theorem updateOffset_increase_only:
  assumes "mq_tab (r_offsetTable s)" "mq_tab (l_offsetTable t)" "mq_ok mq" "mq_ok mq'" "mq' \<noteq> mq" "offs \<noteq> []"
  shows "mq_find mq (r_offsetTable (fold (\<lambda>off. remote_updateOffset mq off True) offs s)) =
      Some (fold max offs (case mq_find mq (r_offsetTable s) of None \<Rightarrow> hd offs | Some cur \<Rightarrow> cur)) \<and>
    mq_find mq' (r_offsetTable (fold (\<lambda>off. remote_updateOffset mq off True) offs s)) = mq_find mq' (r_offsetTable s) \<and>
    mq_find mq (l_offsetTable (fold (\<lambda>off. local_updateOffset mq off True) offs t)) =
      Some (fold max offs (case mq_find mq (l_offsetTable t) of None \<Rightarrow> hd offs | Some cur \<Rightarrow> cur)) \<and>
    mq_find mq' (l_offsetTable (fold (\<lambda>off. local_updateOffset mq off True) offs t)) = mq_find mq' (l_offsetTable t)"
  using remote.increase_only_run [OF assms(1,3), of offs] remote.other_queue [OF assms(1,3,4,5), of True offs]
    local.increase_only_run [OF assms(2,3), of offs] local.other_queue [OF assms(2,3,4,5), of True offs] assms(6)
  by auto

definition sample_mq :: "int \<Rightarrow> MessageQueue" where
  "sample_mq i = mq_make ''T'' ''b'' i"

definition sample_remote :: RemoteStore where
  "sample_remote = \<lparr>r_groupName = ''g'', r_offsetTable = [(sample_mq 0, 5), (sample_mq 1, 3000000000)], r_storeTimesTotal = 0\<rparr>"

definition sample_local :: LocalStore where
  "sample_local = \<lparr>l_groupName = ''g'', l_storePath = ''p'', l_offsetTable = [(sample_mq 0, 5), (sample_mq 1, 3000000000)], l_wrapper = []\<rparr>"

lemma sample_mq_ok: "0 \<le> i \<Longrightarrow> i < 2 ^ 31 \<Longrightarrow> mq_ok (sample_mq i)"
  by (simp add: sample_mq_def mq_make_def mq_ok_def no_nul_def)

lemma sample_mq_lt: "0 \<le> i \<Longrightarrow> i < 2 ^ 31 \<Longrightarrow> 0 \<le> j \<Longrightarrow> j < 2 ^ 31 \<Longrightarrow> mq_lt (sample_mq i) (sample_mq j) \<longleftrightarrow> i < j"
  by (simp add: mq_lt_iff sample_mq_ok) (simp add: sample_mq_def mq_make_def str_lt_irrefl)

lemma sample_tabs: "mq_tab (r_offsetTable sample_remote)" "mq_tab (l_offsetTable sample_local)"
  by (simp_all add: sample_remote_def sample_local_def sample_mq_ok sample_mq_lt)

theorem updateOffset_increase_only_witness:
  "mq_find (sample_mq 0) (r_offsetTable (fold (\<lambda>off. remote_updateOffset (sample_mq 0) off True) [9, 7] sample_remote)) = Some 9"
proof -
  have "sample_mq 1 \<noteq> sample_mq 0" by (simp add: sample_mq_def mq_make_def)
  then show ?thesis
    using updateOffset_increase_only [OF sample_tabs sample_mq_ok sample_mq_ok, of 0 1 "[9, 7]"]
    by (simp add: sample_remote_def sample_mq_lt)
qed

text \<open>
  Reading an offset, on every branch: from memory when asked and present, -1 when only
  memory may be used; otherwise the broker is asked, its answer is stored and returned, an
  answer of the broker that the offset does not exist gives -1, and any other failure (an
  unknown broker after a route refresh included) gives -2 with the table unchanged.
\<close>

theorem remote_readOffset_spec:
  "remote_readOffset env mq type s =
    (if type \<noteq> READ_FROM_STORE \<and> mq_find mq (r_offsetTable s) \<noteq> None then (the (mq_find mq (r_offsetTable s)), s)
     else if type = READ_FROM_MEMORY then (-1, s)
     else if broker_addr env mq = [] then (-2, s)
     else (case query_offset env (broker_addr env mq) (r_groupName s) mq of
             Inr off \<Rightarrow> (off, remote_updateOffset mq off False s)
           | Inl e \<Rightarrow> ((if \<exists>m c. e = MQBrokerException m c then -1 else -2), s)))"
  by (cases type; cases "mq_find mq (r_offsetTable s)")
     (auto simp: remote_readOffset_def remote_readFromBroker_def fetchConsumeOffsetFromBroker_def Let_def
        broker_missing_def split: sum.splits mq_exception.splits)

text \<open>
  C19. \<open>RemoteBrokerOffsetStore::persistAll\<close> for a non-empty set of assigned queues reports to the broker
  exactly the offsets of the queues that are still assigned and whose broker address is known, in table order, with
  their current value, and forgets exactly the queues that are no longer assigned. For an empty set it returns at once:
  nothing is sent and nothing is forgotten.
\<close>

theorem remote_persistAll_spec:
  assumes "mq_tab (r_offsetTable s)" "set_wf mq_lt mq_ok mqs"
  shows "if mqs = [] then fst (remote_persistAll env mqs s) = [] \<and> r_offsetTable (snd (remote_persistAll env mqs s)) = r_offsetTable s
    else fst (remote_persistAll env mqs s) =
      [(broker_addr env mq, r_groupName s, mq, v). (mq, v) \<leftarrow> r_offsetTable s, mq \<in> set mqs, broker_addr env mq \<noteq> []] \<and>
    map_of (r_offsetTable (snd (remote_persistAll env mqs s))) = (map_of (r_offsetTable s)) |` set mqs"
proof (cases "mqs = []")
  case False
  have "concat (map (\<lambda>(mq, v). snd (updateConsumeOffsetToBroker env (r_groupName s) mq v)) (filter (\<lambda>e. fst e \<in> set mqs) t)) =
     [(broker_addr env mq, r_groupName s, mq, v). (mq, v) \<leftarrow> t, mq \<in> set mqs, broker_addr env mq \<noteq> []]" for t
    by (induction t) (auto simp: updateConsumeOffsetToBroker_def Let_def)
  then show ?thesis
    using persist_loop_eq [OF assms(1,2), of env "r_groupName s"] remote_persistAll_table(2) [OF assms False] False
    by (simp add: remote_persistAll_def atomic_add_and_fetch_def split_beta Let_def)
qed (simp add: remote_persistAll_def)

definition sample_env :: broker_env where
  "sample_env = \<lparr>addr_now = (\<lambda>_. ''h:1''), addr_refreshed = (\<lambda>_. ''h:1''),
     query_offset = (\<lambda>_ _ _. Inr 0), update_offset = (\<lambda>_ _ _ _. None)\<rparr>"

theorem remote_persistAll_spec_witness:
  "fst (remote_persistAll sample_env [sample_mq 1] sample_remote) = [(''h:1'', ''g'', sample_mq 1, 3000000000)]"
proof -
  have "sample_mq 0 \<noteq> sample_mq 1" by (simp add: sample_mq_def mq_make_def)
  then show ?thesis
    using remote_persistAll_spec [OF sample_tabs(1), of "[sample_mq 1]" sample_env]
    by (simp add: sample_mq_ok) (simp add: sample_remote_def sample_env_def broker_addr_def)
qed

text \<open>
  C20. Broadcasting progress through the file: persisting the assigned queues and loading the
  file into a new store gives, for each assigned queue, the stored offset reduced to 32 bits,
  and nothing else. Offsets below 2147483648 therefore survive a restart; a larger one comes
  back as a different number, because \<open>OffsetSerializeWrapper::Encode\<close> casts it to \<open>int\<close>. The
  JSON library enters only through the law that parsing what it wrote gives the value back.
\<close>

theorem local_persist_load:
  assumes "mq_tab (l_offsetTable s)" "list_all mq_ok mqs" "mqs \<noteq> []"
    and json: "\<And>v. json_read (json_write v) = Some v"
    and "mq_ok mq"
  shows "mq_find mq (l_offsetTable (local_load json_read (fst (local_persistAll json_write mqs s)) t)) =
    (if mq \<in> set mqs then map_option s32 (mq_find mq (l_offsetTable s)) else None)"
proof -
  let ?w = "collect_offsets (l_offsetTable s) mqs []"
  have w: "mq_tab ?w" "map_of ?w = map_of (l_offsetTable s) |` set mqs"
    using collect_offsets_table [OF assms(1) _ assms(2), of "[]"] by auto
  have l: "l_offsetTable (local_load json_read (fst (local_persistAll json_write mqs s)) t) =
      Decode_loop (map Encode_entry ?w) []"
    using assms(3) json
    by (simp add: local_load_def local_persistAll_def readOffsetFromLocal_def Decode_def Encode_def Let_def)
  show ?thesis
    unfolding l using Decode_Encode_loop [OF w(1), of "[]"] w(2) assms(1,5)
    by (simp add: mq.find_map_of restrict_map_def)
qed

text \<open>A codec with the law, to instantiate the JSON library: values numbered and written in
  unary.\<close>

definition unary_write :: "offset_json list \<Rightarrow> string" where
  "unary_write v = replicate (to_nat v) (CHR ''x'')"

definition unary_read :: "string \<Rightarrow> offset_json list option" where
  "unary_read t = Some (from_nat (length t))"

lemma unary_codec: "unary_read (unary_write v) = Some v"
  by (simp add: unary_read_def unary_write_def)

theorem local_persist_load_witness:
  "mq_find (sample_mq 1) (l_offsetTable (local_load unary_read
      (fst (local_persistAll unary_write [sample_mq 0, sample_mq 1] sample_local)) sample_local))
    = Some (- 1294967296)"
  using local_persist_load [OF sample_tabs(2), of "[sample_mq 0, sample_mq 1]" unary_read unary_write
      "sample_mq 1" sample_local]
  by (simp add: sample_mq_ok unary_codec) (simp add: sample_local_def sample_mq_lt s32_def)

end
