(* ===== verification/Consume_Orderly.thy ===== *)
theory Consume_Orderly
  imports Process_Queue Offset_Store
begin

text \<open>
  \<open>ConsumeMessageOrderlyService\<close> and \<open>ConsumeOrderlyRequest::Do\<close>
  (\<open>src/src/consumer/ConsumeMessageOrderlyService.cpp\<close>), with \<open>MessageQueueLock\<close>.

  \<open>orderly\<close> is what one request works on: its process queue, the message heap, the offset store
  (reached through the virtual call \<open>updateOffset\<close>, an argument \<open>upd\<close>), the statistics and the
  timers it registered. One pass of the loop in \<open>Do\<close> is \<open>orderly_iter\<close>; what it reads from
  outside (the clock, and what the user's listener returns or throws) is a \<open>round\<close>. A round also says what the other
  threads do to the process queue meanwhile, before the checks of the pass, between the checks and the take, and
  while the listener runs: a rebalance drops the queue, the lock service changes the lock mark, a pull callback puts a message,
  and the pull thread, when it finds the queue dropped and its tree map empty, deletes it (\<open>o_alive\<close>). \<open>orderly_loop\<close>
  runs over a list of rounds; \<open>OutOfRounds\<close> means the loop has not ended yet, and
  \<open>orderly_loop_ends\<close> shows how many rounds are enough. Handing a dangling message to the listener,
  dereferencing one, or using a deleted process queue is \<open>MemoryError\<close>. \<open>o_given\<close> records the batches the
  listener was given.

  Hooks are user code with no access to this state and are left out.
\<close>

datatype ConsumeOrderlyStatus = SUCCESS | ROLLBACK | COMMIT | SUSPEND_CURRENT_QUEUE_A_MOMENT

datatype MessageModel = BROADCASTING | CLUSTERING

record ConsumerStat =
  createTimestamp :: int
  consumeMsgRTMax :: int
  consumeMsgRTTotal :: int
  consumeMsgOKTotal :: int
  consumeMsgFailedTotal :: int
  pullRTTotal :: int
  pullTimesTotal :: int

datatype orderly_timer = TryLockLaterAndReconsume int | SubmitConsumeRequestLater int

record 's orderly =
  o_pq :: ProcessQueue
  o_heap :: heap
  o_store :: 's
  o_stat :: ConsumerStat
  o_timers :: "orderly_timer list"
  o_alive :: bool
  o_given :: "addr list list"

datatype queue_event = Drops | Locks bool int | Arrives addr MessageExt | Looks

record orderly_round =
  now_lock :: int
  now_interval :: int
  listener_result :: "ConsumeOrderlyStatus option"
  ctx_autoCommit :: bool
  ctx_suspend :: int
  consumeRT :: int
  r_before :: "queue_event list"
  r_checked :: "queue_event list"
  r_during :: "queue_event list"

type_synonym 's updater = "MessageQueue \<Rightarrow> int \<Rightarrow> bool \<Rightarrow> 's \<Rightarrow> 's"

definition s_MaxTimeConsumeContinuously :: int where "s_MaxTimeConsumeContinuously = 60000"

definition clamp_suspend :: "int \<Rightarrow> int" where
  "clamp_suspend suspendTimeMillis =
     (let timeMillis = suspendTimeMillis in
      if timeMillis < 10 then 10 else if timeMillis > 30000 then 30000 else timeMillis)"

definition submitConsumeRequestLater :: "int \<Rightarrow> 's orderly \<Rightarrow> 's orderly" where
  "submitConsumeRequestLater suspendTimeMillis w =
     w\<lparr>o_timers := o_timers w @ [SubmitConsumeRequestLater (clamp_suspend suspendTimeMillis)]\<rparr>"

definition tryLockLaterAndReconsume :: "int \<Rightarrow> 's orderly \<Rightarrow> 's orderly" where
  "tryLockLaterAndReconsume delayMills w =
     w\<lparr>o_timers := o_timers w @ [TryLockLaterAndReconsume (s32 delayMills)]\<rparr>"

text \<open>What the timer does when it fires: the delay of the request it submits next.\<close>

definition TryLock_OnTimeOut :: "bool \<Rightarrow> int" where
  "TryLock_OnTimeOut lockOK = (if lockOK then 10 else 3000)"

definition stat_ok :: "int \<Rightarrow> 's orderly \<Rightarrow> 's orderly" where
  "stat_ok n w = w\<lparr>o_stat := (o_stat w)\<lparr>consumeMsgOKTotal :=
     snd (atomic_fetchAndAdd n (consumeMsgOKTotal (o_stat w)))\<rparr>\<rparr>"

definition stat_failed :: "int \<Rightarrow> 's orderly \<Rightarrow> 's orderly" where
  "stat_failed n w = w\<lparr>o_stat := (o_stat w)\<lparr>consumeMsgFailedTotal :=
     snd (atomic_fetchAndAdd n (consumeMsgFailedTotal (o_stat w)))\<rparr>\<rparr>"

definition stat_rt :: "int \<Rightarrow> 's orderly \<Rightarrow> 's orderly" where
  "stat_rt rt w = w\<lparr>o_stat := (o_stat w)
     \<lparr>consumeMsgRTTotal := snd (atomic_fetchAndAdd rt (consumeMsgRTTotal (o_stat w))),
      consumeMsgRTMax := snd (compareAndIncreaseOnly (consumeMsgRTMax (o_stat w)) rt)\<rparr>\<rparr>"

text \<open>The branches of the \<open>switch\<close>: the offset to store (-1 for none), whether to go on, the state.\<close>

definition branch_commit :: "int \<Rightarrow> 's orderly \<Rightarrow> (int \<times> bool \<times> 's orderly) option" where
  "branch_commit n w =
     (let (off, pq) = commit (o_pq w) in Some (off, True, stat_ok n (w\<lparr>o_pq := pq\<rparr>)))"

definition branch_suspend :: "addr list \<Rightarrow> int \<Rightarrow> int \<Rightarrow> 's orderly \<Rightarrow> (int \<times> bool \<times> 's orderly) option" where
  "branch_suspend msgs n suspend w =
     (case makeMessageToCosumeAgain (o_heap w) msgs (o_pq w) of None \<Rightarrow> None
      | Some pq \<Rightarrow> Some (-1, False, stat_failed n (submitConsumeRequestLater suspend (w\<lparr>o_pq := pq\<rparr>))))"

definition branch_rollback :: "int \<Rightarrow> int \<Rightarrow> 's orderly \<Rightarrow> (int \<times> bool \<times> 's orderly) option" where
  "branch_rollback n suspend w =
     Some (-1, False, stat_failed n (submitConsumeRequestLater suspend (w\<lparr>o_pq := rollback (o_pq w)\<rparr>)))"

definition orderly_processConsumeResult ::
  "'s updater \<Rightarrow> MessageQueue \<Rightarrow> addr list \<Rightarrow> ConsumeOrderlyStatus \<Rightarrow> bool \<Rightarrow> int \<Rightarrow> 's orderly
    \<Rightarrow> (bool \<times> 's orderly) option" where
  "orderly_processConsumeResult upd mq msgs status autoCommit suspend w =
     (let n = s32 (int (length msgs));
          r = (if autoCommit then
                 (case status of
                    SUSPEND_CURRENT_QUEUE_A_MOMENT \<Rightarrow> branch_suspend msgs n suspend w
                  | _ \<Rightarrow> branch_commit n w)
               else
                 (case status of
                    SUCCESS \<Rightarrow> Some (-1, True, stat_ok n w)
                  | COMMIT \<Rightarrow> branch_commit n w
                  | ROLLBACK \<Rightarrow> branch_rollback n suspend w
                  | SUSPEND_CURRENT_QUEUE_A_MOMENT \<Rightarrow> branch_suspend msgs n suspend w))
      in case r of None \<Rightarrow> None
         | Some (commitOffset, continueConsume, w) \<Rightarrow>
             Some (continueConsume,
                   if commitOffset \<ge> 0 then w\<lparr>o_store := upd mq commitOffset False (o_store w)\<rparr> else w))"

text \<open>The other threads. An arriving message is a new object, and its offset is not one of a message in flight. \<open>Looks\<close> is the
  pull thread at the front of \<open>DefaultMQPushConsumerImpl::pullMessage\<close>.\<close>

fun happens :: "queue_event \<Rightarrow> 's orderly \<Rightarrow> 's orderly" where
  "happens Drops w = w\<lparr>o_pq := setDroped True (o_pq w)\<rparr>"
| "happens (Locks b t) w = w\<lparr>o_pq := setLastLockTimestamp t (setLocked b (o_pq w))\<rparr>"
| "happens (Arrives p m) w =
     (if o_heap w p = None \<and> ext_queueOffset m \<notin> fst ` set (m_msgTreeMapTemp (o_pq w))
      then (case putMessage ((o_heap w)(p \<mapsto> m)) [p] (o_pq w) of None \<Rightarrow> w
            | Some (_, pq) \<Rightarrow> w\<lparr>o_pq := pq, o_heap := (o_heap w)(p \<mapsto> m)\<rparr>)
      else w)"
| "happens Looks w = (if m_droped (o_pq w) \<and> m_msgTreeMap (o_pq w) = [] then w\<lparr>o_alive := False\<rparr> else w)"

definition other_threads :: "queue_event list \<Rightarrow> 's orderly \<Rightarrow> 's orderly" where
  "other_threads es w = fold happens es w"

definition delete_all :: "addr list \<Rightarrow> heap \<Rightarrow> heap" where
  "delete_all ps h = (\<lambda>p. if p \<in> set ps then None else h p)"

text \<open>The part of the loop body that runs when a batch was taken.\<close>

definition consume_batch ::
  "'s updater \<Rightarrow> MessageQueue \<Rightarrow> orderly_round \<Rightarrow> addr list \<Rightarrow> 's orderly \<Rightarrow> (bool \<times> 's orderly) option" where
  "consume_batch upd mq r msgs w =
     (if list_ex (\<lambda>p. o_heap w p = None) msgs then None
      else
        let w = other_threads (r_during r) (w\<lparr>o_given := o_given w @ [msgs]\<rparr>) in
        if \<not> o_alive w then None
        else
        let status = (case listener_result r of None \<Rightarrow> SUSPEND_CURRENT_QUEUE_A_MOMENT | Some st \<Rightarrow> st);
            w = stat_rt (consumeRT r) w
        in case orderly_processConsumeResult upd mq msgs status (ctx_autoCommit r) (ctx_suspend r) w of
             None \<Rightarrow> None
           | Some (continueConsume, w) \<Rightarrow>
               Some (continueConsume,
                     if continueConsume then w\<lparr>o_heap := delete_all msgs (o_heap w)\<rparr> else w))"

definition orderly_iter ::
  "'s updater \<Rightarrow> MessageModel \<Rightarrow> int \<Rightarrow> int \<Rightarrow> MessageQueue \<Rightarrow> orderly_round \<Rightarrow> 's orderly
    \<Rightarrow> (bool \<times> 's orderly) option" where
  "orderly_iter upd model batchSize beginTime mq r w =
     (let w = other_threads (r_before r) w in
      if \<not> o_alive w then None
      else if m_droped (o_pq w) then Some (False, w)
      else if model = CLUSTERING \<and> \<not> m_locked (o_pq w) then Some (False, tryLockLaterAndReconsume 10 w)
      else if model = CLUSTERING \<and> isLockExpired (now_lock r) (o_pq w)
        then Some (False, tryLockLaterAndReconsume 10 w)
      else
        let interval = s64 (now_interval r - beginTime) in
        if interval > s_MaxTimeConsumeContinuously then Some (False, submitConsumeRequestLater 10 w)
        else
          let w = other_threads (r_checked r) w in
          if \<not> o_alive w then None
          else
          let (msgs, pq) = takeMessags batchSize (o_pq w); w = w\<lparr>o_pq := pq\<rparr> in
          if msgs \<noteq> [] then consume_batch upd mq r msgs w
          else Some (False, w))"

datatype 's loop_result = Finished 's | MemoryError | OutOfRounds 's

fun orderly_loop ::
  "'s updater \<Rightarrow> MessageModel \<Rightarrow> int \<Rightarrow> int \<Rightarrow> MessageQueue \<Rightarrow> orderly_round list \<Rightarrow> 's orderly
    \<Rightarrow> 's orderly loop_result" where
  "orderly_loop upd model batchSize beginTime mq [] w = OutOfRounds w"
| "orderly_loop upd model batchSize beginTime mq (r # rs) w =
     (case orderly_iter upd model batchSize beginTime mq r w of
        None \<Rightarrow> MemoryError
      | Some (continueConsume, w) \<Rightarrow>
          if continueConsume then orderly_loop upd model batchSize beginTime mq rs w else Finished w)"

definition ConsumeOrderlyRequest_Do ::
  "'s updater \<Rightarrow> MessageModel \<Rightarrow> int \<Rightarrow> int \<Rightarrow> int \<Rightarrow> MessageQueue \<Rightarrow> orderly_round list \<Rightarrow> 's orderly
    \<Rightarrow> 's orderly loop_result" where
  "ConsumeOrderlyRequest_Do upd model batchSize now0 beginTime mq rs w =
     (if \<not> o_alive w then MemoryError
      else if model = BROADCASTING \<or> (m_locked (o_pq w) \<and> \<not> isLockExpired now0 (o_pq w))
      then orderly_loop upd model batchSize beginTime mq rs w
      else Finished (tryLockLaterAndReconsume 10 w))"

section \<open>The service\<close>

text \<open>\<open>submitConsumeRequest\<close> queues a request only when asked to dispatch; \<open>pMsgs\<close> is cleared in
  any case. The result is the number of requests added to the pool and the list afterwards.\<close>

definition orderly_submitConsumeRequest :: "addr list option \<Rightarrow> bool \<Rightarrow> nat \<times> addr list option" where
  "orderly_submitConsumeRequest pMsgs dispathToConsume =
     ((if dispathToConsume then 1 else 0), map_option (\<lambda>_. []) pMsgs)"

text \<open>\<open>lockOneMQ\<close> and \<open>lockMQPeriodically\<close> ask the rebalance service unless the service is stopped.\<close>

definition lockOneMQ :: "bool \<Rightarrow> (MessageQueue \<Rightarrow> bool) \<Rightarrow> MessageQueue \<Rightarrow> bool" where
  "lockOneMQ stoped rebalance_lock mq = (if \<not> stoped then rebalance_lock mq else False)"

text \<open>\<open>MessageQueueLock\<close>: one mutex per queue, numbered in the order of creation.\<close>

record MessageQueueLock =
  m_mqLockTable :: "(MessageQueue, nat) smap"
  m_nextMutex :: nat

definition fetchLockObject :: "MessageQueue \<Rightarrow> MessageQueueLock \<Rightarrow> nat \<times> MessageQueueLock" where
  "fetchLockObject mq l =
     (case map_find mq_lt mq (m_mqLockTable l) of
        None \<Rightarrow> (m_nextMutex l, l\<lparr>m_mqLockTable := map_put mq_lt mq (m_nextMutex l) (m_mqLockTable l),
                                  m_nextMutex := Suc (m_nextMutex l)\<rparr>)
      | Some objLock \<Rightarrow> (objLock, l))"

section \<open>Lemmas\<close>

lemmas orderly_frame =
  stat_ok_def stat_failed_def stat_rt_def submitConsumeRequestLater_def tryLockLaterAndReconsume_def

lemma frame_simps [simp]:
  "o_pq (stat_ok n w) = o_pq w" "o_heap (stat_ok n w) = o_heap w"
  "o_pq (stat_failed n w) = o_pq w" "o_heap (stat_failed n w) = o_heap w"
  "o_pq (stat_rt n w) = o_pq w" "o_heap (stat_rt n w) = o_heap w"
  "o_pq (submitConsumeRequestLater n w) = o_pq w" "o_heap (submitConsumeRequestLater n w) = o_heap w"
  "o_pq (tryLockLaterAndReconsume n w) = o_pq w" "o_heap (tryLockLaterAndReconsume n w) = o_heap w"
  "o_store (stat_ok n w) = o_store w" "o_store (stat_failed n w) = o_store w" "o_store (stat_rt n w) = o_store w"
  "o_alive (stat_ok n w) = o_alive w" "o_alive (stat_failed n w) = o_alive w" "o_alive (stat_rt n w) = o_alive w"
  "o_alive (submitConsumeRequestLater n w) = o_alive w" "o_alive (tryLockLaterAndReconsume n w) = o_alive w"
  "o_given (stat_ok n w) = o_given w" "o_given (stat_failed n w) = o_given w" "o_given (stat_rt n w) = o_given w"
  "o_given (submitConsumeRequestLater n w) = o_given w" "o_given (tryLockLaterAndReconsume n w) = o_given w"
  by (simp_all add: orderly_frame)

definition entry_live :: "heap \<Rightarrow> int \<times> addr \<Rightarrow> bool" where
  "entry_live h e \<longleftrightarrow> (case h (snd e) of None \<Rightarrow> False | Some m \<Rightarrow> ext_queueOffset m = fst e)"

lemma pq_live_iff: "pq_live h pq \<longleftrightarrow> list_all (entry_live h) (m_msgTreeMap pq @ m_msgTreeMapTemp pq)"
  by (simp add: pq_live_def entry_live_def split_beta list_all_iff)

lemma entry_live_deref: "list_all (entry_live h) es \<Longrightarrow> deref_offsets h (map snd es) = Some es"
  by (rule deref_offsets_live) (simp add: entry_live_def split_beta list_all_iff)

lemma live_delete:
  assumes "list_all (entry_live h) (a @ b)" "fst ` set a \<inter> fst ` set b = {}"
  shows "list_all (entry_live (delete_all (map snd a) h)) b"
proof -
  have "snd e \<notin> snd ` set a" if "e \<in> set b" for e
  proof
    assume "snd e \<in> snd ` set a"
    then obtain d where d: "d \<in> set a" "snd d = snd e" by auto
    then have "entry_live h d" "entry_live h e" using assms(1) that by (auto simp: list_all_iff)
    then have "fst d = fst e" using d(2) by (auto simp: entry_live_def split: option.splits)
    with assms(2) d(1) that show False by (metis IntI empty_iff image_eqI)
  qed
  with assms(1) show ?thesis by (auto simp: list_all_iff entry_live_def delete_all_def)
qed

lemma put_all_empty:
  assumes "ll_wf es"
  shows "put_all es [] = es"
proof -
  have "ll_wf (acc @ es) \<Longrightarrow> put_all es acc = acc @ es" for acc
  proof (induction es arbitrary: acc)
    case Nil
    then show ?case by (simp add: put_all_def)
  next
    case (Cons e es)
    have "map_put ll_lt (fst e) (snd e) acc = acc @ [e]"
      using Cons.prems by (subst put_eq_snoc) (auto simp: ll_wf_append)
    moreover have "put_all es (acc @ [e]) = acc @ e # es"
      using Cons.IH [of "acc @ [e]"] Cons.prems by simp
    ultimately show ?case by (simp add: put_all_def)
  qed
  then show ?thesis using assms by simp
qed

lemma set_put_subset: "set (map_put ll_lt k p m) \<subseteq> insert (k, p) (set m)"
  by (induction m) (auto split: if_splits)

lemma fold_consume_again_sets:
  "set (m_msgTreeMap (fold consume_again1 ops pq)) \<subseteq> set ops \<union> set (m_msgTreeMap pq) \<and>
   set (m_msgTreeMapTemp (fold consume_again1 ops pq)) \<subseteq> set (m_msgTreeMapTemp pq)"
proof (induction ops arbitrary: pq)
  case Nil
  then show ?case by simp
next
  case (Cons op ops)
  have "set (m_msgTreeMap (consume_again1 op pq)) \<subseteq> insert op (set (m_msgTreeMap pq))"
    and "set (m_msgTreeMapTemp (consume_again1 op pq)) \<subseteq> set (m_msgTreeMapTemp pq)"
    using set_put_subset [of "fst op" "snd op" "m_msgTreeMap pq"]
      ll.erase_subset [of "fst op" "m_msgTreeMapTemp pq"]
    by (auto simp: consume_again1_def)
  then show ?case using Cons.IH [of "consume_again1 op pq"] by auto
qed

text \<open>The state between two passes of the loop in auto-commit mode: nothing in flight, every
  pointer live.\<close>

definition orderly_ok :: "'s orderly \<Rightarrow> bool" where
  "orderly_ok w \<longleftrightarrow> pq_wf (o_pq w) \<and> inflight (o_pq w) = {} \<and> pq_live (o_heap w) (o_pq w)"

lemma inflight_empty_iff: "inflight pq = {} \<longleftrightarrow> m_msgTreeMapTemp pq = []"
  by (cases "m_msgTreeMapTemp pq") (auto simp: inflight_def)

lemma orderly_ok_take:
  assumes "orderly_ok w" "takeMessags n (o_pq w) = (msgs, pq)"
  defines "b \<equiv> take (nat n) (m_msgTreeMap (o_pq w))" and "d \<equiv> drop (nat n) (m_msgTreeMap (o_pq w))"
  shows "m_msgTreeMap pq = d" "m_msgTreeMapTemp pq = b" "msgs = map snd b"
    "list_all (entry_live (o_heap w)) (b @ d)" "fst ` set b \<inter> fst ` set d = {}" "pq_wf pq"
proof -
  have w: "ll_wf (m_msgTreeMap (o_pq w))" "m_msgTreeMapTemp (o_pq w) = []"
    "list_all (entry_live (o_heap w)) (m_msgTreeMap (o_pq w))"
    using assms(1) by (auto simp: orderly_ok_def pq_wf_def pq_live_iff inflight_empty_iff)
  note f = takeMessags_fields [OF assms(2)] and td = take_drop_keys [OF w(1), of "nat n"]
  show "m_msgTreeMap pq = d" "msgs = map snd b" by (simp_all add: f b_def d_def)
  show "m_msgTreeMapTemp pq = b" using td(3) w(2) by (simp add: f b_def put_all_empty)
  show "list_all (entry_live (o_heap w)) (b @ d)" using w(3) by (simp add: b_def d_def)
  show "fst ` set b \<inter> fst ` set d = {}"
    using td(2) by (auto simp: b_def d_def keys_of_def dest: order.asym) (metis fst_conv image_eqI order_less_irrefl)
  show "pq_wf pq" using takeMessags_wf(1) [OF _ assms(2)] assms(1) by (simp add: orderly_ok_def)
qed

lemma commit_tree: "m_msgTreeMap (snd (commit pq)) = m_msgTreeMap pq" "m_msgTreeMapTemp (snd (commit pq)) = []"
  by (auto simp: commit_def Let_def)

lemma process_auto_commit:
  assumes "status \<noteq> SUSPEND_CURRENT_QUEUE_A_MOMENT"
  shows "\<exists>w'. orderly_processConsumeResult upd mq msgs status True suspend w = Some (True, w') \<and>
    o_pq w' = snd (commit (o_pq w)) \<and> o_heap w' = o_heap w \<and> o_alive w' = o_alive w \<and> o_given w' = o_given w \<and>
    o_store w' = (if fst (commit (o_pq w)) \<ge> 0 then upd mq (fst (commit (o_pq w))) False (o_store w) else o_store w)"
  using assms
  by (cases status) (auto simp: orderly_processConsumeResult_def branch_commit_def Let_def split_beta)

lemma process_suspend:
  assumes "deref_offsets (o_heap w) msgs = Some ops"
  shows "\<exists>w'. orderly_processConsumeResult upd mq msgs SUSPEND_CURRENT_QUEUE_A_MOMENT auto suspend w = Some (False, w') \<and>
    o_pq w' = fold consume_again1 ops (o_pq w) \<and> o_heap w' = o_heap w \<and> o_alive w' = o_alive w"
  using assms
  by (cases auto) (auto simp: orderly_processConsumeResult_def branch_suspend_def makeMessageToCosumeAgain_def Let_def)

lemma dropped_kept:
  "m_droped (fold consume_again1 ops pq) = m_droped pq" "m_droped (snd (commit pq)) = m_droped pq"
proof -
  show "m_droped (fold consume_again1 ops pq) = m_droped pq"
    by (induction ops arbitrary: pq) (simp_all add: consume_again1_def split_beta)
qed (simp add: commit_def Let_def)

subsection \<open>The other threads\<close>

definition arrivals :: "queue_event list \<Rightarrow> nat" where
  "arrivals es = length (filter (\<lambda>e. case e of Arrives _ _ \<Rightarrow> True | _ \<Rightarrow> False) es)"

definition r_events :: "orderly_round \<Rightarrow> queue_event list" where
  "r_events r = r_before r @ r_checked r @ r_during r"

text \<open>What an event leaves as it is: the messages in flight, every live message, the progress, the log. The tree map grows by at
  most one entry.\<close>

definition disturbed :: "queue_event list \<Rightarrow> 's orderly \<Rightarrow> 's orderly \<Rightarrow> bool" where
  "disturbed es w w' \<longleftrightarrow> pq_wf (o_pq w') \<and> pq_live (o_heap w') (o_pq w') \<and>
     m_msgTreeMapTemp (o_pq w') = m_msgTreeMapTemp (o_pq w) \<and> (\<forall>p m. o_heap w p = Some m \<longrightarrow> o_heap w' p = Some m) \<and>
     o_store w' = o_store w \<and> o_given w' = o_given w \<and>
     length (m_msgTreeMap (o_pq w')) \<le> length (m_msgTreeMap (o_pq w)) + arrivals es \<and>
     (m_droped (o_pq w') \<longrightarrow> m_droped (o_pq w) \<or> Drops \<in> set es) \<and>
     (o_alive w \<and> \<not> o_alive w' \<longrightarrow> Looks \<in> set es \<and> (m_droped (o_pq w) \<or> Drops \<in> set es))"

lemma length_map_put: "length (map_put lt k v m) \<le> Suc (length m)"
  by (induction m) (auto split: if_splits)

lemma arrives_disturbs:
  assumes "pq_wf (o_pq w)" "pq_live (o_heap w) (o_pq w)"
  shows "disturbed [Arrives p m] w (happens (Arrives p m) w)"
proof (cases "o_heap w p = None \<and> ext_queueOffset m \<notin> fst ` set (m_msgTreeMapTemp (o_pq w))")
  case True
  let ?h = "(o_heap w)(p \<mapsto> m)"
  have d: "deref_offsets ?h [p] = Some [(ext_queueOffset m, p)]"
    using entry_live_deref [of ?h "[(ext_queueOffset m, p)]"] by (simp add: entry_live_def)
  obtain b pq where pm: "putMessage ?h [p] (o_pq w) = Some (b, pq)"
    using d by (cases "putMessage ?h [p] (o_pq w)") (auto simp: putMessage_def Let_def split: if_splits)
  have e: "happens (Arrives p m) w = w\<lparr>o_pq := pq, o_heap := ?h\<rparr>" using True pm by simp
  note f = putMessage_fields [OF pm d]
  have t: "m_msgTreeMap pq = map_put ll_lt (ext_queueOffset m) p (m_msgTreeMap (o_pq w))" using f(1) by (simp add: put_all_def)
  have "keys_of [(ext_queueOffset m, p)] \<inter> inflight (o_pq w) = {}" using True by (auto simp: keys_of_def inflight_def)
  then have wf: "pq_wf pq" using putMessage_wf(1) [OF assms(1) pm d] by blast
  have "entry_live ?h x" if "entry_live (o_heap w) x" for x
    using that True by (auto simp: entry_live_def split: option.splits)
  moreover have "entry_live ?h (ext_queueOffset m, p)" by (simp add: entry_live_def)
  ultimately have "pq_live ?h pq"
    using assms(2) set_put_subset [of "ext_queueOffset m" p "m_msgTreeMap (o_pq w)"] unfolding pq_live_iff t f(2) by (auto simp: list_all_iff)
  moreover have "m_droped pq = m_droped (o_pq w)" using pm d by (auto simp: putMessage_def Let_def split: if_splits)
  moreover have "length (m_msgTreeMap pq) \<le> Suc (length (m_msgTreeMap (o_pq w)))" unfolding t by (rule length_map_put)
  ultimately show ?thesis unfolding e using wf f(2) True by (auto simp: disturbed_def arrivals_def)
next
  case False
  then have "happens (Arrives p m) w = w" by auto
  then show ?thesis using assms by (simp add: disturbed_def)
qed

lemma event_disturbs:
  assumes "pq_wf (o_pq w)" "pq_live (o_heap w) (o_pq w)"
  shows "disturbed [e] w (happens e w)"
proof (cases e)
  case (Arrives p m)
  then show ?thesis using arrives_disturbs [OF assms] by simp
qed (use assms in \<open>auto simp: disturbed_def pq_wf_def pq_live_iff pending_def inflight_def setDroped_def setLocked_def setLastLockTimestamp_def\<close>)

lemma disturbed_trans:
  assumes "disturbed es w v" "disturbed fs v u"
  shows "disturbed (es @ fs) w u"
  using assms by (auto simp: disturbed_def arrivals_def)

lemma threads_disturb:
  assumes "pq_wf (o_pq w)" "pq_live (o_heap w) (o_pq w)"
  shows "disturbed es w (other_threads es w)"
  using assms
proof (induction es arbitrary: w)
  case Nil
  then show ?case by (simp add: disturbed_def other_threads_def arrivals_def)
next
  case (Cons e es)
  have d: "disturbed [e] w (happens e w)" by (rule event_disturbs [OF Cons.prems])
  then have "pq_wf (o_pq (happens e w))" "pq_live (o_heap (happens e w)) (o_pq (happens e w))" by (simp_all add: disturbed_def)
  then have "disturbed es (happens e w) (other_threads es (happens e w))" by (rule Cons.IH)
  with disturbed_trans [OF d] show ?case by (simp add: other_threads_def)
qed

lemma other_threads_Nil [simp]: "other_threads [] w = w"
  by (simp add: other_threads_def)

lemma threads_ok:
  assumes "orderly_ok w"
  shows "orderly_ok (other_threads es w)" "disturbed es w (other_threads es w)"
proof -
  show d: "disturbed es w (other_threads es w)" using assms by (intro threads_disturb) (simp_all add: orderly_ok_def)
  then show "orderly_ok (other_threads es w)" using assms by (simp add: orderly_ok_def disturbed_def inflight_empty_iff)
qed

text \<open>A pass that ends well, and one that touches a deleted queue.\<close>

definition pass_ok :: "queue_event list \<Rightarrow> 's orderly \<Rightarrow> (bool \<times> 's orderly) option \<Rightarrow> bool" where
  "pass_ok es w res \<longleftrightarrow>
     (case res of
        Some (c, w') \<Rightarrow> orderly_ok w' \<and> o_alive w' \<and> (m_droped (o_pq w') \<longrightarrow> m_droped (o_pq w) \<or> Drops \<in> set es)
      | None \<Rightarrow> Looks \<in> set es \<and> (m_droped (o_pq w) \<or> Drops \<in> set es))"

lemma consume_batch_auto:
  assumes "orderly_ok w" "o_alive w" "takeMessags n (o_pq w) = (msgs, pq)" "ctx_autoCommit r"
  shows "pass_ok (r_during r) w (consume_batch upd mq r msgs (w\<lparr>o_pq := pq\<rparr>))"
proof -
  define b where "b = take (nat n) (m_msgTreeMap (o_pq w))"
  define v where "v = other_threads (r_during r) (w\<lparr>o_pq := pq, o_given := o_given w @ [msgs]\<rparr>)"
  note t = orderly_ok_take [OF assms(1,3), folded b_def]
  let ?st = "case listener_result r of None \<Rightarrow> SUSPEND_CURRENT_QUEUE_A_MOMENT | Some st \<Rightarrow> st"
  have dp: "m_droped pq = m_droped (o_pq w)" using assms(3) by (auto simp: takeMessags_eq Let_def split: if_splits)
  have live: "\<not> list_ex (\<lambda>p. o_heap w p = None) msgs"
    using t(3,4) by (auto simp: list_ex_iff list_all_iff entry_live_def split: option.splits)
  have v: "disturbed (r_during r) (w\<lparr>o_pq := pq, o_given := o_given w @ [msgs]\<rparr>) v"
    unfolding v_def using t(1,2,4,6) by (intro threads_disturb) (auto simp: pq_live_iff list_all_iff)
  then have vf: "pq_wf (o_pq v)" "m_msgTreeMapTemp (o_pq v) = b" "list_all (entry_live (o_heap v)) (m_msgTreeMap (o_pq v) @ b)"
    and vd: "m_droped (o_pq v) \<longrightarrow> m_droped (o_pq w) \<or> Drops \<in> set (r_during r)"
    and va: "\<not> o_alive v \<longrightarrow> Looks \<in> set (r_during r) \<and> (m_droped (o_pq w) \<or> Drops \<in> set (r_during r))"
    using t(2) dp assms(2) by (auto simp: disturbed_def pq_live_iff)
  have dr: "deref_offsets (o_heap v) msgs = Some b" using vf(3) t(3) by (simp add: entry_live_deref)
  let ?w = "stat_rt (consumeRT r) v"
  show ?thesis
  proof (cases "o_alive v")
    case False
    then show ?thesis using va live by (simp add: pass_ok_def consume_batch_def Let_def v_def)
  next
    case alive: True
    show ?thesis
    proof (cases "?st = SUSPEND_CURRENT_QUEUE_A_MOMENT")
      case True
      obtain w' where w': "orderly_processConsumeResult upd mq msgs SUSPEND_CURRENT_QUEUE_A_MOMENT True (ctx_suspend r) ?w = Some (False, w')"
        and pq': "o_pq w' = fold consume_again1 b (o_pq v)" and h': "o_heap w' = o_heap v" "o_alive w'"
        using process_suspend [of ?w msgs b upd mq True "ctx_suspend r"] dr alive by auto
      have wf: "pq_wf (o_pq w') \<and> inflight (o_pq w') = inflight (o_pq v) - keys_of b"
        using fold_consume_again_wf [OF vf(1), of b] pq' by simp
      then have "inflight (o_pq w') = {}" using vf(2) by (simp add: inflight_def)
      moreover have "pq_live (o_heap w') (o_pq w')"
        using fold_consume_again_sets [of b "o_pq v"] vf(2,3) unfolding pq_live_iff pq' h'(1) by (auto simp: list_all_iff)
      ultimately have "orderly_ok w'" using wf by (simp add: orderly_ok_def)
      moreover have "consume_batch upd mq r msgs (w\<lparr>o_pq := pq\<rparr>) = Some (False, w')"
        using w' True live assms(4) alive by (simp add: consume_batch_def Let_def v_def)
      ultimately show ?thesis using h'(2) vd pq' by (simp add: pass_ok_def dropped_kept)
    next
      case False
      obtain w' where w': "orderly_processConsumeResult upd mq msgs ?st True (ctx_suspend r) ?w = Some (True, w')"
        and pq': "o_pq w' = snd (commit (o_pq v))" and h': "o_heap w' = o_heap v" "o_alive w'"
        using process_auto_commit [OF False, of upd mq msgs "ctx_suspend r" ?w] alive by auto
      let ?v = "w'\<lparr>o_heap := delete_all msgs (o_heap w')\<rparr>"
      have "fst ` set b \<inter> fst ` set (m_msgTreeMap (o_pq v)) = {}"
        using vf(1,2) by (auto simp: pq_wf_def pending_def inflight_def keys_of_def)
      then have "list_all (entry_live (o_heap ?v)) (m_msgTreeMap (o_pq v))"
        using live_delete [of "o_heap v" b] vf(3) t(3) h'(1) by simp
      then have "orderly_ok ?v"
        using commit_wf [OF vf(1)] commit_tree [of "o_pq v"] pq' by (simp add: orderly_ok_def pq_live_iff)
      moreover have "consume_batch upd mq r msgs (w\<lparr>o_pq := pq\<rparr>) = Some (True, ?v)"
        using w' live assms(4) alive by (simp add: consume_batch_def Let_def v_def)
      ultimately show ?thesis using h'(2) vd pq' by (simp add: pass_ok_def dropped_kept)
    qed
  qed
qed

lemma take_nothing:
  assumes "orderly_ok w" "takeMessags n (o_pq w) = ([], pq)"
  shows "orderly_ok (w\<lparr>o_pq := pq\<rparr>)" "m_droped pq = m_droped (o_pq w)"
proof -
  note t = orderly_ok_take [OF assms]
  have "take (nat n) (m_msgTreeMap (o_pq w)) = []" using t(3) by simp
  then show "orderly_ok (w\<lparr>o_pq := pq\<rparr>)"
    using t by (auto simp: orderly_ok_def pq_live_iff inflight_empty_iff list_all_iff dest: in_set_dropD in_set_takeD)
  show "m_droped pq = m_droped (o_pq w)" using assms(2) by (auto simp: takeMessags_eq Let_def split: if_splits)
qed

lemma orderly_iter_auto:
  assumes "orderly_ok w" "o_alive w" "ctx_autoCommit r"
  shows "pass_ok (r_events r) w (orderly_iter upd model n t0 mq r w)"
proof -
  define u where "u = other_threads (r_before r) w"
  define v where "v = other_threads (r_checked r) u"
  note u = threads_ok [OF assms(1), of "r_before r", folded u_def] and v = threads_ok [OF u(1), of "r_checked r", folded v_def]
  have uv: "disturbed (r_before r @ r_checked r) w v" by (rule disturbed_trans [OF u(2) v(2)])
  have keep: "orderly_ok (tryLockLaterAndReconsume k u)" "orderly_ok (submitConsumeRequestLater k u)" for k
    using u(1) by (simp_all add: orderly_ok_def)
  have early: "pass_ok (r_events r) w (Some (False, x))" if "orderly_ok x" "o_alive x" "o_pq x = o_pq u" for x
    using that u(2) by (auto simp: pass_ok_def disturbed_def r_events_def)
  obtain msgs pq where tk: "takeMessags n (o_pq v) = (msgs, pq)" by (cases "takeMessags n (o_pq v)")
  have batch: "pass_ok (r_events r) w (consume_batch upd mq r msgs (v\<lparr>o_pq := pq\<rparr>))" if "o_alive v"
    using consume_batch_auto [OF v(1) that tk assms(3), of upd mq] uv
    by (auto simp: pass_ok_def disturbed_def r_events_def split: option.splits)
  have rest: "pass_ok (r_events r) w
      (if \<not> o_alive v then None else if msgs \<noteq> [] then consume_batch upd mq r msgs (v\<lparr>o_pq := pq\<rparr>) else Some (False, v\<lparr>o_pq := pq\<rparr>))"
  proof (cases "o_alive v")
    case False
    then show ?thesis using uv assms(2) by (auto simp: pass_ok_def disturbed_def r_events_def)
  next
    case True
    then show ?thesis using batch take_nothing [OF v(1)] tk uv by (auto simp: pass_ok_def disturbed_def r_events_def)
  qed
  have it: "orderly_iter upd model n t0 mq r w =
     (if \<not> o_alive u then None
      else if m_droped (o_pq u) then Some (False, u)
      else if model = CLUSTERING \<and> \<not> m_locked (o_pq u) then Some (False, tryLockLaterAndReconsume 10 u)
      else if model = CLUSTERING \<and> isLockExpired (now_lock r) (o_pq u) then Some (False, tryLockLaterAndReconsume 10 u)
      else if s64 (now_interval r - t0) > s_MaxTimeConsumeContinuously then Some (False, submitConsumeRequestLater 10 u)
      else if \<not> o_alive v then None
      else if msgs \<noteq> [] then consume_batch upd mq r msgs (v\<lparr>o_pq := pq\<rparr>) else Some (False, v\<lparr>o_pq := pq\<rparr>))"
    by (simp add: orderly_iter_def Let_def u_def [symmetric] v_def [symmetric] tk)
  show ?thesis
  proof (cases "o_alive u")
    case False
    then show ?thesis unfolding it using u(2) assms(2) by (auto simp: pass_ok_def disturbed_def r_events_def)
  next
    case True
    then show ?thesis unfolding it using early u(1) keep rest by simp
  qed
qed

text \<open>The loop makes progress: a pass that goes on took at least one message.\<close>

lemma tree_grows: "length (m_msgTreeMap (o_pq (other_threads es w))) \<le> length (m_msgTreeMap (o_pq w)) + arrivals es"
proof (induction es arbitrary: w)
  case Nil
  then show ?case by (simp add: arrivals_def)
next
  case (Cons e es)
  have "length (m_msgTreeMap (o_pq (happens e w))) \<le> length (m_msgTreeMap (o_pq w)) + arrivals [e]"
  proof (cases e)
    case (Arrives p m)
    have "putMessage ((o_heap w)(p \<mapsto> m)) [p] (o_pq w) = Some (b, pq) \<Longrightarrow> length (m_msgTreeMap pq) \<le> Suc (length (m_msgTreeMap (o_pq w)))" for b pq
      using length_map_put [of ll_lt "ext_queueOffset m" p "m_msgTreeMap (o_pq w)"] by (auto simp: putMessage_def put_all_def Let_def split: if_splits option.splits)
    with Arrives show ?thesis by (auto simp: arrivals_def split: option.split)
  qed (auto simp: setDroped_def setLocked_def setLastLockTimestamp_def)
  moreover have "arrivals (e # es) = arrivals [e] + arrivals es" by (simp add: arrivals_def)
  ultimately show ?case using Cons.IH [of "happens e w"] by (simp add: other_threads_def)
qed

lemma process_continues:
  "orderly_processConsumeResult upd mq msgs status auto suspend w = Some (True, w') \<Longrightarrow> m_msgTreeMap (o_pq w') = m_msgTreeMap (o_pq w)"
  by (auto simp: orderly_processConsumeResult_def branch_commit_def branch_rollback_def branch_suspend_def split_beta commit_tree Let_def
      split: option.splits if_splits ConsumeOrderlyStatus.splits)

lemma orderly_iter_shrinks:
  assumes "orderly_iter upd model n t0 mq r w = Some (True, w')" "1 \<le> n"
  shows "length (m_msgTreeMap (o_pq w')) < length (m_msgTreeMap (o_pq w)) + arrivals (r_events r)"
proof -
  define v where "v = other_threads (r_checked r) (other_threads (r_before r) w)"
  obtain msgs pq where tk: "takeMessags n (o_pq v) = (msgs, pq)" by (cases "takeMessags n (o_pq v)")
  have ne: "msgs \<noteq> []" and cb: "consume_batch upd mq r msgs (v\<lparr>o_pq := pq\<rparr>) = Some (True, w')"
    using assms(1) tk by (auto simp: orderly_iter_def Let_def v_def split: if_splits)
  define u where "u = other_threads (r_during r) (v\<lparr>o_pq := pq, o_given := o_given v @ [msgs]\<rparr>)"
  have "m_msgTreeMap (o_pq w') = m_msgTreeMap (o_pq u)"
    using cb by (auto simp: consume_batch_def Let_def u_def dest!: process_continues split: option.splits if_splits)
  then have "length (m_msgTreeMap (o_pq w')) \<le> length (m_msgTreeMap pq) + arrivals (r_during r)"
    using tree_grows [of "r_during r" "v\<lparr>o_pq := pq, o_given := o_given v @ [msgs]\<rparr>"] by (simp add: u_def)
  moreover have "length (m_msgTreeMap pq) < length (m_msgTreeMap (o_pq v))"
    using ne takeMessags_fields(1,3) [OF tk] assms(2) by auto
  moreover have "length (m_msgTreeMap (o_pq v)) \<le> length (m_msgTreeMap (o_pq w)) + arrivals (r_before r) + arrivals (r_checked r)"
    using tree_grows [of "r_checked r" "other_threads (r_before r) w"] tree_grows [of "r_before r" w] by (simp add: v_def)
  ultimately show ?thesis by (simp add: r_events_def arrivals_def)
qed

lemma orderly_loop_ends:
  assumes "1 \<le> n" "length (m_msgTreeMap (o_pq w)) + arrivals (concat (map r_events rs)) < length rs"
  shows "orderly_loop upd model n t0 mq rs w \<noteq> OutOfRounds v"
  using assms(2)
proof (induction rs arbitrary: w)
  case Nil
  then show ?case by simp
next
  case (Cons r rs)
  show ?case
  proof (cases "orderly_iter upd model n t0 mq r w")
    case None
    then show ?thesis by simp
  next
    case (Some cw)
    obtain c w' where cw: "cw = (c, w')" by (cases cw)
    show ?thesis
    proof (cases c)
      case True
      then have "length (m_msgTreeMap (o_pq w')) + arrivals (concat (map r_events rs)) < length rs"
        using orderly_iter_shrinks [OF _ assms(1), of upd model t0 mq r w w'] Some cw Cons.prems by (simp add: arrivals_def)
      then show ?thesis using Cons.IH Some cw True by simp
    next
      case False
      then show ?thesis using Some cw by simp
    qed
  qed
qed

definition taken_away :: "'s orderly \<Rightarrow> orderly_round list \<Rightarrow> bool" where
  \<comment> \<open>the queue is dropped before or during these rounds, and the pull thread looks at it\<close>
  "taken_away w rs \<longleftrightarrow> (let es = concat (map r_events rs) in Looks \<in> set es \<and> (m_droped (o_pq w) \<or> Drops \<in> set es))"

lemma orderly_loop_auto:
  assumes "orderly_ok w" "o_alive w" "list_all ctx_autoCommit rs"
  shows "(\<exists>v. orderly_ok v \<and> o_alive v \<and> (orderly_loop upd model n t0 mq rs w = Finished v \<or>
    orderly_loop upd model n t0 mq rs w = OutOfRounds v)) \<or>
    (orderly_loop upd model n t0 mq rs w = MemoryError \<and> taken_away w rs)"
  using assms
proof (induction rs arbitrary: w)
  case Nil
  then show ?case by auto
next
  case (Cons r rs)
  have p: "pass_ok (r_events r) w (orderly_iter upd model n t0 mq r w)"
    using orderly_iter_auto [OF Cons.prems(1,2)] Cons.prems(3) by simp
  show ?case
  proof (cases "orderly_iter upd model n t0 mq r w")
    case None
    then show ?thesis using p by (auto simp: pass_ok_def taken_away_def Let_def)
  next
    case (Some cw)
    obtain c w' where cw: "cw = (c, w')" by (cases cw)
    have w': "orderly_ok w'" "o_alive w'" "m_droped (o_pq w') \<longrightarrow> m_droped (o_pq w) \<or> Drops \<in> set (r_events r)"
      using p Some cw by (simp_all add: pass_ok_def)
    show ?thesis
    proof (cases c)
      case True
      have "taken_away w' rs \<longrightarrow> taken_away w (r # rs)" using w'(3) by (auto simp: taken_away_def Let_def)
      then show ?thesis using Cons.IH [OF w'(1,2)] Cons.prems(3) Some cw True by auto
    next
      case False
      then show ?thesis using w' Some cw by auto
    qed
  qed
qed

section \<open>Draining a queue\<close>

text \<open>Reference: the offsets an orderly consumer stores when every batch succeeds, the end of each
  chunk of \<open>k\<close> messages.\<close>

function chunk_commits :: "nat \<Rightarrow> (int, addr) smap \<Rightarrow> int list" where
  "chunk_commits k t =
     (if t = [] \<or> k = 0 then [] else (fst (last (take k t)) + 1) # chunk_commits k (drop k t))"
  by pat_completeness auto
termination
  by (relation "measure (\<lambda>(k, t). length t)") (auto simp: neq_Nil_conv)

declare chunk_commits.simps [simp del]

definition round_succeeds :: "int \<Rightarrow> ProcessQueue \<Rightarrow> orderly_round \<Rightarrow> bool" where
  "round_succeeds t0 pq r \<longleftrightarrow> ctx_autoCommit r \<and> listener_result r = Some SUCCESS \<and>
     s64 (now_interval r - t0) \<le> s_MaxTimeConsumeContinuously \<and> \<not> isLockExpired (now_lock r) pq \<and> r_events r = []"

definition may_consume :: "MessageModel \<Rightarrow> ProcessQueue \<Rightarrow> bool" where
  "may_consume model pq \<longleftrightarrow> \<not> m_droped pq \<and> (model = CLUSTERING \<longrightarrow> m_locked pq)"

lemma flags_take:
  assumes "takeMessags n pq = (msgs, pq')"
  shows "m_droped pq' = m_droped pq" "m_locked pq' = m_locked pq" "m_lastLockTimestamp pq' = m_lastLockTimestamp pq"
  using assms by (auto simp: takeMessags_eq Let_def split: if_splits)

lemma flags_commit:
  "m_droped (snd (commit q)) = m_droped q" "m_locked (snd (commit q)) = m_locked q"
  "m_lastLockTimestamp (snd (commit q)) = m_lastLockTimestamp q"
  by (auto simp: commit_def Let_def)

lemma orderly_iter_success:
  assumes "orderly_ok w" "may_consume model (o_pq w)" "round_succeeds t0 (o_pq w) r" "1 \<le> n" "o_alive w"
    and "m_msgTreeMap (o_pq w) \<noteq> []" "\<forall>k \<in> pending (o_pq w). 0 \<le> k \<and> k < 2 ^ 63 - 1"
  defines "t \<equiv> m_msgTreeMap (o_pq w)"
  shows "\<exists>w'. orderly_iter upd model n t0 mq r w = Some (True, w') \<and>
    m_msgTreeMap (o_pq w') = drop (nat n) t \<and>
    o_store w' = upd mq (fst (last (take (nat n) t)) + 1) False (o_store w) \<and>
    o_heap w' = delete_all (map snd (take (nat n) t)) (o_heap w) \<and>
    may_consume model (o_pq w') \<and> m_lastLockTimestamp (o_pq w') = m_lastLockTimestamp (o_pq w) \<and>
    o_alive w' \<and> o_given w' = o_given w @ [map snd (take (nat n) t)]"
proof -
  have quiet: "r_before r = []" "r_checked r = []" "r_during r = []" using assms(3) by (simp_all add: round_succeeds_def r_events_def)
  obtain msgs pq where tk: "takeMessags n (o_pq w) = (msgs, pq)" by (cases "takeMessags n (o_pq w)")
  note ot = orderly_ok_take [OF assms(1) tk, folded t_def] and fl = flags_take [OF tk] flags_commit [of pq]
  have bne: "take (nat n) t \<noteq> []" using assms(4,6) by (simp add: t_def)
  have live: "\<not> list_ex (\<lambda>p. o_heap w p = None) msgs"
    using ot(3,4) by (auto simp: list_ex_iff list_all_iff entry_live_def dest: in_set_takeD split: option.splits)
  have "fst (last (take (nat n) t)) \<in> pending (o_pq w)"
    using in_set_takeD [OF last_in_set [OF bne]] by (simp add: pending_def keys_of_def t_def)
  then have c: "fst (commit pq) = fst (last (take (nat n) t)) + 1" "0 \<le> fst (commit pq)"
    using assms(7) ot(2) bne by (auto simp: commit_def Let_def s64_id)
  let ?w = "stat_rt (consumeRT r) (w\<lparr>o_pq := pq, o_given := o_given w @ [msgs]\<rparr>)"
  obtain w' where w': "orderly_processConsumeResult upd mq msgs SUCCESS True (ctx_suspend r) ?w = Some (True, w')"
    and e: "o_pq w' = snd (commit pq)" "o_heap w' = o_heap w" "o_alive w'" "o_given w' = o_given w @ [msgs]"
      "o_store w' = upd mq (fst (last (take (nat n) t)) + 1) False (o_store w)"
    using process_auto_commit [of SUCCESS upd mq msgs "ctx_suspend r" ?w] c assms(5) by auto
  have nmsgs: "msgs \<noteq> []" using ot(3) bne by simp
  have "orderly_iter upd model n t0 mq r w = consume_batch upd mq r msgs (w\<lparr>o_pq := pq\<rparr>)"
    using assms(2,3,5) tk nmsgs quiet
    by (auto simp: orderly_iter_def may_consume_def round_succeeds_def Let_def)
  also have "\<dots> = Some (True, w'\<lparr>o_heap := delete_all msgs (o_heap w')\<rparr>)"
    using live w' assms(3,5) quiet by (simp add: consume_batch_def round_succeeds_def Let_def)
  finally show ?thesis
    using e ot(1,3) fl assms(2) by (simp add: commit_tree may_consume_def)
qed

lemma orderly_iter_empty:
  assumes "m_msgTreeMap (o_pq w) = []" "may_consume model (o_pq w)" "round_succeeds t0 (o_pq w) r" "o_alive w"
  shows "\<exists>w'. orderly_iter upd model n t0 mq r w = Some (False, w') \<and> m_msgTreeMap (o_pq w') = [] \<and>
    o_store w' = o_store w \<and> o_heap w' = o_heap w \<and> o_given w' = o_given w"
  using assms
  by (auto simp: r_events_def orderly_iter_def may_consume_def round_succeeds_def takeMessags_def Let_def)

lemma round_succeeds_cong: "m_lastLockTimestamp p = m_lastLockTimestamp q \<Longrightarrow> round_succeeds t0 p = round_succeeds t0 q"
  by (simp add: round_succeeds_def isLockExpired_def fun_eq_iff)

lemma delete_all_append: "delete_all ys (delete_all xs h) = delete_all (xs @ ys) h"
  by (auto simp: delete_all_def)

lemma orderly_loop_drains:
  assumes "orderly_ok w" "may_consume model (o_pq w)" "list_all (round_succeeds t0 (o_pq w)) rs" "1 \<le> n"
    and "\<forall>k \<in> pending (o_pq w). 0 \<le> k \<and> k < 2 ^ 63 - 1"
    and "length (m_msgTreeMap (o_pq w)) < length rs" "o_alive w"
  shows "\<exists>v. orderly_loop upd model n t0 mq rs w = Finished v \<and> m_msgTreeMap (o_pq v) = [] \<and>
    concat (o_given v) = concat (o_given w) @ map snd (m_msgTreeMap (o_pq w)) \<and>
    o_store v = fold (\<lambda>off st. upd mq off False st) (chunk_commits (nat n) (m_msgTreeMap (o_pq w))) (o_store w) \<and>
    o_heap v = delete_all (map snd (m_msgTreeMap (o_pq w))) (o_heap w)"
  using assms
proof (induction rs arbitrary: w)
  case Nil
  then show ?case by simp
next
  case (Cons r rs)
  let ?t = "m_msgTreeMap (o_pq w)"
  have r: "round_succeeds t0 (o_pq w) r" using Cons.prems(3) by simp
  show ?case
  proof (cases "?t = []")
    case True
    then show ?thesis
      using orderly_iter_empty [OF True Cons.prems(2) r Cons.prems(7), of upd n mq]
      by (auto simp: chunk_commits.simps [of _ "[]"] delete_all_def)
  next
    case False
    obtain w' where it: "orderly_iter upd model n t0 mq r w = Some (True, w')"
      and w': "m_msgTreeMap (o_pq w') = drop (nat n) ?t"
        "o_store w' = upd mq (fst (last (take (nat n) ?t)) + 1) False (o_store w)"
        "o_heap w' = delete_all (map snd (take (nat n) ?t)) (o_heap w)"
        "may_consume model (o_pq w')" "m_lastLockTimestamp (o_pq w') = m_lastLockTimestamp (o_pq w)"
        "o_alive w'" "o_given w' = o_given w @ [map snd (take (nat n) ?t)]"
      using orderly_iter_success [OF Cons.prems(1,2) r Cons.prems(4,7) False Cons.prems(5), of upd mq] by auto
    have ok: "orderly_ok w'"
      using orderly_iter_auto [OF Cons.prems(1,7), of r upd model n t0 mq] r it by (auto simp: round_succeeds_def pass_ok_def)
    have rs: "list_all (round_succeeds t0 (o_pq w')) rs"
      using Cons.prems(3) round_succeeds_cong [OF w'(5)] by simp
    have pd: "\<forall>k \<in> pending (o_pq w'). 0 \<le> k \<and> k < 2 ^ 63 - 1"
      using Cons.prems(5) w'(1) by (auto simp: pending_def keys_of_def dest: in_set_dropD)
    have len: "length (m_msgTreeMap (o_pq w')) < length rs"
      using orderly_iter_shrinks [OF it Cons.prems(4)] Cons.prems(6) r by (simp add: round_succeeds_def arrivals_def)
    obtain v where v: "orderly_loop upd model n t0 mq rs w' = Finished v" "m_msgTreeMap (o_pq v) = []"
      "concat (o_given v) = concat (o_given w') @ map snd (m_msgTreeMap (o_pq w'))"
      "o_store v = fold (\<lambda>off st. upd mq off False st) (chunk_commits (nat n) (m_msgTreeMap (o_pq w'))) (o_store w')"
      "o_heap v = delete_all (map snd (m_msgTreeMap (o_pq w'))) (o_heap w')"
      using Cons.IH [OF ok w'(4) rs Cons.prems(4) pd len w'(6)] by blast
    have "chunk_commits (nat n) ?t = (fst (last (take (nat n) ?t)) + 1) # chunk_commits (nat n) (drop (nat n) ?t)"
      using False Cons.prems(4) by (simp add: chunk_commits.simps [of "nat n" ?t])
    then show ?thesis
      using v it w' by (simp add: delete_all_append flip: map_append)
  qed
qed

section \<open>Claims\<close>

text \<open>
  C13. Memory safety of the orderly consumer in auto-commit mode, with the other threads acting on the queue at every point where they can: from a
  queue whose messages are all live and with nothing uncommitted, a request ends after at most one more pass than there
  are messages waiting or arriving, whatever the listener returns or throws and whatever the clock shows. Either it never touches a deleted message or a deleted
  queue and leaves the queue in such a state again, or it uses the process queue after its deletion, which needs that the queue was dropped before or
  during the run and that the pull thread looked at it during the run. A queue that is not dropped is therefore always safe.
\<close>

theorem orderly_auto_commit_safe:
  assumes "orderly_ok w" "o_alive w" "list_all ctx_autoCommit rs" "1 \<le> batchSize"
    and "length (m_msgTreeMap (o_pq w)) + arrivals (concat (map r_events rs)) < length rs"
  shows "(\<exists>v. ConsumeOrderlyRequest_Do upd model batchSize now0 t0 mq rs w = Finished v \<and> orderly_ok v \<and> o_alive v) \<or>
    (ConsumeOrderlyRequest_Do upd model batchSize now0 t0 mq rs w = MemoryError \<and> Looks \<in> set (concat (map r_events rs)) \<and>
     (m_droped (o_pq w) \<or> Drops \<in> set (concat (map r_events rs))))"
proof -
  have "(\<exists>v. orderly_loop upd model batchSize t0 mq rs w = Finished v \<and> orderly_ok v \<and> o_alive v) \<or>
      (orderly_loop upd model batchSize t0 mq rs w = MemoryError \<and> taken_away w rs)"
    using orderly_loop_auto [OF assms(1-3), of upd model batchSize t0 mq]
      orderly_loop_ends [OF assms(4,5), of upd model t0 mq] by blast
  moreover have "orderly_ok (tryLockLaterAndReconsume 10 w)" using assms(1) by (simp add: orderly_ok_def)
  ultimately show ?thesis using assms(2) by (simp add: ConsumeOrderlyRequest_Do_def taken_away_def Let_def)
qed

definition sample_stat :: ConsumerStat where
  "sample_stat = \<lparr>createTimestamp = 0, consumeMsgRTMax = 0, consumeMsgRTTotal = 0, consumeMsgOKTotal = 0,
     consumeMsgFailedTotal = 0, pullRTTotal = 0, pullTimesTotal = 0\<rparr>"

definition sample_orderly :: "RemoteStore orderly" where
  "sample_orderly = \<lparr>o_pq = sample_queue, o_heap = sample_heap, o_store = sample_remote, o_stat = sample_stat, o_timers = [],
     o_alive = True, o_given = []\<rparr>"

definition sample_round :: "bool \<Rightarrow> ConsumeOrderlyStatus \<Rightarrow> orderly_round" where
  "sample_round auto st = \<lparr>now_lock = 0, now_interval = 0, listener_result = Some st, ctx_autoCommit = auto,
     ctx_suspend = 1000, consumeRT = 1, r_before = [], r_checked = [], r_during = []\<rparr>"

lemma sample_orderly_ok: "orderly_ok sample_orderly"
  using sample_queue_wf
  by (simp add: orderly_ok_def sample_orderly_def pq_live_iff entry_live_def inflight_def sample_defs)

theorem orderly_auto_commit_safe_witness:
  "\<exists>v. ConsumeOrderlyRequest_Do remote_updateOffset BROADCASTING 2 0 0 (sample_mq 0)
     (replicate 4 ((sample_round True SUSPEND_CURRENT_QUEUE_A_MOMENT)\<lparr>r_during := [Drops]\<rparr>)) sample_orderly = Finished v \<and> orderly_ok v \<and> o_alive v"
proof -
  let ?rs = "replicate 4 ((sample_round True SUSPEND_CURRENT_QUEUE_A_MOMENT)\<lparr>r_during := [Drops]\<rparr>)"
  have "list_all ctx_autoCommit ?rs" "length (m_msgTreeMap (o_pq sample_orderly)) + arrivals (concat (map r_events ?rs)) < length ?rs"
    by (simp_all add: list_all_iff sample_round_def sample_orderly_def sample_queue_def r_events_def arrivals_def numeral_eq_Suc)
  moreover have "Looks \<notin> set (concat (map r_events ?rs))" by (simp add: sample_round_def r_events_def)
  moreover have "o_alive sample_orderly" by (simp add: sample_orderly_def)
  ultimately show ?thesis
    using orderly_auto_commit_safe [OF sample_orderly_ok, of ?rs 2 remote_updateOffset BROADCASTING 0 0 "sample_mq 0"] by auto
qed

text \<open>
  The deletion does happen under a running request: a rebalance drops the queue while the listener works on the last batch, the tree map is empty because
  the batch is in flight, the pull thread deletes the queue, and the request commits into freed memory.
\<close>

theorem orderly_dropped_queue_use_after_free:
  assumes "orderly_ok w" "o_alive w" "may_consume model (o_pq w)" "\<not> isLockExpired (now_lock r) (o_pq w)"
    and "s64 (now_interval r - t0) \<le> s_MaxTimeConsumeContinuously" "1 \<le> batchSize"
    and "m_msgTreeMap (o_pq w) \<noteq> []" "length (m_msgTreeMap (o_pq w)) \<le> nat batchSize"
    and "r_before r = []" "r_checked r = []" "r_during r = [Drops, Looks]"
  shows "orderly_loop upd model batchSize t0 mq (r # rs) w = MemoryError"
proof -
  obtain msgs pq where tk: "takeMessags batchSize (o_pq w) = (msgs, pq)" by (cases "takeMessags batchSize (o_pq w)")
  note ot = orderly_ok_take [OF assms(1) tk]
  have e: "m_msgTreeMap pq = []" using ot(1) assms(8) by simp
  have live: "\<not> list_ex (\<lambda>p. o_heap w p = None) msgs"
    using ot(3,4) by (auto simp: list_ex_iff list_all_iff entry_live_def dest: in_set_takeD split: option.splits)
  have "consume_batch upd mq r msgs (w\<lparr>o_pq := pq\<rparr>) = None"
    using live e assms(11) by (simp add: consume_batch_def Let_def other_threads_def setDroped_def)
  moreover have "msgs \<noteq> []" using ot(3) assms(6,7) by simp
  ultimately show ?thesis
    using assms(2-5,9,10) tk by (auto simp: orderly_iter_def may_consume_def Let_def)
qed

lemma sample_not_expired: "\<not> isLockExpired 0 sample_queue"
  by (simp add: isLockExpired_def sample_queue_def ProcessQueue_new_def s_RebalanceLockMaxLiveTime_def u64_def)

lemma sample_may_consume: "may_consume BROADCASTING (o_pq sample_orderly)"
  by (simp add: may_consume_def sample_orderly_def sample_queue_def ProcessQueue_new_def)

theorem orderly_dropped_queue_use_after_free_witness:
  "orderly_loop remote_updateOffset BROADCASTING 3 0 (sample_mq 0) [(sample_round True SUCCESS)\<lparr>r_during := [Drops, Looks]\<rparr>] sample_orderly = MemoryError"
  by (rule orderly_dropped_queue_use_after_free [OF sample_orderly_ok _ sample_may_consume])
    (use sample_not_expired in \<open>simp_all add: sample_orderly_def sample_round_def s64_def s_MaxTimeConsumeContinuously_def sample_queue_def\<close>)



text \<open>
  In manual-commit mode the same loop deletes messages it still refers to: when the listener
  reports \<open>SUCCESS\<close> without auto-commit, every message of the batch is deleted and stays in the
  table of uncommitted messages, so a later \<open>ROLLBACK\<close> puts dangling pointers back into the queue.
\<close>

theorem orderly_manual_success_dangles:
  assumes "orderly_ok w" "may_consume model (o_pq w)" "\<not> isLockExpired (now_lock r) (o_pq w)"
    and "s64 (now_interval r - t0) \<le> s_MaxTimeConsumeContinuously"
    and "listener_result r = Some SUCCESS" "\<not> ctx_autoCommit r"
    and "1 \<le> batchSize" "m_msgTreeMap (o_pq w) \<noteq> []" "o_alive w" "r_events r = []"
  shows "\<exists>v. orderly_iter upd model batchSize t0 mq r w = Some (True, v) \<and>
    m_msgTreeMapTemp (o_pq v) = take (nat batchSize) (m_msgTreeMap (o_pq w)) \<and>
    (\<forall>e \<in> set (m_msgTreeMapTemp (o_pq v)). o_heap v (snd e) = None) \<and>
    m_msgTreeMapTemp (o_pq v) \<noteq> []"
proof -
  let ?t = "m_msgTreeMap (o_pq w)"
  obtain msgs pq where tk: "takeMessags batchSize (o_pq w) = (msgs, pq)" by (cases "takeMessags batchSize (o_pq w)")
  note ot = orderly_ok_take [OF assms(1) tk]
  have bne: "take (nat batchSize) ?t \<noteq> []" using assms(7,8) by simp
  have live: "\<not> list_ex (\<lambda>p. o_heap w p = None) msgs"
    using ot(3,4) by (auto simp: list_ex_iff list_all_iff entry_live_def dest: in_set_takeD split: option.splits)
  have "orderly_iter upd model batchSize t0 mq r w = consume_batch upd mq r msgs (w\<lparr>o_pq := pq\<rparr>)"
    using assms(2-4,9,10) tk ot(3) bne by (auto simp: orderly_iter_def may_consume_def r_events_def Let_def)
  also have "\<dots> = Some (True, (stat_ok (s32 (int (length msgs))) (stat_rt (consumeRT r) (w\<lparr>o_pq := pq, o_given := o_given w @ [msgs]\<rparr>)))
      \<lparr>o_heap := delete_all msgs (o_heap w)\<rparr>)"
    using live assms(5,6,9,10) by (simp add: consume_batch_def orderly_processConsumeResult_def r_events_def Let_def)
  finally show ?thesis
    using ot(2,3) bne by (auto simp: delete_all_def)
qed

theorem orderly_manual_success_dangles_witness:
  "\<exists>v. orderly_iter remote_updateOffset BROADCASTING 2 0 (sample_mq 0) (sample_round False SUCCESS) sample_orderly = Some (True, v) \<and>
    m_msgTreeMapTemp (o_pq v) = take (nat 2) (m_msgTreeMap (o_pq sample_orderly)) \<and>
    (\<forall>e \<in> set (m_msgTreeMapTemp (o_pq v)). o_heap v (snd e) = None) \<and>
    m_msgTreeMapTemp (o_pq v) \<noteq> []"
  using sample_orderly_ok
proof (rule orderly_manual_success_dangles)
  show "may_consume BROADCASTING (o_pq sample_orderly)" by (rule sample_may_consume)
  show "\<not> isLockExpired (now_lock (sample_round False SUCCESS)) (o_pq sample_orderly)"
    using sample_not_expired by (simp add: sample_orderly_def sample_round_def)
qed (simp_all add: sample_round_def s64_def s_MaxTimeConsumeContinuously_def sample_orderly_def sample_queue_def r_events_def)

text \<open>
  The consequence, run on three live messages: a batch acknowledged with \<open>SUCCESS\<close> in
  manual-commit mode, then \<open>ROLLBACK\<close> on the next batch, and the next request of the same queue
  hands deleted messages to the listener.
\<close>

theorem orderly_manual_rollback_use_after_free:
  "\<exists>v. ConsumeOrderlyRequest_Do remote_updateOffset BROADCASTING 2 0 0 (sample_mq 0)
       [sample_round False SUCCESS, sample_round False ROLLBACK] sample_orderly = Finished v \<and>
     ConsumeOrderlyRequest_Do remote_updateOffset BROADCASTING 2 0 0 (sample_mq 0)
       [sample_round True SUCCESS] v = MemoryError"
proof -
  note d = ConsumeOrderlyRequest_Do_def orderly_iter_def consume_batch_def orderly_processConsumeResult_def
    branch_rollback_def rollback_def takeMessags_def sample_round_def sample_orderly_def sample_defs
    s64_def s_MaxTimeConsumeContinuously_def numeral_2_eq_2 delete_all_def put_all_def orderly_frame clamp_suspend_def
    Let_def
  show ?thesis by (simp add: d)
qed

text \<open>
  Orderly delivery per queue inside one client: the mutex table gives every request of the same
  queue the same mutex and requests of different queues different ones, and handing out a mutex
  never changes the mutex of another queue.
\<close>

theorem fetchLockObject_per_queue:
  assumes "map_wf mq_lt mq_ok (m_mqLockTable l)" "mq_ok a" "mq_ok b"
    and "\<forall>e \<in> set (m_mqLockTable l). snd e < m_nextMutex l" "distinct (map snd (m_mqLockTable l))"
    and "fetchLockObject a l = (x, l')" "fetchLockObject b l' = (y, l'')"
  shows "(x = y) \<longleftrightarrow> (a = b)"
proof (cases "map_find mq_lt a (m_mqLockTable l)")
  case None
  then have x: "x = m_nextMutex l" and l': "m_mqLockTable l' = map_put mq_lt a x (m_mqLockTable l)"
    "m_nextMutex l' = Suc x"
    using assms(6) by (auto simp: fetchLockObject_def)
  have b: "map_find mq_lt b (m_mqLockTable l') = (if b = a then Some x else map_find mq_lt b (m_mqLockTable l))"
    unfolding l' using assms(1-3) by (simp add: mq.find_put)
  have "z < x" if "map_find mq_lt b (m_mqLockTable l) = Some z" for z
    using that assms(1,3,4) x by (auto simp: mq.find_Some_iff)
  with b assms(7) l'(2) show ?thesis
    by (auto simp: fetchLockObject_def split: option.splits if_splits)
next
  case (Some z)
  then have z: "x = z" "l' = l" using assms(6) by (auto simp: fetchLockObject_def)
  have za: "(a, z) \<in> set (m_mqLockTable l)" using Some assms(1,2) by (simp add: mq.find_Some_iff)
  then have zl: "z < m_nextMutex l" using assms(4) by auto
  show ?thesis
  proof (cases "map_find mq_lt b (m_mqLockTable l)")
    case None
    then show ?thesis using assms(7) z zl Some by (auto simp: fetchLockObject_def)
  next
    case (Some u)
    then have "(b, u) \<in> set (m_mqLockTable l)" using assms(1,3) by (simp add: mq.find_Some_iff)
    with za assms(5) have "z = u \<longleftrightarrow> a = b"
      using \<open>map_find mq_lt a (m_mqLockTable l) = Some z\<close> Some
      by (auto simp: distinct_map dest: inj_onD [of snd _ "(a, u)" "(b, u)"])
    then show ?thesis using assms(7) z Some by (auto simp: fetchLockObject_def)
  qed
qed

theorem fetchLockObject_per_queue_witness:
  "fst (fetchLockObject (sample_mq 0) \<lparr>m_mqLockTable = [], m_nextMutex = 0\<rparr>) \<noteq>
   fst (fetchLockObject (sample_mq 1) (snd (fetchLockObject (sample_mq 0) \<lparr>m_mqLockTable = [], m_nextMutex = 0\<rparr>)))"
proof -
  let ?l = "\<lparr>m_mqLockTable = [], m_nextMutex = 0\<rparr>"
  have "sample_mq 0 \<noteq> sample_mq 1" by (simp add: sample_mq_def mq_make_def)
  then show ?thesis
    using fetchLockObject_per_queue [of ?l "sample_mq 0" "sample_mq 1"] sample_mq_ok
    by (metis (no_types, lifting) MessageQueueLock.select_convs(1) distinct.simps(1) empty_iff empty_set
        list.simps(8) map_wf_Nil one_less_numeral_iff prod.collapse semiring_norm(76) zero_le_one order_refl
        zero_less_power zero_less_numeral less_numeral_extra(1) one_less_power)
qed

end
