(* ===== verification/Consume_Concurrently.thy ===== *)
theory Consume_Concurrently
  imports Consume_Orderly
begin

text \<open>
  \<open>ConsumeMessageConcurrentlyService\<close> and \<open>ConsumeConcurrentlyRequest::Do\<close>
  (\<open>src/src/consumer/ConsumeMessageConcurrentlyService.cpp\<close>). A request owns a list of message
  pointers; \<open>concurrently\<close> is what it works on. Whether the broker takes a message back
  (\<open>sendMessageBack\<close> returning true or throwing) is an argument, as is what the listener returns.
  \<open>c_later\<close> collects the lists handed to the 5 second timer, \<open>c_sent_back\<close> the messages the broker
  took back. \<open>delete this\<close> at the end of \<open>Do\<close> releases the messages still in the list.
\<close>

datatype ConsumeConcurrentlyStatus = CONSUME_SUCCESS | RECONSUME_LATER

record 's concurrently =
  c_pq :: ProcessQueue
  c_heap :: heap
  c_store :: 's
  c_stat :: ConsumerStat
  c_later :: "addr list list"
  c_sent_back :: "addr list"

section \<open>Submitting\<close>

definition size_t :: "int \<Rightarrow> nat" where
  \<comment> \<open>an \<open>int\<close> converted to \<open>size_t\<close>\<close>
  "size_t n = nat (u64 n)"

text \<open>The outer loop of \<open>submitConsumeRequest\<close>. The inner loop takes \<open>consumeBatchSize\<close> messages; with
  a batch size of 0 it takes none and the outer loop never ends, which is the value \<open>None\<close>.\<close>

partial_function (option) submit_chunks :: "nat \<Rightarrow> addr list \<Rightarrow> addr list list option" where
  "submit_chunks k msgs =
     (if msgs = [] then Some []
      else Option.bind (submit_chunks k (drop k msgs)) (\<lambda>r. Some (take k msgs # r)))"

definition conc_submitConsumeRequest :: "int \<Rightarrow> addr list \<Rightarrow> (addr list list \<times> addr list) option" where
  \<comment> \<open>the requests added to the pool, and \<open>pMsgs\<close> after the call\<close>
  "conc_submitConsumeRequest consumeMessageBatchMaxSize pMsgs =
     (case submit_chunks (size_t consumeMessageBatchMaxSize) pMsgs of
        None \<Rightarrow> None | Some reqs \<Rightarrow> Some (reqs, []))"

section \<open>Consuming\<close>

definition RETRY_GROUP_TOPIC_PREFIX :: string where "RETRY_GROUP_TOPIC_PREFIX = ''%RETRY%''"

definition getRetryTopic :: "string \<Rightarrow> string" where
  "getRetryTopic consumerGroup = RETRY_GROUP_TOPIC_PREFIX @ consumerGroup"

definition reset_topic :: "string \<Rightarrow> MessageExt \<Rightarrow> MessageExt" where
  "reset_topic groupTopic m =
     (let retryTopic = getProperty PROPERTY_RETRY_TOPIC m in
      if retryTopic \<noteq> [] \<and> groupTopic = msg_topic m then m\<lparr>msg_topic := retryTopic\<rparr> else m)"

fun resetRetryTopic :: "string \<Rightarrow> addr list \<Rightarrow> heap \<Rightarrow> heap option" where
  "resetRetryTopic groupTopic [] h = Some h"
| "resetRetryTopic groupTopic (p # ps) h =
     (case h p of None \<Rightarrow> None
      | Some m \<Rightarrow> resetRetryTopic groupTopic ps (h(p \<mapsto> reset_topic groupTopic m)))"

definition cstat_ok :: "int \<Rightarrow> 's concurrently \<Rightarrow> 's concurrently" where
  "cstat_ok n w = w\<lparr>c_stat := (c_stat w)\<lparr>consumeMsgOKTotal :=
     snd (atomic_fetchAndAdd n (consumeMsgOKTotal (c_stat w)))\<rparr>\<rparr>"

definition cstat_failed :: "int \<Rightarrow> 's concurrently \<Rightarrow> 's concurrently" where
  "cstat_failed n w = w\<lparr>c_stat := (c_stat w)\<lparr>consumeMsgFailedTotal :=
     snd (atomic_fetchAndAdd n (consumeMsgFailedTotal (c_stat w)))\<rparr>\<rparr>"

definition cstat_rt :: "int \<Rightarrow> 's concurrently \<Rightarrow> 's concurrently" where
  "cstat_rt rt w = w\<lparr>c_stat := (c_stat w)
     \<lparr>consumeMsgRTTotal := snd (atomic_fetchAndAdd rt (consumeMsgRTTotal (c_stat w))),
      consumeMsgRTMax := snd (compareAndIncreaseOnly (consumeMsgRTMax (c_stat w)) rt)\<rparr>\<rparr>"

text \<open>The first \<open>switch\<close>: the effective acknowledge index and the statistics.\<close>

definition ack_status :: "ConsumeConcurrentlyStatus \<Rightarrow> int \<Rightarrow> int \<Rightarrow> 's concurrently \<Rightarrow> int \<times> 's concurrently" where
  "ack_status status ackIndex msgsSize w =
     (case status of
        CONSUME_SUCCESS \<Rightarrow>
          (let ackIndex = (if ackIndex \<ge> msgsSize then msgsSize - 1 else ackIndex);
               ok = s32 (ackIndex + 1);
               failed = s32 (msgsSize - ok)
           in (ackIndex, cstat_failed failed (cstat_ok ok w)))
      | RECONSUME_LATER \<Rightarrow> (-1, cstat_failed msgsSize w))"

text \<open>Sending the tail of the list back to the broker; a message it refuses is collected with its
  retry count increased.\<close>

fun send_back_loop :: "(addr \<Rightarrow> bool) \<Rightarrow> addr list \<Rightarrow> 's concurrently \<Rightarrow> (addr list \<times> 's concurrently) option" where
  "send_back_loop sendBack [] w = Some ([], w)"
| "send_back_loop sendBack (p # ps) w =
     (case c_heap w p of None \<Rightarrow> None
      | Some m \<Rightarrow>
          if sendBack p
          then send_back_loop sendBack ps (w\<lparr>c_sent_back := c_sent_back w @ [p]\<rparr>)
          else (case send_back_loop sendBack ps
                  (w\<lparr>c_heap := (c_heap w)(p \<mapsto> m\<lparr>ext_reconsumeTimes := s32 (ext_reconsumeTimes m + 1)\<rparr>)\<rparr>) of
                  None \<Rightarrow> None
                | Some (failed, w) \<Rightarrow> Some (p # failed, w)))"

text \<open>The second \<open>switch\<close>, on the message model: \<open>rest\<close> is what lies behind the acknowledge index.\<close>

definition dispatch_rest ::
  "MessageModel \<Rightarrow> (addr \<Rightarrow> bool) \<Rightarrow> addr list \<Rightarrow> addr list \<Rightarrow> 's concurrently \<Rightarrow> (addr list \<times> 's concurrently) option" where
  "dispatch_rest model sendBack rest msgs w =
     (case model of
        BROADCASTING \<Rightarrow> Some (msgs, w)
      | CLUSTERING \<Rightarrow>
          (case send_back_loop sendBack rest w of None \<Rightarrow> None
           | Some (msgBackFailed, w) \<Rightarrow>
               if msgBackFailed \<noteq> []
               then Some (filter (\<lambda>p. p \<notin> set msgBackFailed) msgs,
                          w\<lparr>c_later := c_later w @ [msgBackFailed]\<rparr>)
               else Some (msgs, w)))"

text \<open>\<open>processConsumeResult\<close> returns the list left in the request.\<close>

definition conc_processConsumeResult ::
  "'s updater \<Rightarrow> MessageModel \<Rightarrow> (addr \<Rightarrow> bool) \<Rightarrow> MessageQueue \<Rightarrow> ConsumeConcurrentlyStatus \<Rightarrow> int
    \<Rightarrow> addr list \<Rightarrow> 's concurrently \<Rightarrow> (addr list \<times> 's concurrently) option" where
  "conc_processConsumeResult upd model sendBack mq status ackIndex msgs w =
     (if msgs = [] then Some (msgs, w)
      else
        let msgsSize = s32 (int (length msgs));
            (ackIndex, w) = ack_status status ackIndex msgsSize w;
            rest = drop (nat (s32 (ackIndex + 1))) msgs
        in case dispatch_rest model sendBack rest msgs w of None \<Rightarrow> None
           | Some (msgs, w) \<Rightarrow>
               (case removeMessage (c_heap w) msgs (c_pq w) of None \<Rightarrow> None
                | Some (offset, pq) \<Rightarrow>
                    let w = w\<lparr>c_pq := pq\<rparr> in
                    Some (msgs, if offset \<ge> 0 then w\<lparr>c_store := upd mq offset True (c_store w)\<rparr> else w)))"

definition conc_delete :: "addr list \<Rightarrow> 's concurrently \<Rightarrow> 's concurrently" where
  "conc_delete msgs w = w\<lparr>c_heap := delete_all msgs (c_heap w)\<rparr>"

text \<open>What the listener did: its status (\<open>None\<close> for an exception, which leaves \<open>RECONSUME_LATER\<close>), the
  acknowledge index it left in the context, and the time it took.\<close>

record listener_run =
  lr_status :: "ConsumeConcurrentlyStatus option"
  lr_ackIndex :: int
  lr_consumeRT :: int

definition ConsumeConcurrentlyRequest_Do ::
  "'s updater \<Rightarrow> MessageModel \<Rightarrow> string \<Rightarrow> (addr \<Rightarrow> bool) \<Rightarrow> MessageQueue \<Rightarrow> listener_run \<Rightarrow> addr list
    \<Rightarrow> 's concurrently \<Rightarrow> 's concurrently option" where
  "ConsumeConcurrentlyRequest_Do upd model consumerGroup sendBack mq lr msgs w =
     (if m_droped (c_pq w)
      then (case removeMessage (c_heap w) msgs (c_pq w) of None \<Rightarrow> None
            | Some (_, pq) \<Rightarrow> Some (conc_delete msgs (w\<lparr>c_pq := pq\<rparr>)))
      else
        (case resetRetryTopic (getRetryTopic consumerGroup) msgs (c_heap w) of None \<Rightarrow> None
         | Some h \<Rightarrow>
             let w = cstat_rt (lr_consumeRT lr) (w\<lparr>c_heap := h\<rparr>);
                 status = (case lr_status lr of None \<Rightarrow> RECONSUME_LATER | Some st \<Rightarrow> st)
             in (case conc_processConsumeResult upd model sendBack mq status (lr_ackIndex lr) msgs w of
                   None \<Rightarrow> None
                 | Some (msgs, w) \<Rightarrow> Some (conc_delete msgs w))))"

section \<open>Lemmas\<close>

lemma cframe_simps [simp]:
  "c_pq (cstat_ok n w) = c_pq w" "c_heap (cstat_ok n w) = c_heap w" "c_store (cstat_ok n w) = c_store w"
  "c_pq (cstat_failed n w) = c_pq w" "c_heap (cstat_failed n w) = c_heap w" "c_store (cstat_failed n w) = c_store w"
  "c_pq (cstat_rt n w) = c_pq w" "c_heap (cstat_rt n w) = c_heap w" "c_store (cstat_rt n w) = c_store w"
  "c_later (cstat_ok n w) = c_later w" "c_later (cstat_failed n w) = c_later w" "c_later (cstat_rt n w) = c_later w"
  "c_sent_back (cstat_ok n w) = c_sent_back w" "c_sent_back (cstat_failed n w) = c_sent_back w"
  "c_sent_back (cstat_rt n w) = c_sent_back w"
  by (simp_all add: cstat_ok_def cstat_failed_def cstat_rt_def)

lemma submit_chunks_Some:
  assumes "1 \<le> k"
  shows "\<exists>reqs. submit_chunks k msgs = Some reqs \<and> concat reqs = msgs \<and>
    (\<forall>q \<in> set reqs. q \<noteq> [] \<and> length q \<le> k)"
proof (induction "length msgs" arbitrary: msgs rule: less_induct)
  case less
  show ?case
  proof (cases "msgs = []")
    case True
    then show ?thesis by (simp add: submit_chunks.simps)
  next
    case False
    with assms have "length (drop k msgs) < length msgs" by simp
    from less [OF this] obtain reqs where r: "submit_chunks k (drop k msgs) = Some reqs"
      "concat reqs = drop k msgs" "\<forall>q \<in> set reqs. q \<noteq> [] \<and> length q \<le> k" by blast
    then show ?thesis
      using False assms by (simp add: submit_chunks.simps [of k msgs])
  qed
qed

lemma submit_chunks_zero:
  assumes "msgs \<noteq> []"
  shows "submit_chunks 0 msgs = None"
proof (rule ccontr)
  assume "submit_chunks 0 msgs \<noteq> None"
  then obtain r where "submit_chunks 0 msgs = Some r" by blast
  then have "0 = (0 :: nat) \<longrightarrow> msgs = []"
  proof (rule submit_chunks.raw_induct [where P = "\<lambda>k msgs r. k = 0 \<longrightarrow> msgs = []", rotated])
    fix f k and msgs :: "addr list" and r
    assume IH: "\<And>k msgs r. f k msgs = Some r \<Longrightarrow> k = 0 \<longrightarrow> msgs = []"
      and "(if msgs = [] then Some [] else Option.bind (f k (drop k msgs)) (\<lambda>r. Some (take k msgs # r))) = Some r"
    then show "k = 0 \<longrightarrow> msgs = []"
      using IH [of k "drop k msgs"] by (cases "f k (drop k msgs)") (auto split: if_splits)
  qed
  with assms show False by simp
qed

text \<open>Two heaps that agree on which messages live and on their queue offsets.\<close>

definition same_offsets :: "heap \<Rightarrow> heap \<Rightarrow> bool" where
  "same_offsets h h' \<longleftrightarrow> (\<forall>p. map_option ext_queueOffset (h p) = map_option ext_queueOffset (h' p))"

lemma same_offsets_refl [simp]: "same_offsets h h"
  by (simp add: same_offsets_def)

lemma same_offsets_trans: "same_offsets a b \<Longrightarrow> same_offsets b c \<Longrightarrow> same_offsets a c"
  by (simp add: same_offsets_def)

lemma same_offsets_upd: "h p = Some m \<Longrightarrow> ext_queueOffset m' = ext_queueOffset m \<Longrightarrow> same_offsets h (h(p \<mapsto> m'))"
  by (simp add: same_offsets_def)

lemma same_offsets_deref: "same_offsets h h' \<Longrightarrow> deref_offsets h' ps = deref_offsets h ps"
proof (induction ps)
  case Nil
  then show ?case by simp
next
  case (Cons p ps)
  have "map_option ext_queueOffset (h p) = map_option ext_queueOffset (h' p)"
    using Cons.prems by (simp add: same_offsets_def)
  with Cons show ?case by (auto split: option.splits)
qed

lemma same_offsets_live: "same_offsets h h' \<Longrightarrow> entry_live h' e = entry_live h e"
proof -
  assume "same_offsets h h'"
  then have "map_option ext_queueOffset (h (snd e)) = map_option ext_queueOffset (h' (snd e))"
    by (simp add: same_offsets_def)
  then show ?thesis by (auto simp: entry_live_def split: option.splits)
qed

lemma reset_topic_offset [simp]: "ext_queueOffset (reset_topic g m) = ext_queueOffset m"
  by (simp add: reset_topic_def Let_def)

lemma resetRetryTopic_live:
  assumes "\<forall>p \<in> set ps. h p \<noteq> None"
  shows "\<exists>h'. resetRetryTopic g ps h = Some h' \<and> same_offsets h h'"
  using assms
proof (induction ps arbitrary: h)
  case Nil
  then show ?case by simp
next
  case (Cons p ps)
  then obtain m where m: "h p = Some m" by auto
  let ?h = "h(p \<mapsto> reset_topic g m)"
  have "\<forall>q \<in> set ps. ?h q \<noteq> None" using Cons.prems by auto
  from Cons.IH [OF this] obtain h' where "resetRetryTopic g ps ?h = Some h'" "same_offsets ?h h'" by blast
  moreover have "same_offsets h ?h" using m by (rule same_offsets_upd) simp
  ultimately show ?case using m same_offsets_trans by (auto simp del: fun_upd_apply)
qed

lemma send_back_loop_spec:
  assumes "\<forall>p \<in> set ps. c_heap w p \<noteq> None"
  shows "\<exists>w'. send_back_loop sendBack ps w = Some (filter (\<lambda>p. \<not> sendBack p) ps, w') \<and>
    same_offsets (c_heap w) (c_heap w') \<and> c_pq w' = c_pq w \<and> c_store w' = c_store w \<and>
    c_later w' = c_later w \<and> c_sent_back w' = c_sent_back w @ filter sendBack ps"
  using assms
proof (induction ps arbitrary: w)
  case Nil
  then show ?case by simp
next
  case (Cons p ps)
  then obtain m where m: "c_heap w p = Some m" by auto
  show ?case
  proof (cases "sendBack p")
    case True
    from Cons.IH [of "w\<lparr>c_sent_back := c_sent_back w @ [p]\<rparr>"] Cons.prems m True show ?thesis by auto
  next
    case False
    define h where "h = (c_heap w)(p \<mapsto> m\<lparr>ext_reconsumeTimes := s32 (ext_reconsumeTimes m + 1)\<rparr>)"
    have "\<forall>q \<in> set ps. h q \<noteq> None" using Cons.prems by (auto simp: h_def)
    then obtain w' where
      "send_back_loop sendBack ps (w\<lparr>c_heap := h\<rparr>) = Some (filter (\<lambda>p. \<not> sendBack p) ps, w')"
      "same_offsets h (c_heap w')" "c_pq w' = c_pq w" "c_store w' = c_store w"
      "c_later w' = c_later w" "c_sent_back w' = c_sent_back w @ filter sendBack ps"
      using Cons.IH [of "w\<lparr>c_heap := h\<rparr>"] by auto
    moreover have "same_offsets (c_heap w) h" unfolding h_def using m by (rule same_offsets_upd) simp
    ultimately show ?thesis
      using m False same_offsets_trans by (auto simp flip: h_def simp del: fun_upd_apply)
  qed
qed

lemma set_erase_all: "set (erase_all es m) \<subseteq> set m"
proof (induction es arbitrary: m)
  case Nil
  then show ?case by (simp add: erase_all_def)
next
  case (Cons e es)
  have "set (map_erase ll_lt (fst e) m) \<subseteq> set m" by (induction m) (auto split: if_splits)
  with Cons [of "map_erase ll_lt (fst e) m"] show ?case by (auto simp: erase_all_def)
qed

lemma in_erase_all:
  assumes "ll_wf m"
  shows "e \<in> set (erase_all es m) \<longleftrightarrow> e \<in> set m \<and> fst e \<notin> keys_of es"
proof
  assume e: "e \<in> set (erase_all es m)"
  then have "fst e \<in> keys_of (erase_all es m)" by (simp add: keys_of_def)
  with e show "e \<in> set m \<and> fst e \<notin> keys_of es"
    using set_erase_all keys_erase_all [OF assms] by blast
next
  assume e: "e \<in> set m \<and> fst e \<notin> keys_of es"
  then have "fst e \<in> keys_of (erase_all es m)"
    using keys_erase_all [OF assms] by (auto simp: keys_of_def)
  then obtain d where d: "d \<in> set (erase_all es m)" "fst d = fst e" by (auto simp: keys_of_def)
  moreover have "d \<in> set m" using d set_erase_all by blast
  ultimately show "e \<in> set (erase_all es m)"
    using e ll.wf_distinct [OF assms] eq_key_imp_eq_value [of m "fst e" "snd d" "snd e"]
    by (metis prod.collapse)
qed

text \<open>Removing a batch that lies in the tree: it does not fail, leaves the rest of the tree live once
  the batch is deleted, and the offset it returns skips nothing that is left.\<close>

lemma removeMessage_batch:
  assumes "pq_wf pq" "list_all (entry_live h) (m_msgTreeMap pq)" "set es \<subseteq> set (m_msgTreeMap pq)"
  shows "\<exists>r pq'. removeMessage h (map snd es) pq = Some (r, pq') \<and>
    m_msgTreeMap pq' = erase_all es (m_msgTreeMap pq) \<and> m_msgTreeMapTemp pq' = m_msgTreeMapTemp pq \<and>
    (r \<ge> 0 \<longrightarrow> (\<forall>k \<in> pending pq'. r \<le> k))"
proof (cases "m_msgTreeMap pq = []")
  case True
  with assms(3) show ?thesis by (simp add: removeMessage_def erase_all_def)
next
  case False
  have "list_all (entry_live h) es" using assms(2,3) by (auto simp: list_all_iff)
  then have d: "deref_offsets h (map snd es) = Some es" by (rule entry_live_deref)
  then obtain r pq' where r: "removeMessage h (map snd es) pq = Some (r, pq')"
    by (cases "removeMessage h (map snd es) pq") (auto simp: removeMessage_def Let_def False split: if_splits)
  have "r \<ge> 0 \<longrightarrow> (\<forall>k \<in> pending pq'. r \<le> k)"
  proof -
    have wf: "ll_wf (m_msgTreeMap pq')" using removeMessage_wf(1) [OF assms(1) r] by (simp add: pq_wf_def)
    have "r = -1 \<or> m_msgTreeMap pq' = [] \<or> r = fst (hd (m_msgTreeMap pq'))"
      by (rule removeMessage_cases [OF r False]) presburger
    then show ?thesis using ll_wf_hd_least [OF wf] by (auto simp: pending_def)
  qed
  moreover have "m_msgTreeMap pq' = erase_all es (m_msgTreeMap pq) \<and> m_msgTreeMapTemp pq' = m_msgTreeMapTemp pq"
    by (rule removeMessage_cases [OF r False]) (simp add: d)
  ultimately show ?thesis using r by blast
qed

lemma erase_all_live:
  assumes "ll_wf m" "list_all (entry_live h) m" "set es \<subseteq> set m"
  shows "list_all (entry_live (delete_all (map snd es) h)) (erase_all es m)"
proof (rule live_delete)
  show "list_all (entry_live h) (es @ erase_all es m)"
    using assms in_erase_all [OF assms(1)] by (auto simp: list_all_iff)
  show "fst ` set es \<inter> fst ` set (erase_all es m) = {}"
    using keys_erase_all [OF assms(1), of es] by (auto simp: keys_of_def)
qed

section \<open>Claims\<close>

text \<open>How many messages of the batch the listener acknowledged.\<close>

definition ack_count :: "listener_run \<Rightarrow> nat \<Rightarrow> nat" where
  "ack_count lr n = (if lr_status lr = Some CONSUME_SUCCESS then min (nat (lr_ackIndex lr + 1)) n else 0)"

text \<open>The messages the broker refused to take back, which have to be consumed again here.\<close>

definition refused :: "MessageModel \<Rightarrow> (addr \<Rightarrow> bool) \<Rightarrow> listener_run \<Rightarrow> addr list \<Rightarrow> addr list" where
  "refused model sendBack lr msgs =
     (if model = CLUSTERING then filter (\<lambda>p. \<not> sendBack p) (drop (ack_count lr (length msgs)) msgs) else [])"

definition run_status :: "listener_run \<Rightarrow> ConsumeConcurrentlyStatus" where
  "run_status lr = (case lr_status lr of None \<Rightarrow> RECONSUME_LATER | Some st \<Rightarrow> st)"

lemma ack_status_drop:
  assumes "length msgs < 2147483648" "is_s32 (lr_ackIndex lr)" "msgs \<noteq> []"
    and "ack_status (run_status lr) (lr_ackIndex lr) (s32 (int (length msgs))) w = (i, v)"
  shows "drop (nat (s32 (i + 1))) msgs = drop (ack_count lr (length msgs)) msgs"
proof -
  have "s32 (int (length msgs)) = int (length msgs)" using assms(1) by (intro s32_id) auto
  with assms have i: "i = (if run_status lr = CONSUME_SUCCESS then
      if lr_ackIndex lr \<ge> int (length msgs) then int (length msgs) - 1 else lr_ackIndex lr else -1)"
    by (auto simp: ack_status_def Let_def split: ConsumeConcurrentlyStatus.splits)
  then have "is_s32 (i + 1)" using assms(1,2) by auto
  then have "s32 (i + 1) = i + 1" by (intro s32_id) auto
  with i assms(3) show ?thesis
    by (auto simp: ack_count_def run_status_def min_def nat_add_distrib split: option.splits if_splits)
qed

definition taken_back :: "MessageModel \<Rightarrow> (addr \<Rightarrow> bool) \<Rightarrow> listener_run \<Rightarrow> addr list \<Rightarrow> addr list" where
  "taken_back model sendBack lr msgs =
     (if model = CLUSTERING then filter sendBack (drop (ack_count lr (length msgs)) msgs) else [])"

lemma ack_status_frame:
  assumes "ack_status st i n w = (j, v)"
  shows "c_pq v = c_pq w" "c_heap v = c_heap w" "c_store v = c_store w" "c_later v = c_later w"
    "c_sent_back v = c_sent_back w"
  using assms by (auto simp: ack_status_def Let_def split: ConsumeConcurrentlyStatus.splits if_splits)

lemma filter_snd: "filter (\<lambda>p. p \<notin> S) (map snd es) = map snd (filter (\<lambda>e. snd e \<notin> S) es)"
  by (induction es) auto

text \<open>The part of \<open>processConsumeResult\<close> before \<open>removeMessage\<close>.\<close>

lemma dispatch_spec:
  assumes "\<forall>p \<in> set msgs. c_heap v p \<noteq> None" "rest = drop (ack_count lr (length msgs)) msgs"
  shows "\<exists>w'. dispatch_rest model sendBack rest msgs v = Some (filter (\<lambda>p. p \<notin> set (refused model sendBack lr msgs)) msgs, w') \<and>
    same_offsets (c_heap v) (c_heap w') \<and> c_pq w' = c_pq v \<and> c_store w' = c_store v \<and>
    c_sent_back w' = c_sent_back v @ taken_back model sendBack lr msgs \<and>
    c_later w' = c_later v @ (if refused model sendBack lr msgs = [] then [] else [refused model sendBack lr msgs])"
proof (cases model)
  case BROADCASTING
  then show ?thesis by (simp add: dispatch_rest_def refused_def taken_back_def)
next
  case CLUSTERING
  have "\<forall>p \<in> set rest. c_heap v p \<noteq> None" using assms by (auto dest: in_set_dropD)
  then obtain u where "send_back_loop sendBack rest v = Some (filter (\<lambda>p. \<not> sendBack p) rest, u)"
    "same_offsets (c_heap v) (c_heap u)" "c_pq u = c_pq v" "c_store u = c_store v"
    "c_later u = c_later v" "c_sent_back u = c_sent_back v @ filter sendBack rest"
    using send_back_loop_spec by blast
  moreover have "refused model sendBack lr msgs = filter (\<lambda>p. \<not> sendBack p) rest"
    "taken_back model sendBack lr msgs = filter sendBack rest"
    using CLUSTERING assms(2) by (simp_all add: refused_def taken_back_def)
  ultimately show ?thesis using CLUSTERING by (auto simp: dispatch_rest_def filter_empty_conv)
qed

text \<open>What a finished request leaves, in terms of the batch \<open>es\<close> and the state \<open>w\<close> it started in.\<close>

definition request_done ::
  "'s updater \<Rightarrow> MessageQueue \<Rightarrow> (int \<times> addr) list \<Rightarrow> addr list \<Rightarrow> addr list \<Rightarrow> 's concurrently \<Rightarrow> 's concurrently \<Rightarrow> bool" where
  "request_done upd mq es back failed w w' \<longleftrightarrow>
     c_sent_back w' = c_sent_back w @ back \<and>
     c_later w' = c_later w @ (if failed = [] then [] else [failed]) \<and>
     set (m_msgTreeMap (c_pq w')) = set (m_msgTreeMap (c_pq w)) - {e \<in> set es. snd e \<notin> set failed} \<and>
     (c_store w' = c_store w \<or>
        (\<exists>off. 0 \<le> off \<and> (\<forall>k \<in> pending (c_pq w'). off \<le> k) \<and> c_store w' = upd mq off True (c_store w)))"

lemma live_same_entry:
  assumes "ll_wf m" "set es \<subseteq> set m" "e \<in> set m"
  shows "fst e \<in> keys_of es \<longleftrightarrow> e \<in> set es"
proof
  assume "fst e \<in> keys_of es"
  then obtain d where d: "d \<in> set es" "fst d = fst e" by (auto simp: keys_of_def)
  then have "d = e"
    using assms ll.wf_distinct [OF assms(1)] eq_key_imp_eq_value [of m "fst e" "snd d" "snd e"]
    by (metis prod.collapse subsetD)
  with d show "e \<in> set es" by simp
qed (auto simp: keys_of_def)

lemma processConsumeResult_spec:
  fixes upd :: "'s updater" and sendBack :: "addr \<Rightarrow> bool" and model :: MessageModel
  assumes wf: "pq_wf (c_pq w)" and live: "list_all (entry_live (c_heap w)) (m_msgTreeMap (c_pq w))"
    and sub: "set es \<subseteq> set (m_msgTreeMap (c_pq w))"
    and "es \<noteq> []" "length es < 2147483648" "is_s32 (lr_ackIndex lr)"
  defines "failed \<equiv> refused model sendBack lr (map snd es)"
  defines "kept \<equiv> filter (\<lambda>e. snd e \<notin> set failed) es"
  shows "\<exists>w'. conc_processConsumeResult upd model sendBack mq (run_status lr) (lr_ackIndex lr) (map snd es) w
      = Some (map snd kept, w') \<and>
    request_done upd mq es (taken_back model sendBack lr (map snd es)) failed w w' \<and>
    m_msgTreeMap (c_pq w') = erase_all kept (m_msgTreeMap (c_pq w)) \<and>
    m_msgTreeMapTemp (c_pq w') = m_msgTreeMapTemp (c_pq w) \<and> same_offsets (c_heap w) (c_heap w')"
proof -
  let ?msgs = "map snd es" and ?t = "m_msgTreeMap (c_pq w)"
  obtain i v where a: "ack_status (run_status lr) (lr_ackIndex lr) (s32 (int (length ?msgs))) w = (i, v)"
    by fastforce
  note fr = ack_status_frame [OF a]
  have "list_all (entry_live (c_heap w)) es" using live sub by (auto simp: list_all_iff)
  then have nn: "\<forall>p \<in> set ?msgs. c_heap v p \<noteq> None"
    by (auto simp: fr list_all_iff entry_live_def split: option.splits)
  have dr: "drop (nat (s32 (i + 1))) ?msgs = drop (ack_count lr (length ?msgs)) ?msgs"
    using ack_status_drop [OF _ assms(6) _ a] assms(4,5) by simp
  obtain u where u: "dispatch_rest model sendBack (drop (nat (s32 (i + 1))) ?msgs) ?msgs v = Some (map snd kept, u)"
    "same_offsets (c_heap w) (c_heap u)" "c_pq u = c_pq w" "c_store u = c_store w"
    "c_sent_back u = c_sent_back w @ taken_back model sendBack lr ?msgs"
    "c_later u = c_later w @ (if failed = [] then [] else [failed])"
    using dispatch_spec [OF nn dr, of model sendBack]
    unfolding fr filter_snd failed_def [symmetric] kept_def [symmetric] by (elim exE conjE) rule
  have ks: "set kept \<subseteq> set ?t" using sub by (auto simp: kept_def)
  have "list_all (entry_live (c_heap u)) (m_msgTreeMap (c_pq u))"
    using live same_offsets_live [OF u(2)] by (simp add: u(3) list_all_iff)
  then obtain r pq where r: "removeMessage (c_heap u) (map snd kept) (c_pq u) = Some (r, pq)"
    "m_msgTreeMap pq = erase_all kept ?t" "m_msgTreeMapTemp pq = m_msgTreeMapTemp (c_pq w)"
    "r \<ge> 0 \<longrightarrow> (\<forall>k \<in> pending pq. r \<le> k)"
    using removeMessage_batch [of "c_pq u" "c_heap u" kept] wf ks by (auto simp: u(3))
  have lw: "ll_wf ?t" using wf by (simp add: pq_wf_def)
  have "set (erase_all kept ?t) = set ?t - {e \<in> set es. snd e \<notin> set failed}"
    using in_erase_all [OF lw, of _ kept] live_same_entry [OF lw ks]
    by (auto simp: kept_def)
  then show ?thesis
    using assms(4) a u r
    by (cases "r \<ge> 0") (auto simp: conc_processConsumeResult_def Let_def request_done_def)
qed

lemma run_status_cases: "(case lr_status lr of None \<Rightarrow> RECONSUME_LATER | Some st \<Rightarrow> st) = run_status lr"
  by (simp add: run_status_def)

lemma request_done_cong:
  assumes "request_done upd mq es back failed v w" "c_pq v = c_pq u" "c_store v = c_store u"
    and "c_later v = c_later u" "c_sent_back v = c_sent_back u"
  shows "request_done upd mq es back failed u (conc_delete ps w)"
  using assms by (simp add: request_done_def conc_delete_def)

lemma Do_spec:
  assumes "pq_wf (c_pq w)" "pq_live (c_heap w) (c_pq w)" "m_msgTreeMapTemp (c_pq w) = []" "\<not> m_droped (c_pq w)"
    and "es \<noteq> []" "set es \<subseteq> set (m_msgTreeMap (c_pq w))" "length es < 2147483648" "is_s32 (lr_ackIndex lr)"
  shows "\<exists>w'. ConsumeConcurrentlyRequest_Do upd model consumerGroup sendBack mq lr (map snd es) w = Some w' \<and>
    request_done upd mq es (taken_back model sendBack lr (map snd es)) (refused model sendBack lr (map snd es)) w w' \<and>
    pq_live (c_heap w') (c_pq w') \<and>
    (\<forall>e \<in> set es. c_heap w' (snd e) \<noteq> None \<longleftrightarrow> snd e \<in> set (refused model sendBack lr (map snd es)))"
proof -
  let ?t = "m_msgTreeMap (c_pq w)"
  define kept where "kept = filter (\<lambda>e. snd e \<notin> set (refused model sendBack lr (map snd es))) es"
  have live: "list_all (entry_live (c_heap w)) ?t" using assms(2,3) by (simp add: pq_live_iff)
  have el: "list_all (entry_live (c_heap w)) es" using live assms(6) by (auto simp: list_all_iff)
  then have "\<forall>p \<in> set (map snd es). c_heap w p \<noteq> None"
    by (auto simp: list_all_iff entry_live_def split: option.splits)
  then obtain h where h: "resetRetryTopic (getRetryTopic consumerGroup) (map snd es) (c_heap w) = Some h"
    "same_offsets (c_heap w) h" using resetRetryTopic_live by blast
  define v where "v = cstat_rt (lr_consumeRT lr) (w\<lparr>c_heap := h\<rparr>)"
  have v: "c_pq v = c_pq w" "c_heap v = h" "c_store v = c_store w" "c_later v = c_later w" "c_sent_back v = c_sent_back w"
    by (simp_all add: v_def)
  have lv: "list_all (entry_live (c_heap v)) (m_msgTreeMap (c_pq v))"
    using live same_offsets_live [OF h(2)] by (simp add: v list_all_iff)
  obtain w' where p: "conc_processConsumeResult upd model sendBack mq (run_status lr) (lr_ackIndex lr) (map snd es) v
      = Some (map snd kept, w')"
    and d: "request_done upd mq es (taken_back model sendBack lr (map snd es)) (refused model sendBack lr (map snd es)) v w'"
    and t: "m_msgTreeMap (c_pq w') = erase_all kept ?t" "m_msgTreeMapTemp (c_pq w') = []"
    and so: "same_offsets (c_heap v) (c_heap w')"
    using processConsumeResult_spec [of v es lr upd model sendBack mq] lv assms
    unfolding kept_def [symmetric] v by auto
  have lw': "list_all (entry_live (c_heap w')) ?t"
    using lv same_offsets_live [OF so] by (simp add: v list_all_iff)
  have ks: "set kept \<subseteq> set ?t" using assms(6) by (auto simp: kept_def)
  have "list_all (entry_live (delete_all (map snd kept) (c_heap w'))) (erase_all kept ?t)"
    using erase_all_live [OF _ lw' ks] assms(1) by (simp add: pq_wf_def)
  then have "pq_live (delete_all (map snd kept) (c_heap w')) (c_pq w')" by (simp add: pq_live_iff t)
  moreover have "\<forall>e \<in> set es. delete_all (map snd kept) (c_heap w') (snd e) \<noteq> None \<longleftrightarrow>
      snd e \<in> set (refused model sendBack lr (map snd es))"
    using lw' assms(6) by (auto simp: delete_all_def kept_def list_all_iff entry_live_def split: option.splits)
  moreover have "ConsumeConcurrentlyRequest_Do upd model consumerGroup sendBack mq lr (map snd es) w
      = Some (conc_delete (map snd kept) w')"
    using assms(4) h(1) p by (simp add: ConsumeConcurrentlyRequest_Do_def Let_def run_status_cases v_def)
  ultimately show ?thesis
    using request_done_cong [OF d v(1,3,4,5)] by (auto simp: conc_delete_def)
qed

text \<open>
  C2. No message is lost by the concurrent consumer when clustering, whatever the listener and the broker do. For a
  batch of messages that wait in a queue which is not dropped and which no other thread changes meanwhile, \<open>Do\<close> ends without touching freed memory. Every message of the batch
  is acknowledged by the listener, or taken back by the broker, or still waiting in the queue, live, and handed to the
  retry timer; the messages that wait on are exactly those behind the acknowledge index that the broker refused; everything else of the batch leaves the
  queue and is freed; all messages still waiting are live; and the offset that is stored, if one is, lies above none of them. (When
  broadcasting, the source drops failed messages on purpose, and when the queue was dropped \<open>Do\<close> only releases the batch.)
\<close>

theorem concurrently_no_loss:
  assumes "pq_wf (c_pq w)" "pq_live (c_heap w) (c_pq w)" "m_msgTreeMapTemp (c_pq w) = []" "\<not> m_droped (c_pq w)"
    and "es \<noteq> []" "set es \<subseteq> set (m_msgTreeMap (c_pq w))" "length es < 2147483648" "is_s32 (lr_ackIndex lr)"
  shows "\<exists>w'. ConsumeConcurrentlyRequest_Do upd CLUSTERING consumerGroup sendBack mq lr (map snd es) w = Some w' \<and>
    request_done upd mq es (taken_back CLUSTERING sendBack lr (map snd es)) (refused CLUSTERING sendBack lr (map snd es)) w w' \<and>
    pq_live (c_heap w') (c_pq w') \<and>
    (\<forall>e \<in> set es. c_heap w' (snd e) \<noteq> None \<longleftrightarrow> snd e \<in> set (refused CLUSTERING sendBack lr (map snd es))) \<and>
    (\<forall>i < length es. i < ack_count lr (length es) \<or> snd (es ! i) \<in> set (c_sent_back w') \<or>
       (es ! i \<in> set (m_msgTreeMap (c_pq w')) \<and> c_heap w' (snd (es ! i)) \<noteq> None \<and> snd (es ! i) \<in> set (concat (c_later w'))))"
proof -
  let ?n = "ack_count lr (length es)" and ?ref = "refused CLUSTERING sendBack lr (map snd es)"
  obtain w' where w': "ConsumeConcurrentlyRequest_Do upd CLUSTERING consumerGroup sendBack mq lr (map snd es) w = Some w'"
    "request_done upd mq es (taken_back CLUSTERING sendBack lr (map snd es)) ?ref w w'" "pq_live (c_heap w') (c_pq w')"
    "\<forall>e \<in> set es. c_heap w' (snd e) \<noteq> None \<longleftrightarrow> snd e \<in> set ?ref"
    using Do_spec [OF assms, of upd CLUSTERING consumerGroup sendBack mq] by blast
  have "snd (es ! i) \<in> set (c_sent_back w') \<or>
      (es ! i \<in> set (m_msgTreeMap (c_pq w')) \<and> c_heap w' (snd (es ! i)) \<noteq> None \<and> snd (es ! i) \<in> set (concat (c_later w')))"
    if i: "i < length es" "\<not> i < ?n" for i
  proof -
    have m: "es ! i \<in> set es" using i(1) by simp
    have "drop ?n (map snd es) ! (i - ?n) = snd (es ! i)" "i - ?n < length (drop ?n (map snd es))" using i by auto
    then have d: "snd (es ! i) \<in> set (drop ?n (map snd es))" by (metis nth_mem)
    show ?thesis
    proof (cases "sendBack (snd (es ! i))")
      case True
      with d have "snd (es ! i) \<in> set (taken_back CLUSTERING sendBack lr (map snd es))" by (simp add: taken_back_def)
      then show ?thesis using w'(2) by (auto simp: request_done_def)
    next
      case False
      with d have f: "snd (es ! i) \<in> set ?ref" by (simp add: refused_def)
      then have "es ! i \<in> set (m_msgTreeMap (c_pq w'))" "snd (es ! i) \<in> set (concat (c_later w'))"
        using w'(2) m assms(6) by (auto simp: request_done_def)
      then show ?thesis using w'(4) m f by blast
    qed
  qed
  with w' show ?thesis by blast
qed

definition sample_conc :: "RemoteStore concurrently" where
  "sample_conc = \<lparr>c_pq = sample_queue, c_heap = sample_heap, c_store = sample_remote, c_stat = sample_stat,
     c_later = [], c_sent_back = []\<rparr>"

theorem concurrently_no_loss_witness:
  "\<exists>w'. ConsumeConcurrentlyRequest_Do remote_updateOffset CLUSTERING ''g'' (\<lambda>p. p = 3) (sample_mq 0)
       \<lparr>lr_status = Some CONSUME_SUCCESS, lr_ackIndex = 0, lr_consumeRT = 4\<rparr> [1, 2, 3] sample_conc = Some w' \<and>
     c_later w' = [[2]] \<and> c_sent_back w' = [3] \<and> set (m_msgTreeMap (c_pq w')) = {(8, 2)}"
  using concurrently_no_loss [of sample_conc "[(7, 1), (8, 2), (9, 3)]"
      "\<lparr>lr_status = Some CONSUME_SUCCESS, lr_ackIndex = 0, lr_consumeRT = 4\<rparr>" remote_updateOffset "''g''"
      "\<lambda>p. p = 3" "sample_mq 0"] sample_queue_wf
  by (auto simp: sample_conc_def sample_defs pq_live_iff entry_live_def request_done_def taken_back_def refused_def
      ack_count_def numeral_2_eq_2)

text \<open>
  C34. \<open>submitConsumeRequest\<close> splits a pulled list into requests that keep the order and every message,
  each non-empty and of at most \<open>consumeMessageBatchMaxSize\<close> messages, and empties the caller's list;
  a batch size of 0 and a non-empty list never return.
\<close>

theorem submitConsumeRequest_chunks:
  shows "(1 \<le> n \<and> n < 2147483648 \<longrightarrow>
      (\<exists>reqs. conc_submitConsumeRequest n msgs = Some (reqs, []) \<and> concat reqs = msgs \<and>
         (\<forall>q \<in> set reqs. q \<noteq> [] \<and> int (length q) \<le> n))) \<and>
    (msgs \<noteq> [] \<longrightarrow> conc_submitConsumeRequest 0 msgs = None)"
proof (intro conjI impI)
  assume n: "1 \<le> n \<and> n < 2147483648"
  then have "size_t n = nat n" by (simp add: size_t_def u64_id)
  moreover obtain reqs where "submit_chunks (nat n) msgs = Some reqs" "concat reqs = msgs"
    "\<forall>q \<in> set reqs. q \<noteq> [] \<and> length q \<le> nat n" using submit_chunks_Some [of "nat n" msgs] n by (auto simp: Suc_le_eq)
  ultimately show "\<exists>reqs. conc_submitConsumeRequest n msgs = Some (reqs, []) \<and> concat reqs = msgs \<and>
         (\<forall>q \<in> set reqs. q \<noteq> [] \<and> int (length q) \<le> n)"
    using n by (auto simp: conc_submitConsumeRequest_def nat_le_iff le_nat_iff)
next
  assume "msgs \<noteq> []"
  then have "submit_chunks 0 msgs = None" by (rule submit_chunks_zero)
  then show "conc_submitConsumeRequest 0 msgs = None"
    by (simp add: conc_submitConsumeRequest_def size_t_def u64_id)
qed

theorem submitConsumeRequest_chunks_witness:
  "\<exists>reqs. conc_submitConsumeRequest 2 [5, 6, 7] = Some (reqs, []) \<and> concat reqs = [5, 6, 7] \<and>
     (\<forall>q \<in> set reqs. q \<noteq> [] \<and> int (length q) \<le> 2)"
  using submitConsumeRequest_chunks [of 2 "[5, 6, 7]"] by simp

end
