(* ===== verification/Rebalance.thy ===== *)
theory Rebalance
  imports Allocate Subscription Consume_Concurrently
begin

text \<open>
  \<open>RebalanceImpl\<close> (\<open>src/src/consumer/RebalanceImpl.cpp\<close>) with its subclasses \<open>RebalancePushImpl\<close> and
  \<open>RebalancePullImpl\<close>: which queues this consumer works on, and where it starts.

  Process queues are addressed by pointer: \<open>w_pqs\<close> maps the live addresses to objects, \<open>new\<close> takes the
  next address, \<open>delete\<close> removes one, and an operation that follows a dangling pointer is undefined
  behaviour (\<open>None\<close>, or \<open>UB\<close>). The virtual methods are dispatched on \<open>rb_kind\<close>. The offset store is
  reached through its virtual methods, the record \<open>store_ops\<close>; brokers, name server and clock through
  \<open>rb_env\<close>. What leaves the class is collected in the state: the pull requests handed to the pull
  service, the queues unlocked at their brokers, and the listener calls.
\<close>

datatype ConsumeFromWhere = CONSUME_FROM_LAST_OFFSET | CONSUME_FROM_FIRST_OFFSET | CONSUME_FROM_TIMESTAMP

datatype rb_kind = Push | Pull

record PullRequest =
  pr_consumerGroup :: string
  pr_messageQueue :: MessageQueue
  pr_processQueue :: nat
  pr_nextOffset :: int

record 's store_ops =
  so_readOffset :: "MessageQueue \<Rightarrow> ReadOffsetType \<Rightarrow> 's \<Rightarrow> int \<times> 's"
  so_persist :: "MessageQueue \<Rightarrow> 's \<Rightarrow> 's"
  so_removeOffset :: "MessageQueue \<Rightarrow> 's \<Rightarrow> 's"

record 's rb_env =
  e_kind :: rb_kind
  e_store :: "'s store_ops"
  e_consumeFromWhere :: ConsumeFromWhere
  e_consumeOrderly :: bool
  e_timestamp :: int
  e_hasListener :: bool
  e_clientId :: string
  e_allocate :: "string \<Rightarrow> MessageQueue list \<Rightarrow> string list \<Rightarrow> MessageQueue alloc_result"
  e_brokerAddr :: "string \<Rightarrow> string"
  e_masterAddr :: "string \<Rightarrow> string \<Rightarrow> string"
  e_consumerIds :: "string \<Rightarrow> string \<Rightarrow> string list"
  e_lockBatch :: "string \<Rightarrow> MessageQueue list \<Rightarrow> mq_exception + MessageQueue list"
  e_unlockBatch :: "string \<Rightarrow> MessageQueue list \<Rightarrow> mq_exception option"
  e_maxOffset :: "MessageQueue \<Rightarrow> mq_exception + int"
  e_searchOffset :: "MessageQueue \<Rightarrow> int \<Rightarrow> mq_exception + int"
  e_now :: "MessageQueue \<Rightarrow> int"

record 's rebalance =
  m_processQueueTable :: "(MessageQueue, nat) smap"
  m_brokerMaster :: "(string, string) smap"
  m_downBrokerName :: "string list"
  m_topicSubscribeInfoTable :: "(string, MessageQueue list) smap"
  m_subscriptionInner :: "(string, SubscriptionData) smap"
  m_consumerGroup :: string
  m_messageModel :: MessageModel
  w_pqs :: "nat \<Rightarrow> ProcessQueue option"
  w_next :: nat
  w_store :: 's
  w_dispatched :: "PullRequest list"
  w_unlocked :: "(string \<times> MessageQueue list) list"
  w_changed :: "(string \<times> MessageQueue list \<times> MessageQueue list) list"

section \<open>Subscriptions\<close>

definition rb_subscribe :: "string \<Rightarrow> SubscriptionData \<Rightarrow> 's rebalance \<Rightarrow> 's rebalance" where
  "rb_subscribe topic subData w = w\<lparr>m_subscriptionInner := map_put str_lt topic subData (m_subscriptionInner w)\<rparr>"

definition rb_unsubscribe :: "string \<Rightarrow> 's rebalance \<Rightarrow> 's rebalance" where
  "rb_unsubscribe topic w = w\<lparr>m_subscriptionInner := map_erase str_lt topic (m_subscriptionInner w)\<rparr>"

definition hasSubscribe :: "string \<Rightarrow> 's rebalance \<Rightarrow> bool \<times> SubscriptionData option" where
  \<comment> \<open>the flag, and what is copied to \<open>psubData\<close>\<close>
  "hasSubscribe topic w =
     (case map_find str_lt topic (m_subscriptionInner w) of None \<Rightarrow> (False, None) | Some sd \<Rightarrow> (True, Some sd))"

section \<open>Locks at the broker\<close>

definition upd_pq :: "nat \<Rightarrow> (ProcessQueue \<Rightarrow> ProcessQueue) \<Rightarrow> 's rebalance \<Rightarrow> 's rebalance option" where
  \<comment> \<open>a method call through a process queue pointer\<close>
  "upd_pq p f w = (case w_pqs w p of None \<Rightarrow> None | Some pq \<Rightarrow> Some (w\<lparr>w_pqs := (w_pqs w)(p \<mapsto> f pq)\<rparr>))"

definition rb_unlock :: "'s rb_env \<Rightarrow> MessageQueue \<Rightarrow> 's rebalance \<Rightarrow> 's rebalance" where
  "rb_unlock env mq w =
     (let addr = e_brokerAddr env (m_brokerName mq) in
      if addr \<noteq> [] then w\<lparr>w_unlocked := w_unlocked w @ [(addr, [mq])]\<rparr> else w)"

fun build_by_broker :: "(MessageQueue, nat) smap \<Rightarrow> (string, MessageQueue list) smap \<Rightarrow> (string, MessageQueue list) smap" where
  "build_by_broker [] result = result"
| "build_by_broker ((mq, _) # rest) result =
     build_by_broker rest
       (case map_find str_lt (m_brokerName mq) result of
          None \<Rightarrow> map_put str_lt (m_brokerName mq) [mq] result
        | Some mqs \<Rightarrow> map_put str_lt (m_brokerName mq) (set_put mq_lt mq mqs) result)"

definition buildProcessQueueTableByBrokerName :: "'s rebalance \<Rightarrow> (string, MessageQueue list) smap" where
  "buildProcessQueueTableByBrokerName w = build_by_broker (m_processQueueTable w) []"

fun set_unlocked :: "MessageQueue list \<Rightarrow> 's rebalance \<Rightarrow> 's rebalance option" where
  "set_unlocked [] w = Some w"
| "set_unlocked (mq # mqs) w =
     (case map_find mq_lt mq (m_processQueueTable w) of
        None \<Rightarrow> set_unlocked mqs w
      | Some p \<Rightarrow> Option.bind (upd_pq p (setLocked False) w) (set_unlocked mqs))"

fun unlock_brokers :: "'s rb_env \<Rightarrow> (string, MessageQueue list) smap \<Rightarrow> 's rebalance \<Rightarrow> 's rebalance option" where
  "unlock_brokers env [] w = Some w"
| "unlock_brokers env ((brokerName, mqs) # rest) w =
     (if mqs = [] then unlock_brokers env rest w
      else let addr = e_brokerAddr env brokerName in
        if addr \<noteq> []
        then let w = w\<lparr>w_unlocked := w_unlocked w @ [(addr, mqs)]\<rparr> in
             (case e_unlockBatch env addr mqs of
                Some _ \<Rightarrow> unlock_brokers env rest w
              | None \<Rightarrow> Option.bind (set_unlocked mqs w) (unlock_brokers env rest))
        else unlock_brokers env rest w)"

definition rb_unlockAll :: "'s rb_env \<Rightarrow> 's rebalance \<Rightarrow> 's rebalance option" where
  "rb_unlockAll env w = unlock_brokers env (buildProcessQueueTableByBrokerName w) w"

fun set_locked :: "'s rb_env \<Rightarrow> MessageQueue list \<Rightarrow> 's rebalance \<Rightarrow> 's rebalance option" where
  "set_locked env [] w = Some w"
| "set_locked env (mq # mqs) w =
     (case map_find mq_lt mq (m_processQueueTable w) of
        None \<Rightarrow> set_locked env mqs w
      | Some p \<Rightarrow>
          Option.bind (upd_pq p (\<lambda>pq. setLastLockTimestamp (e_now env mq) (setLocked True pq)) w) (set_locked env mqs))"

definition rb_lock :: "'s rb_env \<Rightarrow> MessageQueue \<Rightarrow> 's rebalance \<Rightarrow> (bool \<times> 's rebalance) option" where
  "rb_lock env mq w =
     (let addr = e_brokerAddr env (m_brokerName mq) in
      if addr \<noteq> []
      then (case e_lockBatch env addr [mq] of
              Inl _ \<Rightarrow> Some (False, w)
            | Inr lockedMq \<Rightarrow>
                (case set_locked env lockedMq w of None \<Rightarrow> None
                 | Some w \<Rightarrow> Some (if set_has mq_lt mq lockedMq then True else False, w)))
      else Some (False, w))"

fun set_lock_failed :: "MessageQueue list \<Rightarrow> MessageQueue list \<Rightarrow> 's rebalance \<Rightarrow> 's rebalance option" where
  "set_lock_failed lockOK [] w = Some w"
| "set_lock_failed lockOK (mq # mqs) w =
     (if \<not> set_has mq_lt mq lockOK
      then (case map_find mq_lt mq (m_processQueueTable w) of
              None \<Rightarrow> set_lock_failed lockOK mqs w
            | Some p \<Rightarrow> Option.bind (upd_pq p (setLocked False) w) (set_lock_failed lockOK mqs))
      else set_lock_failed lockOK mqs w)"

fun lock_brokers :: "'s rb_env \<Rightarrow> (string, MessageQueue list) smap \<Rightarrow> 's rebalance \<Rightarrow> 's rebalance option" where
  "lock_brokers env [] w = Some w"
| "lock_brokers env ((brokerName, mqs) # rest) w =
     (if mqs = [] then lock_brokers env rest w
      else let addr = e_brokerAddr env brokerName in
        if addr \<noteq> []
        then (case e_lockBatch env addr mqs of
                Inl _ \<Rightarrow> lock_brokers env rest w
              | Inr lockOK \<Rightarrow>
                  Option.bind (Option.bind (set_locked env lockOK w) (set_lock_failed lockOK mqs)) (lock_brokers env rest))
        else lock_brokers env rest w)"

definition rb_lockAll :: "'s rb_env \<Rightarrow> 's rebalance \<Rightarrow> 's rebalance option" where
  "rb_lockAll env w = lock_brokers env (buildProcessQueueTableByBrokerName w) w"

section \<open>The virtual methods\<close>

definition catch_client :: "mq_exception + int \<Rightarrow> mq_exception + int" where
  \<comment> \<open>\<open>catch (MQClientException& e) { result = -1; }\<close>\<close>
  "catch_client r = (case r of Inl (MQClientException _ _) \<Rightarrow> Inr (-1) | _ \<Rightarrow> r)"

definition is_retry_topic :: "MessageQueue \<Rightarrow> bool" where
  "is_retry_topic mq \<longleftrightarrow> starts_with RETRY_GROUP_TOPIC_PREFIX (m_topic mq)"

definition push_computePullFromWhere :: "'s rb_env \<Rightarrow> MessageQueue \<Rightarrow> 's \<Rightarrow> (mq_exception + int) \<times> 's" where
  "push_computePullFromWhere env mq st =
     (let (lastOffset, st) = so_readOffset (e_store env) mq READ_FROM_STORE st in
      (case e_consumeFromWhere env of
         CONSUME_FROM_LAST_OFFSET \<Rightarrow>
           if lastOffset \<ge> 0 then Inr lastOffset
           else if lastOffset = -1 then
             (if is_retry_topic mq then Inr 0 else catch_client (e_maxOffset env mq))
           else Inr (-1)
       | CONSUME_FROM_FIRST_OFFSET \<Rightarrow>
           if lastOffset \<ge> 0 then Inr lastOffset else if lastOffset = -1 then Inr 0 else Inr (-1)
       | CONSUME_FROM_TIMESTAMP \<Rightarrow>
           if lastOffset \<ge> 0 then Inr lastOffset
           else if lastOffset = -1 then
             (if is_retry_topic mq then catch_client (e_maxOffset env mq)
              else catch_client (e_searchOffset env mq (e_timestamp env)))
           else Inr (-1),
       st))"

definition computePullFromWhere :: "'s rb_env \<Rightarrow> MessageQueue \<Rightarrow> 's \<Rightarrow> (mq_exception + int) \<times> 's" where
  "computePullFromWhere env mq st =
     (case e_kind env of Push \<Rightarrow> push_computePullFromWhere env mq st | Pull \<Rightarrow> (Inr 0, st))"

definition removeUnnecessaryMessageQueue :: "'s rb_env \<Rightarrow> MessageQueue \<Rightarrow> 's rebalance \<Rightarrow> 's rebalance" where
  "removeUnnecessaryMessageQueue env mq w =
     (let w = w\<lparr>w_store := so_persist (e_store env) mq (w_store w)\<rparr>;
          w = w\<lparr>w_store := so_removeOffset (e_store env) mq (w_store w)\<rparr>
      in case e_kind env of
           Push \<Rightarrow> if e_consumeOrderly env then rb_unlock env mq w else w
         | Pull \<Rightarrow> w)"

text \<open>\<open>delete pullRequest\<close> runs \<open>~PullRequest\<close>, which deletes the process queue too.\<close>

definition delete_request :: "PullRequest \<Rightarrow> 's rebalance \<Rightarrow> 's rebalance" where
  "delete_request r w = w\<lparr>w_pqs := (w_pqs w)(pr_processQueue r := None)\<rparr>"

definition dispatchPullRequest :: "'s rb_env \<Rightarrow> PullRequest list \<Rightarrow> 's rebalance \<Rightarrow> 's rebalance" where
  "dispatchPullRequest env rs w =
     (case e_kind env of
        Push \<Rightarrow> w\<lparr>w_dispatched := w_dispatched w @ rs\<rparr>
      | Pull \<Rightarrow> fold delete_request rs w)"

definition messageQueueChanged :: "'s rb_env \<Rightarrow> string \<Rightarrow> MessageQueue list \<Rightarrow> MessageQueue list \<Rightarrow> 's rebalance \<Rightarrow> 's rebalance" where
  "messageQueueChanged env topic mqAll mqDivided w =
     (case e_kind env of
        Push \<Rightarrow> w
      | Pull \<Rightarrow> if e_hasListener env then w\<lparr>w_changed := w_changed w @ [(topic, mqAll, mqDivided)]\<rparr> else w)"

section \<open>Updating the process queue table\<close>

text \<open>\<open>pq->setDroped(true); removeUnnecessaryMessageQueue(mq, *pq); m_processQueueTable.erase(it++)\<close>\<close>

definition drop_queue :: "'s rb_env \<Rightarrow> MessageQueue \<Rightarrow> nat \<Rightarrow> 's rebalance \<Rightarrow> 's rebalance option" where
  "drop_queue env mq p w =
     (case upd_pq p (setDroped True) w of None \<Rightarrow> None
      | Some w \<Rightarrow>
          let w = removeUnnecessaryMessageQueue env mq w in
          Some (w\<lparr>m_processQueueTable := map_erase mq_lt mq (m_processQueueTable w)\<rparr>))"

text \<open>The test on a queue that stays assigned: the new list of brokers whose master changed, and
  whether the queue has to be fetched again from the new master.\<close>

definition master_check :: "'s rb_env \<Rightarrow> MessageQueue \<Rightarrow> 's rebalance \<Rightarrow> bool \<times> 's rebalance" where
  "master_check env mq w =
     (let masterAddr = e_masterAddr env (m_topic mq) (m_brokerName mq) in
      case map_find str_lt (m_brokerName mq) (m_brokerMaster w) of
        None \<Rightarrow> (False, w)
      | Some old \<Rightarrow>
          let w = (if old \<noteq> masterAddr \<and> m_brokerName mq \<notin> set (m_downBrokerName w)
                   then w\<lparr>m_downBrokerName := m_downBrokerName w @ [m_brokerName mq]\<rparr> else w)
          in (m_brokerName mq \<in> set (m_downBrokerName w), w))"

fun remove_loop :: "'s rb_env \<Rightarrow> string \<Rightarrow> MessageQueue list \<Rightarrow> (MessageQueue, nat) smap \<Rightarrow> bool \<Rightarrow> 's rebalance
    \<Rightarrow> (bool \<times> 's rebalance) option" where
  "remove_loop env topic mqSet [] changed w = Some (changed, w)"
| "remove_loop env topic mqSet ((mq, p) # rest) changed w =
     (if m_topic mq = topic then
        if \<not> set_has mq_lt mq mqSet
        then Option.bind (drop_queue env mq p w) (remove_loop env topic mqSet rest True)
        else (let (down, w) = master_check env mq w in
              if down then Option.bind (drop_queue env mq p w) (remove_loop env topic mqSet rest True)
              else remove_loop env topic mqSet rest changed w)
      else remove_loop env topic mqSet rest changed w)"

definition new_request :: "'s rb_env \<Rightarrow> MessageQueue \<Rightarrow> 's rebalance \<Rightarrow> PullRequest \<times> 's rebalance" where
  "new_request env mq w =
     (\<lparr>pr_consumerGroup = m_consumerGroup w,
       pr_messageQueue = mq_make (m_topic mq) (m_brokerName mq) (m_queueId mq),
       pr_processQueue = w_next w, pr_nextOffset = 0\<rparr>,
      w\<lparr>w_pqs := (w_pqs w)(w_next w \<mapsto> ProcessQueue_new (e_now env mq)), w_next := Suc (w_next w)\<rparr>)"

definition note_master :: "'s rb_env \<Rightarrow> MessageQueue \<Rightarrow> 's rebalance \<Rightarrow> 's rebalance" where
  "note_master env mq w =
     (let masterAddr = e_masterAddr env (m_topic mq) (m_brokerName mq) in
      if masterAddr \<noteq> [] then w\<lparr>m_brokerMaster := map_put str_lt (m_brokerName mq) masterAddr (m_brokerMaster w)\<rparr> else w)"

text \<open>The loop that adds queues. An exception out of \<open>computePullFromWhere\<close> leaves it at once.\<close>

fun add_loop :: "'s rb_env \<Rightarrow> MessageQueue list \<Rightarrow> PullRequest list \<Rightarrow> bool \<Rightarrow> 's rebalance
    \<Rightarrow> mq_exception option \<times> PullRequest list \<times> bool \<times> 's rebalance" where
  "add_loop env [] rs changed w = (None, rs, changed, w)"
| "add_loop env (mq # mqs) rs changed w =
     (case map_find mq_lt mq (m_processQueueTable w) of
        Some _ \<Rightarrow> add_loop env mqs rs changed w
      | None \<Rightarrow>
          (let (r, w) = new_request env mq w;
               (nextOffset, st) = computePullFromWhere env mq (w_store w);
               w = w\<lparr>w_store := st\<rparr>
           in case nextOffset of
                Inl e \<Rightarrow> (Some e, rs, changed, w)
              | Inr off \<Rightarrow>
                  if off \<ge> 0
                  then let r = r\<lparr>pr_nextOffset := off\<rparr>;
                           w = w\<lparr>m_processQueueTable := map_put mq_lt mq (pr_processQueue r) (m_processQueueTable w)\<rparr>
                       in add_loop env mqs (rs @ [r]) True (note_master env mq w)
                  else add_loop env mqs rs changed (delete_request r w)))"

datatype 'a outcome = Ret 'a | Threw mq_exception 'a | UB

definition updateProcessQueueTableInRebalance ::
  "'s rb_env \<Rightarrow> string \<Rightarrow> MessageQueue list \<Rightarrow> 's rebalance \<Rightarrow> (bool \<times> 's rebalance) outcome" where
  "updateProcessQueueTableInRebalance env topic mqSet w =
     (case remove_loop env topic mqSet (m_processQueueTable w) False w of
        None \<Rightarrow> UB
      | Some (changed, w) \<Rightarrow>
          (case add_loop env mqSet [] changed w of
             (Some e, _, changed, w) \<Rightarrow> Threw e (changed, w)
           | (None, rs, changed, w) \<Rightarrow> Ret (changed, dispatchPullRequest env rs w)))"

section \<open>Rebalancing\<close>

text \<open>\<open>std::list::sort\<close> with \<open>operator<\<close>.\<close>

fun insert_str :: "string \<Rightarrow> string list \<Rightarrow> string list" where
  "insert_str x [] = [x]"
| "insert_str x (y # ys) = (if str_lt y x then y # insert_str x ys else x # y # ys)"

definition sort_cids :: "string list \<Rightarrow> string list" where
  "sort_cids xs = foldr insert_str xs []"

definition mq_set :: "MessageQueue list \<Rightarrow> MessageQueue list" where
  "mq_set mqs = fold (set_put mq_lt) mqs []"

definition apply_set ::
  "'s rb_env \<Rightarrow> string \<Rightarrow> MessageQueue list \<Rightarrow> MessageQueue list \<Rightarrow> 's rebalance \<Rightarrow> 's rebalance outcome" where
  "apply_set env topic mqAll mqSet w =
     (case updateProcessQueueTableInRebalance env topic mqSet w of
        UB \<Rightarrow> UB
      | Threw e (_, w) \<Rightarrow> Threw e w
      | Ret (changed, w) \<Rightarrow> Ret (if changed then messageQueueChanged env topic mqAll mqSet w else w))"

text \<open>When \<open>allocate\<close> throws, \<open>allocateResult\<close> is read without having been written: \<open>UB\<close>. An
  out-of-range access is \<open>std::out_of_range\<close>, not an \<open>MQException\<close>, and leaves the function.\<close>

definition rebalanceByTopic :: "'s rb_env \<Rightarrow> string \<Rightarrow> 's rebalance \<Rightarrow> 's rebalance outcome" where
  "rebalanceByTopic env topic w =
     (case m_messageModel w of
        BROADCASTING \<Rightarrow>
          (case map_find str_lt topic (m_topicSubscribeInfoTable w) of
             None \<Rightarrow> Ret w
           | Some mqSet \<Rightarrow> apply_set env topic mqSet mqSet w)
      | CLUSTERING \<Rightarrow>
          (let cidAll = e_consumerIds env topic (m_consumerGroup w) in
           case map_find str_lt topic (m_topicSubscribeInfoTable w) of
             None \<Rightarrow> Ret w
           | Some mqSet \<Rightarrow>
               if cidAll = [] then Ret w
               else (case e_allocate env (e_clientId env) mqSet (sort_cids cidAll) of
                       AllocThrows _ \<Rightarrow> UB
                     | AllocOutOfRange \<Rightarrow> Threw (MQException ''out_of_range'' 0) w
                     | AllocNull \<Rightarrow> apply_set env topic mqSet [] w
                     | AllocVector mqs \<Rightarrow> apply_set env topic mqSet (mq_set mqs) w)))"

fun truncate_loop :: "(string, SubscriptionData) smap \<Rightarrow> (MessageQueue, nat) smap \<Rightarrow> 's rebalance \<Rightarrow> 's rebalance option" where
  "truncate_loop subTable [] w = Some w"
| "truncate_loop subTable ((mq, p) # rest) w =
     (case map_find str_lt (m_topic mq) subTable of
        Some _ \<Rightarrow> truncate_loop subTable rest w
      | None \<Rightarrow>
          (case upd_pq p (setDroped True) w of None \<Rightarrow> None
           | Some w \<Rightarrow> truncate_loop subTable rest
               (w\<lparr>m_processQueueTable := map_erase mq_lt mq (m_processQueueTable w)\<rparr>)))"

definition truncateMessageQueueNotMyTopic :: "'s rebalance \<Rightarrow> 's rebalance option" where
  "truncateMessageQueueNotMyTopic w = truncate_loop (m_subscriptionInner w) (m_processQueueTable w) w"

text \<open>\<open>catch (...)\<close> around every topic: the loop goes on with the state the exception left.\<close>

fun topics_loop :: "'s rb_env \<Rightarrow> string list \<Rightarrow> 's rebalance \<Rightarrow> 's rebalance option" where
  "topics_loop env [] w = Some w"
| "topics_loop env (topic # topics) w =
     (case rebalanceByTopic env topic w of
        UB \<Rightarrow> None | Ret w \<Rightarrow> topics_loop env topics w | Threw _ w \<Rightarrow> topics_loop env topics w)"

definition doRebalance :: "'s rb_env \<Rightarrow> 's rebalance \<Rightarrow> 's rebalance option" where
  "doRebalance env w =
     (let w = w\<lparr>m_downBrokerName := []\<rparr> in
      Option.bind (topics_loop env (map fst (m_subscriptionInner w)) w) truncateMessageQueueNotMyTopic)"

definition removeProcessQueue :: "'s rb_env \<Rightarrow> MessageQueue \<Rightarrow> 's rebalance \<Rightarrow> 's rebalance option" where
  "removeProcessQueue env mq w =
     (case map_find mq_lt mq (m_processQueueTable w) of
        None \<Rightarrow> Some w
      | Some p \<Rightarrow>
          (let w = w\<lparr>m_processQueueTable := map_erase mq_lt mq (m_processQueueTable w)\<rparr> in
           map_option (removeUnnecessaryMessageQueue env mq) (upd_pq p (setDroped True) w)))"

section \<open>The two offset stores behind the virtual calls\<close>

text \<open>The remote store together with the offsets it sent to brokers, and the local store over a file.\<close>

definition remote_ops :: "broker_env \<Rightarrow> (RemoteStore \<times> offset_send list) store_ops" where
  "remote_ops benv =
     \<lparr>so_readOffset = (\<lambda>mq t (s, l). let (v, s') = remote_readOffset benv mq t s in (v, (s', l))),
      so_persist = (\<lambda>mq (s, l). (s, l @ remote_persist benv mq s)),
      so_removeOffset = (\<lambda>mq (s, l). (remote_removeOffset mq s, l))\<rparr>"

definition local_ops :: "(string \<Rightarrow> offset_json list option) \<Rightarrow> string option \<Rightarrow> LocalStore store_ops" where
  "local_ops json_read file =
     \<lparr>so_readOffset = local_readOffset json_read file, so_persist = local_persist, so_removeOffset = local_removeOffset\<rparr>"

section \<open>The invariant of the table\<close>

abbreviation tab :: "'s rebalance \<Rightarrow> (MessageQueue \<times> nat) set" where
  "tab w \<equiv> set (m_processQueueTable w)"

text \<open>The table is a well-formed map, its pointers are live and distinct, and addresses from \<open>w_next\<close> on
  are free.\<close>

definition rb_wf :: "'s rebalance \<Rightarrow> bool" where
  "rb_wf w \<longleftrightarrow> map_wf mq_lt mq_ok (m_processQueueTable w) \<and> inj_on snd (tab w) \<and>
     (\<forall>e \<in> tab w. w_pqs w (snd e) \<noteq> None) \<and> (\<forall>p. w_next w \<le> p \<longrightarrow> w_pqs w p = None)"

lemma rb_wf_ok: "rb_wf w \<Longrightarrow> (mq, p) \<in> tab w \<Longrightarrow> mq_ok mq"
  by (force simp: rb_wf_def dest: map_wf_ok)

lemma rb_wf_fresh: "rb_wf w \<Longrightarrow> e \<in> tab w \<Longrightarrow> snd e < w_next w"
  by (rule ccontr) (auto simp: rb_wf_def not_less)

lemma rb_find:
  assumes "rb_wf w" "mq_ok mq"
  shows "map_find mq_lt mq (m_processQueueTable w) = Some p \<longleftrightarrow> (mq, p) \<in> tab w"
    and "map_find mq_lt mq (m_processQueueTable w) = None \<longleftrightarrow> mq \<notin> fst ` tab w"
  using assms mq.find_Some_iff [of "m_processQueueTable w" mq p] mq.find_None_iff [of "m_processQueueTable w" mq]
  by (simp_all add: rb_wf_def)

text \<open>The state after the entries \<open>D\<close> were dropped: they are gone from the table, their process queues
  are marked, every other process queue is as it was.\<close>

definition mark_dropped :: "nat set \<Rightarrow> (nat \<Rightarrow> ProcessQueue option) \<Rightarrow> nat \<Rightarrow> ProcessQueue option" where
  "mark_dropped P h = (\<lambda>p. if p \<in> P then map_option (setDroped True) (h p) else h p)"

definition dropped_by :: "(MessageQueue \<times> nat) set \<Rightarrow> 's rebalance \<Rightarrow> 's rebalance \<Rightarrow> bool" where
  "dropped_by D w w' \<longleftrightarrow> rb_wf w' \<and> D \<subseteq> tab w \<and> tab w' = tab w - D \<and>
     w_pqs w' = mark_dropped (snd ` D) (w_pqs w) \<and> w_next w' = w_next w \<and>
     w_dispatched w' = w_dispatched w \<and> m_brokerMaster w' = m_brokerMaster w \<and>
     m_topicSubscribeInfoTable w' = m_topicSubscribeInfoTable w \<and>
     m_subscriptionInner w' = m_subscriptionInner w \<and> m_consumerGroup w' = m_consumerGroup w \<and>
     m_messageModel w' = m_messageModel w \<and> set (m_downBrokerName w) \<subseteq> set (m_downBrokerName w')"

lemma mark_dropped_twice: "mark_dropped P (mark_dropped Q h) = mark_dropped (P \<union> Q) h"
proof -
  have "setDroped True (setDroped True pq) = setDroped True pq" for pq by (simp add: setDroped_def)
  then show ?thesis by (auto simp: mark_dropped_def fun_eq_iff option.map_comp comp_def)
qed

lemma mark_dropped_empty [simp]: "mark_dropped {} h = h"
  by (simp add: mark_dropped_def)

lemma dropped_by_refl: "rb_wf w \<Longrightarrow> dropped_by {} w w"
  by (simp add: dropped_by_def)

lemma dropped_by_trans: "dropped_by D w v \<Longrightarrow> dropped_by E v u \<Longrightarrow> dropped_by (D \<union> E) w u"
  by (auto simp: dropped_by_def mark_dropped_twice image_Un Un_commute)

lemma rb_wf_drop:
  assumes "rb_wf w" "map_wf mq_lt mq_ok (m_processQueueTable w')" "tab w' \<subseteq> tab w"
    and "w_pqs w' = mark_dropped P (w_pqs w)" "w_next w' = w_next w"
  shows "rb_wf w'"
  using assms inj_on_subset [of snd "tab w" "tab w'"] by (auto simp: rb_wf_def mark_dropped_def)

lemma removeUnnecessary_frame [simp]:
  "m_processQueueTable (removeUnnecessaryMessageQueue env mq w) = m_processQueueTable w"
  "w_pqs (removeUnnecessaryMessageQueue env mq w) = w_pqs w"
  "w_next (removeUnnecessaryMessageQueue env mq w) = w_next w"
  "w_dispatched (removeUnnecessaryMessageQueue env mq w) = w_dispatched w"
  "m_brokerMaster (removeUnnecessaryMessageQueue env mq w) = m_brokerMaster w"
  "m_downBrokerName (removeUnnecessaryMessageQueue env mq w) = m_downBrokerName w"
  "m_topicSubscribeInfoTable (removeUnnecessaryMessageQueue env mq w) = m_topicSubscribeInfoTable w"
  "m_subscriptionInner (removeUnnecessaryMessageQueue env mq w) = m_subscriptionInner w"
  "m_consumerGroup (removeUnnecessaryMessageQueue env mq w) = m_consumerGroup w"
  "m_messageModel (removeUnnecessaryMessageQueue env mq w) = m_messageModel w"
  by (simp_all add: removeUnnecessaryMessageQueue_def rb_unlock_def Let_def split: rb_kind.splits)

lemma erase_entry:
  assumes "rb_wf w" "(mq, p) \<in> tab w"
  shows "set (map_erase mq_lt mq (m_processQueueTable w)) = tab w - {(mq, p)}"
    and "map_wf mq_lt mq_ok (map_erase mq_lt mq (m_processQueueTable w))"
proof -
  have w: "map_wf mq_lt mq_ok (m_processQueueTable w)" using assms(1) by (simp add: rb_wf_def)
  show "set (map_erase mq_lt mq (m_processQueueTable w)) = tab w - {(mq, p)}"
    using mq.erase_set [OF w rb_wf_ok [OF assms]] mq.entry_unique [OF w] assms(2) by auto
  show "map_wf mq_lt mq_ok (map_erase mq_lt mq (m_processQueueTable w))" using mq.erase_wf [OF w] .
qed

lemma mark_one: "h p = Some pq \<Longrightarrow> h(p \<mapsto> setDroped True pq) = mark_dropped {p} h"
  by (auto simp: mark_dropped_def)

lemma drop_queue_spec:
  assumes "rb_wf w" "(mq, p) \<in> tab w"
  shows "\<exists>w'. drop_queue env mq p w = Some w' \<and> dropped_by {(mq, p)} w w'"
proof -
  obtain pq where pq: "w_pqs w p = Some pq" using assms by (force simp: rb_wf_def)
  let ?v = "removeUnnecessaryMessageQueue env mq (w\<lparr>w_pqs := mark_dropped {p} (w_pqs w)\<rparr>)"
  let ?w = "?v\<lparr>m_processQueueTable := map_erase mq_lt mq (m_processQueueTable w)\<rparr>"
  have "drop_queue env mq p w = Some ?w"
    using pq by (simp add: drop_queue_def upd_pq_def Let_def mark_one)
  moreover have "rb_wf ?w"
    by (rule rb_wf_drop [OF assms(1), where P = "{p}"]) (use erase_entry [OF assms] in auto)
  then have "dropped_by {(mq, p)} w ?w"
    using erase_entry [OF assms] assms(2) by (simp add: dropped_by_def)
  ultimately show ?thesis by blast
qed

lemma master_check_frame:
  assumes "rb_wf w" "master_check env mq w = (down, v)"
  shows "dropped_by {} w v" and "down \<longleftrightarrow> m_brokerName mq \<in> set (m_downBrokerName v) \<and>
      map_find str_lt (m_brokerName mq) (m_brokerMaster w) \<noteq> None"
proof -
  have "m_processQueueTable v = m_processQueueTable w" "w_pqs v = w_pqs w" "w_next v = w_next w"
    using assms(2) by (auto simp: master_check_def Let_def split: option.splits if_splits)
  then have "rb_wf v" using assms(1) by (simp add: rb_wf_def)
  then show "dropped_by {} w v"
    using assms(2) by (auto simp: dropped_by_def master_check_def Let_def split: option.splits if_splits)
  show "down \<longleftrightarrow> m_brokerName mq \<in> set (m_downBrokerName v) \<and>
      map_find str_lt (m_brokerName mq) (m_brokerMaster w) \<noteq> None"
    using assms(2) by (auto simp: master_check_def Let_def split: option.splits if_splits)
qed

text \<open>The removing loop over a part of the table.\<close>

definition stale :: "string \<Rightarrow> MessageQueue list \<Rightarrow> 's rebalance \<Rightarrow> MessageQueue \<times> nat \<Rightarrow> bool" where
  \<comment> \<open>an entry that the loop may drop: of this topic, and unassigned or on a broker whose master changed\<close>
  "stale topic mqSet w e \<longleftrightarrow> m_topic (fst e) = topic \<and>
     (fst e \<notin> set mqSet \<or> m_brokerName (fst e) \<in> set (m_downBrokerName w))"

definition removes :: "string \<Rightarrow> MessageQueue list \<Rightarrow> (MessageQueue \<times> nat) set \<Rightarrow> 's rebalance \<Rightarrow> 's rebalance
    \<Rightarrow> (MessageQueue \<times> nat) set \<Rightarrow> bool" where
  "removes topic mqSet S w w' D \<longleftrightarrow> dropped_by D w w' \<and> D \<subseteq> {e \<in> S. stale topic mqSet w' e} \<and>
     {e \<in> S. m_topic (fst e) = topic \<and> fst e \<notin> set mqSet} \<subseteq> D"

lemma stale_mono: "set (m_downBrokerName w) \<subseteq> set (m_downBrokerName w') \<Longrightarrow> stale topic mqSet w e \<Longrightarrow> stale topic mqSet w' e"
  by (auto simp: stale_def)

lemma removes_keep:
  assumes "dropped_by {} w v" "removes topic mqSet S v w' D" "\<not> (m_topic (fst e) = topic \<and> fst e \<notin> set mqSet)"
  shows "removes topic mqSet (insert e S) w w' D"
  using assms dropped_by_trans [OF assms(1), of D w'] by (auto simp: removes_def)

lemma removes_drop:
  assumes "dropped_by {} w v" "dropped_by {e} v u" "removes topic mqSet S u w' D" "stale topic mqSet v e"
  shows "removes topic mqSet (insert e S) w w' (insert e D)"
proof -
  have d: "dropped_by D u w'" using assms(3) by (simp add: removes_def)
  have "dropped_by (insert e D) w w'"
    using dropped_by_trans [OF dropped_by_trans [OF assms(1,2)] d] by simp
  moreover have "stale topic mqSet w' e"
    using assms(2,4) d by (intro stale_mono [of v w']) (auto simp: dropped_by_def)
  ultimately show ?thesis using assms(3) by (auto simp: removes_def)
qed

lemma remove_loop_spec:
  assumes "rb_wf w" "set rest \<subseteq> tab w" "distinct rest" "set_wf mq_lt mq_ok mqSet"
  shows "\<exists>c w' D. remove_loop env topic mqSet rest changed w = Some (c, w') \<and> removes topic mqSet (set rest) w w' D"
  using assms(1-3)
proof (induction rest arbitrary: changed w)
  case Nil
  then show ?case using dropped_by_refl by (fastforce simp: removes_def)
next
  case (Cons e rest)
  obtain mq p where e [simp]: "e = (mq, p)" by (cases e)
  have in_w: "(mq, p) \<in> tab w" using Cons.prems by simp
  have has: "set_has mq_lt mq mqSet \<longleftrightarrow> mq \<in> set mqSet"
    using mq.has_iff [OF assms(4) rb_wf_ok [OF Cons.prems(1) in_w]] .
  have drop_case: "\<exists>c w' D. Option.bind (drop_queue env mq p v) (remove_loop env topic mqSet rest True) = Some (c, w') \<and>
      removes topic mqSet (set (e # rest)) w w' D" if v: "dropped_by {} w v" "stale topic mqSet v e" for v
  proof -
    have "rb_wf v" "(mq, p) \<in> tab v" using v in_w by (auto simp: dropped_by_def)
    then obtain u where u: "drop_queue env mq p v = Some u" "dropped_by {e} v u" using drop_queue_spec by fastforce
    have "rb_wf u" "set rest \<subseteq> tab u" "distinct rest" using u(2) v Cons.prems(2,3) by (auto simp: dropped_by_def)
    from Cons.IH [OF this, of True] show ?thesis
      using u(1) removes_drop [OF v(1) u(2) _ v(2), of "set rest"] by fastforce
  qed
  have keep_case: "\<exists>c w' D. remove_loop env topic mqSet rest changed v = Some (c, w') \<and>
      removes topic mqSet (set (e # rest)) w w' D"
    if v: "dropped_by {} w v" "m_topic mq \<noteq> topic \<or> mq \<in> set mqSet" for v
  proof -
    have "rb_wf v" "set rest \<subseteq> tab v" "distinct rest" using v Cons.prems by (auto simp: dropped_by_def)
    from Cons.IH [OF this, of changed] show ?thesis using removes_keep [OF v(1), of topic mqSet "set rest" _ _ e] v(2) by fastforce
  qed
  obtain down v where mc: "master_check env mq w = (down, v)" by fastforce
  note m = master_check_frame [OF Cons.prems(1) mc] and r = dropped_by_refl [OF Cons.prems(1)]
  show ?case
    using drop_case [OF r] keep_case [OF r] drop_case [OF m(1)] keep_case [OF m(1)] has mc m(2)
    by (cases "m_topic mq = topic"; cases "mq \<in> set mqSet"; cases down) (simp_all add: stale_def)
qed

text \<open>What the adding loop leaves: the requests \<open>new\<close> and the table entries they stand for.\<close>

definition req_entry :: "PullRequest \<Rightarrow> MessageQueue \<times> nat" where
  "req_entry r = (pr_messageQueue r, pr_processQueue r)"

definition good_request :: "'s rb_env \<Rightarrow> 's rebalance \<Rightarrow> 's rebalance \<Rightarrow> PullRequest \<Rightarrow> bool" where
  "good_request env w w' r \<longleftrightarrow>
     w_next w \<le> pr_processQueue r \<and>
     w_pqs w' (pr_processQueue r) = Some (ProcessQueue_new (e_now env (pr_messageQueue r))) \<and>
     0 \<le> pr_nextOffset r \<and> pr_consumerGroup r = m_consumerGroup w \<and> pr_messageQueue r \<notin> fst ` tab w \<and>
     (\<exists>st. fst (computePullFromWhere env (pr_messageQueue r) st) = Inr (pr_nextOffset r))"

definition added :: "'s rb_env \<Rightarrow> 's rebalance \<Rightarrow> PullRequest list \<Rightarrow> 's rebalance \<Rightarrow> bool" where
  "added env w new w' \<longleftrightarrow> rb_wf w' \<and> tab w' = tab w \<union> req_entry ` set new \<and>
     (\<forall>p < w_next w. w_pqs w' p = w_pqs w p) \<and> w_next w \<le> w_next w' \<and>
     w_dispatched w' = w_dispatched w \<and>
     m_topicSubscribeInfoTable w' = m_topicSubscribeInfoTable w \<and> m_subscriptionInner w' = m_subscriptionInner w \<and>
     m_consumerGroup w' = m_consumerGroup w \<and> m_messageModel w' = m_messageModel w \<and>
     list_all (good_request env w w') new"

lemma added_refl: "rb_wf w \<Longrightarrow> added env w [] w"
  by (simp add: added_def)

lemma added_trans:
  assumes "added env w a v" "added env v b u"
  shows "added env w (a @ b) u"
proof -
  have "good_request env w u r" if "r \<in> set a" for r
  proof -
    have g: "good_request env w v r" "req_entry r \<in> tab v" "rb_wf v"
      using assms(1) that by (auto simp: added_def list_all_iff)
    then have "pr_processQueue r < w_next v" using rb_wf_fresh [of v "req_entry r"] by (simp add: req_entry_def)
    with g assms(2) show ?thesis by (simp add: good_request_def added_def)
  qed
  moreover have "good_request env w u r" if "r \<in> set b" for r
  proof -
    have "good_request env v u r" using assms(2) that by (simp add: added_def list_all_iff)
    moreover have "tab w \<subseteq> tab v" "w_next w \<le> w_next v" "m_consumerGroup v = m_consumerGroup w"
      using assms(1) by (auto simp: added_def)
    ultimately show ?thesis unfolding good_request_def by (auto intro: order_trans)
  qed
  ultimately show ?thesis using assms by (auto simp: added_def list_all_iff image_Un Un_assoc)
qed

lemma rb_wf_new:
  assumes "rb_wf w" "m_processQueueTable v = m_processQueueTable w" "w_next v = Suc (w_next w)"
    and "\<forall>p. p \<noteq> w_next w \<longrightarrow> w_pqs v p = w_pqs w p"
  shows "rb_wf v"
proof -
  have "w_pqs v (snd e) \<noteq> None" if "e \<in> tab w" for e
    using rb_wf_fresh [OF assms(1) that] assms(1,4) that by (simp add: rb_wf_def)
  then show ?thesis using assms by (auto simp: rb_wf_def)
qed

lemma new_request_added:
  assumes "rb_wf w" "new_request env mq w = (r, v)"
  shows "added env w [] (v\<lparr>w_store := st\<rparr>)" and "added env w [] (delete_request r (v\<lparr>w_store := st\<rparr>))"
proof -
  have "rb_wf (v\<lparr>w_store := st\<rparr>)" "rb_wf (delete_request r (v\<lparr>w_store := st\<rparr>))"
    using assms(2) by (auto intro!: rb_wf_new [OF assms(1)] simp: new_request_def delete_request_def)
  then show "added env w [] (v\<lparr>w_store := st\<rparr>)" "added env w [] (delete_request r (v\<lparr>w_store := st\<rparr>))"
    using assms(2) by (auto simp: added_def new_request_def delete_request_def)
qed

lemma note_master_frame [simp]:
  "m_processQueueTable (note_master env mq w) = m_processQueueTable w" "w_pqs (note_master env mq w) = w_pqs w"
  "w_next (note_master env mq w) = w_next w" "w_dispatched (note_master env mq w) = w_dispatched w"
  "m_topicSubscribeInfoTable (note_master env mq w) = m_topicSubscribeInfoTable w"
  "m_subscriptionInner (note_master env mq w) = m_subscriptionInner w"
  "m_consumerGroup (note_master env mq w) = m_consumerGroup w" "m_messageModel (note_master env mq w) = m_messageModel w"
  by (simp_all add: note_master_def Let_def)

lemma mq_make_self [simp]: "mq_make (m_topic mq) (m_brokerName mq) (m_queueId mq) = mq"
  by (simp add: mq_make_def)

lemma insert_request_added:
  assumes wf: "rb_wf w" and ok: "mq_ok mq" and nin: "mq \<notin> fst ` tab w"
    and "new_request env mq w = (r, v)" "computePullFromWhere env mq (w_store v) = (Inr off, st)" "0 \<le> off"
  defines "r' \<equiv> r\<lparr>pr_nextOffset := off\<rparr>"
  defines "u \<equiv> note_master env mq (v\<lparr>w_store := st,
     m_processQueueTable := map_put mq_lt mq (pr_processQueue r') (m_processQueueTable v)\<rparr>)"
  shows "added env w [r'] u"
proof -
  have tw: "map_wf mq_lt mq_ok (m_processQueueTable w)" using wf by (simp add: rb_wf_def)
  have r': "pr_messageQueue r' = mq" "pr_processQueue r' = w_next w" "pr_consumerGroup r' = m_consumerGroup w"
    "pr_nextOffset r' = off" using assms(4) by (auto simp: r'_def new_request_def)
  have v: "m_processQueueTable v = m_processQueueTable w" "w_next v = Suc (w_next w)"
    "w_pqs v = (w_pqs w)(w_next w \<mapsto> ProcessQueue_new (e_now env mq))"
    using assms(4) by (auto simp: new_request_def)
  have t: "tab u = insert (mq, w_next w) (tab w)"
    using mq.put_set [OF tw ok] nin by (auto simp: u_def r' v)
  have "rb_wf u"
    unfolding rb_wf_def
  proof (intro conjI)
    show "map_wf mq_lt mq_ok (m_processQueueTable u)" using mq.put_wf [OF tw ok] by (simp add: u_def v)
    show "inj_on snd (tab u)"
      using wf rb_wf_fresh [OF wf] unfolding t by (fastforce simp: rb_wf_def inj_on_def)
    show "\<forall>e \<in> tab u. w_pqs u (snd e) \<noteq> None" unfolding t using wf by (simp add: rb_wf_def u_def v)
    show "\<forall>p. w_next u \<le> p \<longrightarrow> w_pqs u p = None" using wf by (auto simp: rb_wf_def u_def v)
  qed
  moreover have "good_request env w u r'"
    using assms(5,6) nin unfolding good_request_def r' by (auto simp: u_def v intro!: exI [of _ "w_store v"])
  ultimately show ?thesis
    using assms(4) t r' by (auto simp: added_def req_entry_def u_def v new_request_def)
qed

lemma add_loop_spec:
  assumes "rb_wf w" "list_all mq_ok mqs" "add_loop env mqs rs changed w = (ex, rs', c, w')"
  shows "\<exists>new. rs' = rs @ new \<and> added env w new w' \<and> pr_messageQueue ` set new \<subseteq> set mqs \<and>
    (ex = None \<longrightarrow> (\<forall>mq \<in> set mqs. mq \<in> fst ` tab w' \<or> (\<exists>st off. fst (computePullFromWhere env mq st) = Inr off \<and> off < 0)))"
  using assms
proof (induction mqs arbitrary: rs changed w)
  case Nil
  then show ?case using added_refl by auto
next
  case (Cons mq mqs)
  have ok: "mq_ok mq" "list_all mq_ok mqs" using Cons.prems by auto
  have step: ?case if l: "add_loop env mqs (rs @ a) ch v = (ex, rs', c, w')" and a: "added env w a v"
      and am: "pr_messageQueue ` set a \<subseteq> {mq}"
      and cov: "mq \<in> fst ` tab v \<or> (\<exists>st off. fst (computePullFromWhere env mq st) = Inr off \<and> off < 0)" for a ch v
  proof -
    have "rb_wf v" using a by (simp add: added_def)
    from Cons.IH [OF this ok(2) l] obtain new where new: "rs' = (rs @ a) @ new" "added env v new w'"
      "pr_messageQueue ` set new \<subseteq> set mqs"
      "ex = None \<longrightarrow> (\<forall>mq \<in> set mqs. mq \<in> fst ` tab w' \<or> (\<exists>st off. fst (computePullFromWhere env mq st) = Inr off \<and> off < 0))"
      by blast
    have "tab v \<subseteq> tab w'" using new(2) by (auto simp: added_def)
    with new am cov added_trans [OF a new(2)] show ?thesis by (intro exI [of _ "a @ new"]) auto
  qed
  show ?case
  proof (cases "mq \<in> fst ` tab w")
    case True
    then obtain p where "map_find mq_lt mq (m_processQueueTable w) = Some p" using rb_find [OF Cons.prems(1) ok(1)] by fastforce
    with Cons.prems(3) step [of "[]" changed w] True added_refl [OF Cons.prems(1)] show ?thesis by simp
  next
    case False
    then have nf: "map_find mq_lt mq (m_processQueueTable w) = None" using rb_find [OF Cons.prems(1) ok(1)] by simp
    obtain r v where nr: "new_request env mq w = (r, v)" by fastforce
    obtain x st where cp: "computePullFromWhere env mq (w_store v) = (x, st)" by fastforce
    note na = new_request_added [OF Cons.prems(1) nr, of st]
    show ?thesis
    proof (cases x)
      case (Inl e)
      with Cons.prems(3) nf nr cp na(1) show ?thesis by (auto simp: Let_def)
    next
      case (Inr off)
      show ?thesis
      proof (cases "0 \<le> off")
        case True
        note ia = insert_request_added [OF Cons.prems(1) ok(1) False nr cp [unfolded Inr] True]
        from Cons.prems(3) nf nr cp Inr True show ?thesis
          by (intro step [OF _ ia]) (use ia nr in \<open>auto simp: Let_def added_def req_entry_def new_request_def\<close>)
      next
        case False
        with Cons.prems(3) nf nr cp Inr show ?thesis
          by (intro step [OF _ na(2)]) (auto simp: Let_def intro!: exI [of _ "w_store v"])
      qed
    qed
  qed
qed

lemma set_wf_list_ok: "set_wf mq_lt mq_ok mqs \<Longrightarrow> list_all mq_ok mqs"
  by (simp add: set_wf_def)

lemma table_distinct: "rb_wf w \<Longrightarrow> distinct (m_processQueueTable w)"
  using mq.wf_distinct [of "m_processQueueTable w"] by (auto simp: rb_wf_def distinct_map)

text \<open>Both loops together, before the requests are dispatched.\<close>

lemma update_loops:
  assumes "rb_wf w" "set_wf mq_lt mq_ok mqSet"
  obtains c v D ex rs c' u where
    "remove_loop env topic mqSet (m_processQueueTable w) False w = Some (c, v)"
    "removes topic mqSet (tab w) w v D" "add_loop env mqSet [] c v = (ex, rs, c', u)" "added env v rs u"
    "pr_messageQueue ` set rs \<subseteq> set mqSet"
    "ex = None \<longrightarrow> (\<forall>mq \<in> set mqSet. mq \<in> fst ` tab u \<or> (\<exists>st off. fst (computePullFromWhere env mq st) = Inr off \<and> off < 0))"
    "updateProcessQueueTableInRebalance env topic mqSet w =
      (case ex of Some e \<Rightarrow> Threw e (c', u) | None \<Rightarrow> Ret (c', dispatchPullRequest env rs u))"
proof -
  obtain c v D where r: "remove_loop env topic mqSet (m_processQueueTable w) False w = Some (c, v)"
    "removes topic mqSet (tab w) w v D"
    using remove_loop_spec [OF assms(1) subset_refl table_distinct [OF assms(1)] assms(2)] by blast
  have wv: "rb_wf v" using r(2) by (simp add: removes_def dropped_by_def)
  obtain ex rs c' u where a: "add_loop env mqSet [] c v = (ex, rs, c', u)" by (cases "add_loop env mqSet [] c v") auto
  from add_loop_spec [OF wv set_wf_list_ok [OF assms(2)] a] that [OF r a] show thesis
    using r(1) a by (auto simp: updateProcessQueueTableInRebalance_def split: option.splits)
qed

lemma update_entries:
  assumes "rb_wf w" "removes topic mqSet (tab w) w v D" "added env v rs u"
  shows "tab u - tab w = req_entry ` set rs" and "tab w - tab u = D" and "tab u = tab w - D \<union> req_entry ` set rs"
    and "\<forall>e \<in> D. w_pqs u (snd e) = map_option (setDroped True) (w_pqs w (snd e))"
    and "\<forall>e \<in> tab w - D. w_pqs u (snd e) = w_pqs w (snd e)"
proof -
  have d: "dropped_by D w v" using assms(2) by (simp add: removes_def)
  then have nv: "w_next v = w_next w" and pv: "w_pqs v = mark_dropped (snd ` D) (w_pqs w)" and D: "D \<subseteq> tab w"
    by (simp_all add: dropped_by_def)
  show t: "tab u = tab w - D \<union> req_entry ` set rs" using d assms(3) by (simp add: added_def dropped_by_def)
  have fresh: "req_entry r \<notin> tab w" if "r \<in> set rs" for r
  proof
    assume "req_entry r \<in> tab w"
    then have "pr_processQueue r < w_next w" using rb_wf_fresh [OF assms(1)] by (fastforce simp: req_entry_def)
    moreover have "w_next v \<le> pr_processQueue r"
      using assms(3) that by (simp add: added_def list_all_iff good_request_def)
    ultimately show False using nv by simp
  qed
  show "tab u - tab w = req_entry ` set rs" "tab w - tab u = D" using t fresh D by auto
  have eq: "w_pqs u (snd e) = mark_dropped (snd ` D) (w_pqs w) (snd e)" if "e \<in> tab w" for e
    using rb_wf_fresh [OF assms(1) that] assms(3) nv pv by (simp add: added_def)
  show "\<forall>e \<in> D. w_pqs u (snd e) = map_option (setDroped True) (w_pqs w (snd e))"
  proof
    fix e assume e: "e \<in> D"
    then have "snd e \<in> snd ` D" "e \<in> tab w" using D by auto
    with eq [of e] show "w_pqs u (snd e) = map_option (setDroped True) (w_pqs w (snd e))"
      by (simp add: mark_dropped_def)
  qed
  have "snd e \<notin> snd ` D" if "e \<in> tab w - D" for e
    using assms(1) that D by (auto simp: rb_wf_def inj_on_def)
  then show "\<forall>e \<in> tab w - D. w_pqs u (snd e) = w_pqs w (snd e)" using eq by (auto simp: mark_dropped_def)
qed

section \<open>A whole rebalance\<close>

text \<open>What a push consumer's pass over one topic keeps: the entries of other topics, the configuration
  tables, and that the entries of the topic lie in \<open>S\<close>.\<close>

definition same_config :: "'s rebalance \<Rightarrow> 's rebalance \<Rightarrow> bool" where
  "same_config w w' \<longleftrightarrow> m_topicSubscribeInfoTable w' = m_topicSubscribeInfoTable w \<and>
     m_subscriptionInner w' = m_subscriptionInner w \<and> m_consumerGroup w' = m_consumerGroup w \<and>
     m_messageModel w' = m_messageModel w"

definition topic_updated :: "string \<Rightarrow> MessageQueue set \<Rightarrow> 's rebalance \<Rightarrow> 's rebalance \<Rightarrow> bool" where
  "topic_updated topic S w w' \<longleftrightarrow> rb_wf w' \<and> same_config w w' \<and>
     {e \<in> tab w'. m_topic (fst e) \<noteq> topic} = {e \<in> tab w. m_topic (fst e) \<noteq> topic} \<and>
     (\<forall>e \<in> tab w'. m_topic (fst e) = topic \<longrightarrow> fst e \<in> S)"

fun out_state :: "'a outcome \<Rightarrow> 'a option" where
  "out_state (Ret x) = Some x"
| "out_state (Threw e x) = Some x"
| "out_state UB = None"

lemma update_push:
  assumes "rb_wf w" "e_kind env = Push" "set_wf mq_lt mq_ok mqSet" "\<forall>mq \<in> set mqSet. m_topic mq = topic"
  shows "\<exists>c w'. out_state (updateProcessQueueTableInRebalance env topic mqSet w) = Some (c, w') \<and>
    topic_updated topic (set mqSet) w w'"
proof (rule update_loops [OF assms(1,3), of env topic])
  fix c v D ex rs c' u
  assume rm: "removes topic mqSet (tab w) w v D" and ad: "added env v rs u"
    and rs: "pr_messageQueue ` set rs \<subseteq> set mqSet"
    and up: "updateProcessQueueTableInRebalance env topic mqSet w =
      (case ex of Some e \<Rightarrow> Threw e (c', u) | None \<Rightarrow> Ret (c', dispatchPullRequest env rs u))"
  define w' where "w' = (if ex = None then u\<lparr>w_dispatched := w_dispatched u @ rs\<rparr> else u)"
  have o: "out_state (updateProcessQueueTableInRebalance env topic mqSet w) = Some (c', w')"
    using up assms(2) by (auto simp: w'_def dispatchPullRequest_def split: option.splits)
  have t: "tab w' = tab w - D \<union> req_entry ` set rs"
    using update_entries(3) [OF assms(1) rm ad] by (simp add: w'_def)
  have D: "\<forall>e \<in> D. m_topic (fst e) = topic" "\<forall>e \<in> tab w - D. m_topic (fst e) = topic \<longrightarrow> fst e \<in> set mqSet"
    using rm by (auto simp: removes_def stale_def)
  have R: "\<forall>e \<in> req_entry ` set rs. fst e \<in> set mqSet" using rs by (auto simp: req_entry_def)
  have "rb_wf u" using ad by (simp add: added_def)
  then have "rb_wf w'" by (simp add: w'_def rb_wf_def)
  moreover have "same_config w w'"
    using rm ad by (simp add: w'_def same_config_def removes_def dropped_by_def added_def)
  moreover have "{e \<in> tab w'. m_topic (fst e) \<noteq> topic} = {e \<in> tab w. m_topic (fst e) \<noteq> topic}"
    using t D(1) R assms(4) by auto
  moreover have "\<forall>e \<in> tab w'. m_topic (fst e) = topic \<longrightarrow> fst e \<in> set mqSet" using t D(2) R by auto
  ultimately show ?thesis using o by (auto simp: topic_updated_def)
qed

lemma apply_set_push:
  assumes "rb_wf w" "e_kind env = Push" "set_wf mq_lt mq_ok mqSet" "\<forall>mq \<in> set mqSet. m_topic mq = topic"
  shows "\<exists>w'. out_state (apply_set env topic mqAll mqSet w) = Some w' \<and> topic_updated topic (set mqSet) w w'"
proof -
  from update_push [OF assms] obtain c w' where o: "out_state (updateProcessQueueTableInRebalance env topic mqSet w) = Some (c, w')"
    and t: "topic_updated topic (set mqSet) w w'" by blast
  have "out_state (apply_set env topic mqAll mqSet w) = Some w'"
    using o assms(2) by (cases "updateProcessQueueTableInRebalance env topic mqSet w")
      (auto simp: apply_set_def messageQueueChanged_def)
  with t show ?thesis by blast
qed

lemma mq_set_spec:
  assumes "list_all mq_ok mqs"
  shows "set_wf mq_lt mq_ok (mq_set mqs) \<and> set (mq_set mqs) = set mqs"
proof -
  have "set_wf mq_lt mq_ok (fold (set_put mq_lt) mqs s) \<and> set (fold (set_put mq_lt) mqs s) = set s \<union> set mqs"
    if "set_wf mq_lt mq_ok s" for s
    using assms that
  proof (induction mqs arbitrary: s)
    case Nil
    then show ?case by simp
  next
    case (Cons a mqs)
    then show ?case using mq.set_put_set [of s a] mq.set_put_wf [of s a] by auto
  qed
  from this [of "[]"] show ?thesis by (simp add: mq_set_def)
qed

lemma sort_cids_Nil [simp]: "sort_cids xs = [] \<longleftrightarrow> xs = []"
proof -
  have "insert_str x ys \<noteq> []" for x ys by (cases ys) auto
  then show ?thesis by (cases xs) (auto simp: sort_cids_def)
qed

text \<open>The queues a pass over the topic aims at; \<open>None\<close> when it leaves the topic alone.\<close>

definition target :: "'s rb_env \<Rightarrow> 's rebalance \<Rightarrow> string \<Rightarrow> MessageQueue set option" where
  "target env w topic =
     (case map_find str_lt topic (m_topicSubscribeInfoTable w) of
        None \<Rightarrow> None
      | Some mqSet \<Rightarrow>
          (case m_messageModel w of
             BROADCASTING \<Rightarrow> Some (set mqSet)
           | CLUSTERING \<Rightarrow>
               let cidAll = e_consumerIds env topic (m_consumerGroup w) in
               if cidAll = [] then None
               else (case e_allocate env (e_clientId env) mqSet (sort_cids cidAll) of
                       AllocOutOfRange \<Rightarrow> None
                     | r \<Rightarrow> Some (set (alloc_queues r)))))"

text \<open>The route information is usable: for every topic a non-empty set of queues of that topic.\<close>

definition info_ok :: "'s rebalance \<Rightarrow> bool" where
  "info_ok w \<longleftrightarrow> (\<forall>topic mqs. map_find str_lt topic (m_topicSubscribeInfoTable w) = Some mqs \<longrightarrow>
     mqs \<noteq> [] \<and> set_wf mq_lt mq_ok mqs \<and> (\<forall>mq \<in> set mqs. m_topic mq = topic))"

lemma topic_updated_refl: "rb_wf w \<Longrightarrow> topic_updated topic (fst ` tab w) w w"
  by (auto simp: topic_updated_def same_config_def)

lemma rebalanceByTopic_push:
  assumes "allocation_strategy (e_allocate env)" "rb_wf w" "e_kind env = Push" "e_clientId env \<noteq> []" "info_ok w"
  shows "\<exists>w' S. out_state (rebalanceByTopic env topic w) = Some w' \<and> topic_updated topic S w w' \<and>
    (case target env w topic of None \<Rightarrow> w' = w | Some T \<Rightarrow> S = T)"
proof (cases "target env w topic")
  case None
  have "out_state (rebalanceByTopic env topic w) = Some w"
    using None allocation_strategy.no_throw [OF assms(1,4)] assms(5)
    by (auto simp: target_def rebalanceByTopic_def info_ok_def Let_def
        split: option.splits MessageModel.splits alloc_result.splits if_splits)
  then show ?thesis using None topic_updated_refl [OF assms(2)] by auto
next
  case (Some T)
  then obtain mqAll where mqAll: "map_find str_lt topic (m_topicSubscribeInfoTable w) = Some mqAll"
    by (auto simp: target_def split: option.splits)
  with assms(5) have ok: "mqAll \<noteq> []" "set_wf mq_lt mq_ok mqAll" "\<forall>mq \<in> set mqAll. m_topic mq = topic"
    by (auto simp: info_ok_def)
  have "\<exists>mqSet. out_state (rebalanceByTopic env topic w) = out_state (apply_set env topic mqAll mqSet w) \<and>
      set mqSet = T \<and> set mqSet \<subseteq> set mqAll \<and> set_wf mq_lt mq_ok mqSet"
  proof (cases "m_messageModel w")
    case BROADCASTING
    with Some mqAll ok(2) show ?thesis by (auto simp: target_def rebalanceByTopic_def)
  next
    case CLUSTERING
    let ?cids = "e_consumerIds env topic (m_consumerGroup w)"
    let ?r = "e_allocate env (e_clientId env) mqAll (sort_cids ?cids)"
    have ne: "?cids \<noteq> []" using Some mqAll CLUSTERING by (auto simp: target_def)
    then have nt: "?r \<noteq> AllocThrows e" for e
      using allocation_strategy.no_throw [OF assms(1,4) ok(1)] by simp
    have sub: "set (alloc_queues ?r) \<subseteq> set mqAll" by (rule allocation_strategy.queues_given [OF assms(1)])
    then have "list_all mq_ok (alloc_queues ?r)" using ok(2) by (auto simp: set_wf_def list_all_iff)
    then have ms: "set_wf mq_lt mq_ok (mq_set (alloc_queues ?r))" "set (mq_set (alloc_queues ?r)) = set (alloc_queues ?r)"
      using mq_set_spec by blast+
    show ?thesis
      using Some mqAll CLUSTERING ne nt sub ms
      by (intro exI [of _ "mq_set (alloc_queues ?r)"])
        (cases ?r; auto simp: target_def rebalanceByTopic_def Let_def mq_set_def)
  qed
  then obtain mqSet where m: "out_state (rebalanceByTopic env topic w) = out_state (apply_set env topic mqAll mqSet w)"
    "set mqSet = T" "set mqSet \<subseteq> set mqAll" "set_wf mq_lt mq_ok mqSet" by blast
  then have "\<forall>mq \<in> set mqSet. m_topic mq = topic" using ok(3) by blast
  from apply_set_push [OF assms(2,3) m(4) this, of mqAll] m(1,2) Some show ?thesis by auto
qed

lemma same_config_target: "same_config w w' \<Longrightarrow> target env w' = target env w \<and> (info_ok w' \<longleftrightarrow> info_ok w)"
  unfolding same_config_def by (intro conjI ext) (simp_all only: target_def info_ok_def)

lemma topics_loop_push:
  assumes "allocation_strategy (e_allocate env)" "rb_wf w" "e_kind env = Push" "e_clientId env \<noteq> []" "info_ok w" "distinct topics"
  shows "\<exists>w'. topics_loop env topics w = Some w' \<and> rb_wf w' \<and> same_config w w' \<and>
    {e \<in> tab w'. m_topic (fst e) \<notin> set topics} = {e \<in> tab w. m_topic (fst e) \<notin> set topics} \<and>
    (\<forall>e \<in> tab w'. \<forall>T. m_topic (fst e) \<in> set topics \<longrightarrow> target env w (m_topic (fst e)) = Some T \<longrightarrow> fst e \<in> T)"
  using assms(2,5,6)
proof (induction topics arbitrary: w)
  case Nil
  then show ?case by (simp add: same_config_def)
next
  case (Cons t ts)
  from rebalanceByTopic_push [OF assms(1) Cons.prems(1) assms(3,4) Cons.prems(2), of t] obtain v S where
    v: "out_state (rebalanceByTopic env t w) = Some v" "topic_updated t S w v"
    "case target env w t of None \<Rightarrow> v = w | Some T \<Rightarrow> S = T" by blast
  then have c: "rb_wf v" "same_config w v" by (simp_all add: topic_updated_def)
  then have "info_ok v" "target env v = target env w" using same_config_target Cons.prems(2) by blast+
  with Cons.IH [OF c(1)] Cons.prems(3) obtain w' where w': "topics_loop env ts v = Some w'" "rb_wf w'" "same_config v w'"
    "{e \<in> tab w'. m_topic (fst e) \<notin> set ts} = {e \<in> tab v. m_topic (fst e) \<notin> set ts}"
    "\<forall>e \<in> tab w'. \<forall>T. m_topic (fst e) \<in> set ts \<longrightarrow> target env w (m_topic (fst e)) = Some T \<longrightarrow> fst e \<in> T" by auto
  have "topics_loop env (t # ts) w = Some w'"
    using v(1) w'(1) by (cases "rebalanceByTopic env t w") auto
  moreover have "fst e \<in> T" if "e \<in> tab w'" "m_topic (fst e) = t" "target env w t = Some T" for e T
  proof -
    have "e \<in> tab v" using that w'(4) Cons.prems(3) by auto
    then show ?thesis using that v(2,3) by (simp add: topic_updated_def)
  qed
  moreover have "{e \<in> tab w'. m_topic (fst e) \<notin> set (t # ts)} = {e \<in> tab w. m_topic (fst e) \<notin> set (t # ts)}"
    using w'(4) v(2) by (auto simp: topic_updated_def set_eq_iff)
  moreover have "same_config w w'" using c(2) w'(3) by (simp add: same_config_def)
  ultimately show ?case using w'(2,5) by auto
qed

lemma truncate_loop_spec:
  assumes "rb_wf w" "set rest \<subseteq> tab w" "distinct rest" "map_wf str_lt any_key subTable"
  shows "\<exists>w'. truncate_loop subTable rest w = Some w' \<and>
    dropped_by {e \<in> set rest. m_topic (fst e) \<notin> fst ` set subTable} w w'"
  using assms(1-3)
proof (induction rest arbitrary: w)
  case Nil
  then show ?case using dropped_by_refl by simp
next
  case (Cons e rest)
  obtain mq p where e [simp]: "e = (mq, p)" by (cases e)
  have f: "map_find str_lt (m_topic mq) subTable = None \<longleftrightarrow> m_topic mq \<notin> fst ` set subTable"
    using str.find_None_iff [OF assms(4)] by simp
  show ?case
  proof (cases "m_topic mq \<in> fst ` set subTable")
    case True
    then have "{x \<in> set (e # rest). m_topic (fst x) \<notin> fst ` set subTable} = {x \<in> set rest. m_topic (fst x) \<notin> fst ` set subTable}"
      by (intro Collect_cong) (metis e fst_conv set_ConsD list.set_intros(2))
    with True f Cons show ?thesis by (auto split: option.splits)
  next
    case False
    have i: "(mq, p) \<in> tab w" using Cons.prems by simp
    obtain pq where pq: "w_pqs w p = Some pq" using Cons.prems i by (force simp: rb_wf_def)
    define v where "v = w\<lparr>w_pqs := mark_dropped {p} (w_pqs w), m_processQueueTable := map_erase mq_lt mq (m_processQueueTable w)\<rparr>"
    note en = erase_entry [OF Cons.prems(1) i]
    have "rb_wf v" by (rule rb_wf_drop [OF Cons.prems(1), where P = "{p}"]) (use en in \<open>auto simp: v_def\<close>)
    then have dv: "dropped_by {e} w v" using en i by (simp add: dropped_by_def v_def)
    have "set rest \<subseteq> tab v" using dv Cons.prems by (auto simp: dropped_by_def)
    with Cons.IH [OF \<open>rb_wf v\<close>] Cons.prems(3) obtain w' where "truncate_loop subTable rest v = Some w'"
      "dropped_by {e \<in> set rest. m_topic (fst e) \<notin> fst ` set subTable} v w'" by auto
    moreover have "{x \<in> set (e # rest). m_topic (fst x) \<notin> fst ` set subTable} =
        {e} \<union> {x \<in> set rest. m_topic (fst x) \<notin> fst ` set subTable}"
      using False by (simp only: set_simps) force
    ultimately show ?thesis
      using False f pq dropped_by_trans [OF dv] by (auto simp: upd_pq_def mark_one v_def)
  qed
qed

lemma doRebalance_push:
  assumes "allocation_strategy (e_allocate env)" "rb_wf w" "e_kind env = Push" "e_clientId env \<noteq> []" "info_ok w"
    and "map_wf str_lt any_key (m_subscriptionInner w)"
  shows "\<exists>w'. doRebalance env w = Some w' \<and> rb_wf w' \<and> same_config w w' \<and>
    (\<forall>e \<in> tab w'. m_topic (fst e) \<in> fst ` set (m_subscriptionInner w) \<and>
       (\<forall>T. target env w (m_topic (fst e)) = Some T \<longrightarrow> fst e \<in> T))"
proof -
  define v where "v = w\<lparr>m_downBrokerName := []\<rparr>"
  have c: "same_config w v" "rb_wf v" using assms(2) by (simp_all add: v_def same_config_def rb_wf_def)
  have subs: "m_subscriptionInner v = m_subscriptionInner w" by (simp add: v_def)
  have t: "info_ok v" "target env v = target env w" using same_config_target [OF c(1)] assms(5) by blast+
  obtain u where u: "topics_loop env (map fst (m_subscriptionInner w)) v = Some u" "rb_wf u" "same_config v u"
    "\<forall>e \<in> tab u. \<forall>T. m_topic (fst e) \<in> set (map fst (m_subscriptionInner w)) \<longrightarrow>
       target env w (m_topic (fst e)) = Some T \<longrightarrow> fst e \<in> T"
    using topics_loop_push [OF assms(1) c(2) assms(3,4) t(1) str.wf_distinct [OF assms(6)]] t(2) by auto
  have su: "m_subscriptionInner u = m_subscriptionInner w" using u(3) subs by (simp add: same_config_def)
  obtain w' where "truncate_loop (m_subscriptionInner w) (m_processQueueTable u) u = Some w'"
    and d: "dropped_by {e \<in> tab u. m_topic (fst e) \<notin> fst ` set (m_subscriptionInner w)} u w'"
    using truncate_loop_spec [OF u(2) subset_refl table_distinct [OF u(2)] assms(6)] by blast
  then have "doRebalance env w = Some w'"
    using u(1) su by (simp add: doRebalance_def truncateMessageQueueNotMyTopic_def v_def)
  moreover have "same_config w w'" using c(1) u(3) d by (simp add: same_config_def dropped_by_def)
  moreover have "\<forall>e \<in> tab w'. m_topic (fst e) \<in> fst ` set (m_subscriptionInner w) \<and>
       (\<forall>T. target env w (m_topic (fst e)) = Some T \<longrightarrow> fst e \<in> T)"
    using d u(4) by (auto simp: dropped_by_def)
  ultimately show ?thesis using d by (auto simp: dropped_by_def)
qed

section \<open>Locking\<close>

text \<open>The three loops over queues that call a method of each process queue found in the table.\<close>

fun for_each_queue :: "(MessageQueue \<Rightarrow> ProcessQueue \<Rightarrow> ProcessQueue) \<Rightarrow> MessageQueue list \<Rightarrow> 's rebalance \<Rightarrow> 's rebalance option" where
  "for_each_queue f [] w = Some w"
| "for_each_queue f (mq # mqs) w =
     (case map_find mq_lt mq (m_processQueueTable w) of
        None \<Rightarrow> for_each_queue f mqs w
      | Some p \<Rightarrow> Option.bind (upd_pq p (f mq) w) (for_each_queue f mqs))"

abbreviation relock :: "'s rb_env \<Rightarrow> MessageQueue \<Rightarrow> ProcessQueue \<Rightarrow> ProcessQueue" where
  "relock env mq pq \<equiv> setLastLockTimestamp (e_now env mq) (setLocked True pq)"

lemma set_locked_each: "set_locked env mqs = for_each_queue (relock env) mqs"
  by (rule ext, induction mqs) (auto split: option.splits bind_splits simp: upd_pq_def fun_eq_iff)

lemma set_unlocked_each: "set_unlocked mqs = for_each_queue (\<lambda>_. setLocked False) mqs"
  by (rule ext, induction mqs) (auto split: option.splits bind_splits simp: upd_pq_def fun_eq_iff)

lemma set_lock_failed_each:
  "set_lock_failed ok mqs = for_each_queue (\<lambda>_. setLocked False) (filter (\<lambda>mq. \<not> set_has mq_lt mq ok) mqs)"
  by (rule ext, induction mqs) (auto split: option.splits bind_splits simp: upd_pq_def fun_eq_iff)

lemmas for_each_instances = set_locked_each set_unlocked_each set_lock_failed_each

text \<open>A change of process queue objects only: each entry of the table gets \<open>g\<close> applied.\<close>

definition pqs_changed :: "(MessageQueue \<Rightarrow> ProcessQueue \<Rightarrow> ProcessQueue) \<Rightarrow> 's rebalance \<Rightarrow> 's rebalance \<Rightarrow> bool" where
  "pqs_changed g w w' \<longleftrightarrow> w' = w\<lparr>w_pqs := w_pqs w'\<rparr> \<and> rb_wf w' \<and>
     (\<forall>e \<in> tab w. w_pqs w' (snd e) = map_option (g (fst e)) (w_pqs w (snd e)))"

lemma pqs_changed_tab: "pqs_changed g w w' \<Longrightarrow> m_processQueueTable w' = m_processQueueTable w \<and> rb_wf w'"
  unfolding pqs_changed_def by (metis rebalance.select_convs(1) rebalance.surjective rebalance.update_convs(8))

lemma pqs_changed_refl: "rb_wf w \<Longrightarrow> (\<And>mq. mq \<in> fst ` tab w \<Longrightarrow> g mq = id) \<Longrightarrow> pqs_changed g w w"
  by (auto simp: pqs_changed_def option.map_id)

lemma pqs_changed_trans:
  assumes "pqs_changed g w v" "pqs_changed h v u"
  shows "pqs_changed (\<lambda>mq. h mq \<circ> g mq) w u"
  using assms pqs_changed_tab [OF assms(1)]
  by (auto simp: pqs_changed_def option.map_comp) (metis rebalance.surjective rebalance.update_convs(8))

lemma pqs_changed_cong:
  "pqs_changed g w w' \<Longrightarrow> (\<And>mq. mq \<in> fst ` tab w \<Longrightarrow> g mq = h mq) \<Longrightarrow> pqs_changed h w w'"
  by (auto simp: pqs_changed_def)

lemma upd_pq_changed:
  assumes "rb_wf w" "(mq, p) \<in> tab w"
  shows "\<exists>w'. upd_pq p f w = Some w' \<and> pqs_changed (\<lambda>q. if q = mq then f else id) w w'"
proof -
  obtain pq where pq: "w_pqs w p = Some pq" using assms by (force simp: rb_wf_def)
  let ?w = "w\<lparr>w_pqs := (w_pqs w)(p \<mapsto> f pq)\<rparr>"
  have "w_pqs ?w (snd e) = map_option ((if fst e = mq then f else id)) (w_pqs w (snd e))" if "e \<in> tab w" for e
  proof (cases "snd e = p")
    case True
    then have "e = (mq, p)" using assms that by (auto simp: rb_wf_def inj_on_def)
    with pq show ?thesis by simp
  next
    case False
    then have "fst e \<noteq> mq" using that assms mq.entry_unique [of "m_processQueueTable w" mq "snd e" p]
      by (cases e) (auto simp: rb_wf_def)
    with False show ?thesis by (simp add: option.map_id)
  qed
  moreover have "rb_wf ?w" using assms pq by (auto simp: rb_wf_def)
  ultimately have "pqs_changed (\<lambda>q. if q = mq then f else id) w ?w" by (simp add: pqs_changed_def)
  with pq show ?thesis by (simp add: upd_pq_def)
qed

lemma for_each_queue_spec:
  assumes "rb_wf w" "list_all mq_ok mqs" "distinct mqs"
  shows "\<exists>w'. for_each_queue f mqs w = Some w' \<and> pqs_changed (\<lambda>mq. if mq \<in> set mqs then f mq else id) w w'"
  using assms
proof (induction mqs arbitrary: w)
  case Nil
  then show ?case using pqs_changed_refl [of w "\<lambda>_. id"] by (simp add: id_def)
next
  case (Cons mq mqs)
  then have ok: "mq_ok mq" "list_all mq_ok mqs" "distinct mqs" "mq \<notin> set mqs" by auto
  show ?case
  proof (cases "map_find mq_lt mq (m_processQueueTable w)")
    case None
    from Cons.IH [OF Cons.prems(1) ok(2,3)] obtain w' where w': "for_each_queue f mqs w = Some w'"
      "pqs_changed (\<lambda>q. if q \<in> set mqs then f q else id) w w'" by blast
    have "mq \<notin> fst ` tab w" using None rb_find [OF Cons.prems(1) ok(1)] by simp
    then have "pqs_changed (\<lambda>q. if q \<in> set (mq # mqs) then f q else id) w w'"
      by (intro pqs_changed_cong [OF w'(2)]) auto
    with None w'(1) show ?thesis by simp
  next
    case (Some p)
    then have "(mq, p) \<in> tab w" using rb_find [OF Cons.prems(1) ok(1)] by simp
    from upd_pq_changed [OF Cons.prems(1) this] obtain v where v: "upd_pq p (f mq) w = Some v"
      "pqs_changed (\<lambda>q. if q = mq then f mq else id) w v" by blast
    then obtain w' where w': "for_each_queue f mqs v = Some w'" "pqs_changed (\<lambda>q. if q \<in> set mqs then f q else id) v w'"
      using Cons.IH [OF _ ok(2,3), of v] pqs_changed_tab by blast
    have "pqs_changed (\<lambda>q. if q \<in> set (mq # mqs) then f q else id) w w'"
      by (intro pqs_changed_cong [OF pqs_changed_trans [OF v(2) w'(2)]]) (use ok(4) in auto)
    with Some v(1) w'(1) show ?thesis by simp
  qed
qed

text \<open>\<open>buildProcessQueueTableByBrokerName\<close> groups the queues by broker.\<close>

definition groups :: "MessageQueue set \<Rightarrow> (string, MessageQueue list) smap \<Rightarrow> bool" where
  "groups M res \<longleftrightarrow> map_wf str_lt any_key res \<and>
     (\<forall>(b, mqs) \<in> set res. mqs \<noteq> [] \<and> set_wf mq_lt mq_ok mqs \<and> set mqs = {mq \<in> M. m_brokerName mq = b}) \<and>
     (\<forall>mq \<in> M. m_brokerName mq \<in> fst ` set res)"

lemma groups_put:
  assumes "groups M res" "mq_ok mq"
  shows "groups (insert mq M) (case map_find str_lt (m_brokerName mq) res of
      None \<Rightarrow> map_put str_lt (m_brokerName mq) [mq] res
    | Some mqs \<Rightarrow> map_put str_lt (m_brokerName mq) (set_put mq_lt mq mqs) res)"
proof -
  have w: "map_wf str_lt any_key res" using assms(1) by (simp add: groups_def)
  define mqs where "mqs = (case map_find str_lt (m_brokerName mq) res of None \<Rightarrow> [mq] | Some mqs \<Rightarrow> set_put mq_lt mq mqs)"
  have "mqs \<noteq> [] \<and> set_wf mq_lt mq_ok mqs \<and> set mqs = {q \<in> insert mq M. m_brokerName q = m_brokerName mq}"
  proof (cases "map_find str_lt (m_brokerName mq) res")
    case None
    then have "m_brokerName mq \<notin> fst ` set res" using str.find_None_iff [OF w] by simp
    moreover have "\<forall>x \<in> M. m_brokerName x \<in> fst ` set res" using assms(1) by (simp add: groups_def)
    ultimately have "\<forall>x \<in> M. m_brokerName x \<noteq> m_brokerName mq" by metis
    then have "{q \<in> insert mq M. m_brokerName q = m_brokerName mq} = {mq}" by auto
    with assms(2) None show ?thesis by (simp add: mqs_def)
  next
    case (Some old)
    then have "(m_brokerName mq, old) \<in> set res" using str.find_Some_iff [OF w] by simp
    with assms(1) have "set_wf mq_lt mq_ok old" "set old = {q \<in> M. m_brokerName q = m_brokerName mq}"
      by (auto simp: groups_def)
    with Some assms(2) mq.set_put_set [of old mq] mq.set_put_wf [of old mq] show ?thesis by (auto simp: mqs_def)
  qed
  moreover have "(case map_find str_lt (m_brokerName mq) res of
      None \<Rightarrow> map_put str_lt (m_brokerName mq) [mq] res
    | Some mqs \<Rightarrow> map_put str_lt (m_brokerName mq) (set_put mq_lt mq mqs) res) = map_put str_lt (m_brokerName mq) mqs res"
    by (simp add: mqs_def split: option.splits)
  moreover have "(b, x) \<in> set res \<Longrightarrow> b \<noteq> m_brokerName mq \<Longrightarrow>
      {q. (q = mq \<or> q \<in> M) \<and> m_brokerName q = b} = {q \<in> M. m_brokerName q = b}" for b x by auto
  ultimately show ?thesis
    using assms(1) str.put_set [OF w, of "m_brokerName mq" mqs] str.put_wf [OF w, of "m_brokerName mq" mqs]
      str.put_keys [OF w, of "m_brokerName mq" mqs]
    by (auto simp: groups_def)
qed

lemma build_groups:
  assumes "rb_wf w"
  shows "groups (fst ` tab w) (buildProcessQueueTableByBrokerName w)"
proof -
  have "groups (M \<union> fst ` set t) (build_by_broker t res)"
    if "groups M res" "list_all mq_ok (map fst t)" for M and t :: "(MessageQueue, nat) smap" and res
    using that
  proof (induction t arbitrary: M res)
    case Nil
    then show ?case by simp
  next
    case (Cons e t)
    obtain mq p where e: "e = (mq, p)" by (cases e)
    from Cons.prems e have "mq_ok mq" "list_all mq_ok (map fst t)" by auto
    with Cons.IH [OF groups_put [OF Cons.prems(1)]] e show ?case by simp
  qed
  from this [of "{}" "[]" "m_processQueueTable w"] assms show ?thesis
    by (simp add: buildProcessQueueTableByBrokerName_def groups_def rb_wf_def map_wf_def)
qed

text \<open>What \<open>lockAll\<close> does to one process queue: nothing when the broker is unknown or does not answer,
  otherwise locked with a new time stamp when the broker granted it, and unlocked when it did not.\<close>

definition lock_effect :: "'s rb_env \<Rightarrow> MessageQueue list \<Rightarrow> MessageQueue \<Rightarrow> ProcessQueue \<Rightarrow> ProcessQueue" where
  "lock_effect env mqs mq =
     (if e_brokerAddr env (m_brokerName mq) = [] then id
      else case e_lockBatch env (e_brokerAddr env (m_brokerName mq)) mqs of
             Inl _ \<Rightarrow> id
           | Inr ok \<Rightarrow> if mq \<in> set ok then relock env mq else setLocked False)"

definition broker_answers :: "'s rb_env \<Rightarrow> bool" where
  \<comment> \<open>a broker answers with some of the queues it was asked to lock\<close>
  "broker_answers env \<longleftrightarrow> (\<forall>addr mqs ok. set_wf mq_lt mq_ok mqs \<longrightarrow> e_lockBatch env addr mqs = Inr ok \<longrightarrow>
     set_wf mq_lt mq_ok ok \<and> set ok \<subseteq> set mqs)"

lemma lock_group:
  assumes "rb_wf w" "broker_answers env" "set_wf mq_lt mq_ok mqs" "e_lockBatch env addr mqs = Inr ok"
  shows "\<exists>w'. Option.bind (set_locked env ok w) (set_lock_failed ok mqs) = Some w' \<and>
    pqs_changed (\<lambda>mq. if mq \<in> set mqs then if mq \<in> set ok then relock env mq else setLocked False else id) w w'"
proof -
  have ok: "set_wf mq_lt mq_ok ok" "set ok \<subseteq> set mqs" using assms(2,3,4) by (auto simp: broker_answers_def)
  let ?rest = "filter (\<lambda>mq. \<not> set_has mq_lt mq ok) mqs"
  have "mq \<in> set mqs \<Longrightarrow> set_has mq_lt mq ok \<longleftrightarrow> mq \<in> set ok" for mq
    using mq.has_iff [OF ok(1)] set_wf_ok [OF assms(3)] by blast
  then have sr: "set ?rest = set mqs - set ok" by auto
  have lr: "list_all mq_ok ?rest" "distinct ?rest"
    using assms(3) mq.set_wf_distinct [OF assms(3)] by (auto simp: set_wf_def list_all_iff)
  obtain v where v: "set_locked env ok w = Some v" "pqs_changed (\<lambda>mq. if mq \<in> set ok then relock env mq else id) w v"
    using for_each_queue_spec [OF assms(1) set_wf_list_ok [OF ok(1)] mq.set_wf_distinct [OF ok(1)]]
    unfolding for_each_instances by blast
  then obtain w' where w': "set_lock_failed ok mqs v = Some w'"
    "pqs_changed (\<lambda>mq. if mq \<in> set mqs - set ok then setLocked False else id) v w'"
    using for_each_queue_spec [OF _ lr, of v] pqs_changed_tab unfolding for_each_instances sr by blast
  have "pqs_changed (\<lambda>mq. if mq \<in> set mqs then if mq \<in> set ok then relock env mq else setLocked False else id) w w'"
    by (intro pqs_changed_cong [OF pqs_changed_trans [OF v(2) w'(2)]]) (use ok(2) in auto)
  with v(1) w'(1) show ?thesis by simp
qed

lemma lock_brokers_spec:
  assumes "rb_wf w" "broker_answers env" "map_wf str_lt any_key G"
    and "\<forall>(b, mqs) \<in> set G. set_wf mq_lt mq_ok mqs \<and> (\<forall>mq \<in> set mqs. m_brokerName mq = b)"
    and "\<forall>(b, mqs) \<in> set G. \<forall>mq \<in> fst ` tab w. m_brokerName mq = b \<longrightarrow> mq \<in> set mqs"
  shows "\<exists>w'. lock_brokers env G w = Some w' \<and>
    pqs_changed (\<lambda>mq. case map_of G (m_brokerName mq) of None \<Rightarrow> id | Some mqs \<Rightarrow> lock_effect env mqs mq) w w'"
  using assms(1,3-5)
proof (induction G arbitrary: w)
  case Nil
  then show ?case using pqs_changed_refl [of w "\<lambda>_. id"] by (simp add: id_def)
next
  case (Cons g G)
  obtain b mqs where g: "g = (b, mqs)" by (cases g)
  have mqs: "set_wf mq_lt mq_ok mqs" "\<forall>mq \<in> set mqs. m_brokerName mq = b"
    and all: "\<forall>mq \<in> fst ` tab w. m_brokerName mq = b \<longrightarrow> mq \<in> set mqs" and wG: "map_wf str_lt any_key G"
    using Cons.prems g by auto
  have bG: "b \<notin> fst ` set G" using Cons.prems(2) g by (auto simp: str_lt_irrefl)
  define step where "step = (\<lambda>mq. if m_brokerName mq = b then lock_effect env mqs mq else id)"
  have cont: "\<exists>w'. lock_brokers env G v = Some w' \<and>
      pqs_changed (\<lambda>mq. case map_of (g # G) (m_brokerName mq) of None \<Rightarrow> id | Some mqs \<Rightarrow> lock_effect env mqs mq) w w'"
    if v: "pqs_changed step w v" for v
  proof -
    have t: "m_processQueueTable v = m_processQueueTable w" "rb_wf v" using pqs_changed_tab [OF v] by auto
    with Cons.IH [OF t(2) wG] Cons.prems(3,4) obtain w' where w': "lock_brokers env G v = Some w'"
      "pqs_changed (\<lambda>mq. case map_of G (m_brokerName mq) of None \<Rightarrow> id | Some mqs \<Rightarrow> lock_effect env mqs mq) v w'"
      by (auto simp: t)
    have "map_of G b = None" using bG by (simp add: map_of_eq_None)
    then show ?thesis
      using w'(1) by (intro exI [of _ w'] conjI pqs_changed_cong [OF pqs_changed_trans [OF v w'(2)]])
        (auto simp: g step_def)
  qed
  have skip: "pqs_changed step w w" if "\<And>mq. m_brokerName mq = b \<Longrightarrow> mq \<in> fst ` tab w \<Longrightarrow> lock_effect env mqs mq = id"
    using that by (intro pqs_changed_refl [OF Cons.prems(1)]) (auto simp: step_def)
  show ?case
  proof (cases "mqs = [] \<or> e_brokerAddr env b = [] \<or> (\<exists>e. e_lockBatch env (e_brokerAddr env b) mqs = Inl e)")
    case True
    then have "pqs_changed step w w" using all by (intro skip) (auto simp: lock_effect_def)
    from cont [OF this] True g show ?thesis by (auto simp: Let_def)
  next
    case False
    then obtain ok where ok: "e_lockBatch env (e_brokerAddr env b) mqs = Inr ok"
      by (cases "e_lockBatch env (e_brokerAddr env b) mqs") auto
    obtain v where v: "Option.bind (set_locked env ok w) (set_lock_failed ok mqs) = Some v"
      "pqs_changed (\<lambda>mq. if mq \<in> set mqs then if mq \<in> set ok then relock env mq else setLocked False else id) w v"
      using lock_group [OF Cons.prems(1) assms(2) mqs(1) ok] by blast
    have "pqs_changed step w v"
      by (rule pqs_changed_cong [OF v(2)]) (use all mqs(2) ok False in \<open>auto simp: step_def lock_effect_def\<close>)
    from cont [OF this] v(1) ok False g show ?thesis by (auto simp: Let_def)
  qed
qed

section \<open>The pull consumer\<close>

lemma add_loop_no_throw:
  assumes "\<And>mq st. \<exists>off. fst (computePullFromWhere env mq st) = Inr off"
  shows "fst (add_loop env mqs rs c w) = None"
proof (induction mqs arbitrary: rs c w)
  case Nil
  then show ?case by simp
next
  case (Cons mq mqs)
  obtain r v where nr: "new_request env mq w = (r, v)" by fastforce
  obtain off st where "computePullFromWhere env mq (w_store v) = (Inr off, st)"
    using assms [of mq "w_store v"] by (metis prod.collapse)
  with Cons nr show ?case by (auto simp: Let_def split: option.splits)
qed

lemma delete_requests:
  "m_processQueueTable (fold delete_request rs w) = m_processQueueTable w"
  "r \<in> set rs \<Longrightarrow> w_pqs (fold delete_request rs w) (pr_processQueue r) = None"
proof -
  have t: "m_processQueueTable (fold delete_request rs w) = m_processQueueTable w" for w :: "'a rebalance"
    by (induction rs arbitrary: w) (simp_all add: delete_request_def)
  then show "m_processQueueTable (fold delete_request rs w) = m_processQueueTable w" .
  have none: "w_pqs w p = None \<Longrightarrow> w_pqs (fold delete_request rs w) p = None" for p and w :: "'a rebalance" and rs
    by (induction rs arbitrary: w) (simp_all add: delete_request_def)
  show "r \<in> set rs \<Longrightarrow> w_pqs (fold delete_request rs w) (pr_processQueue r) = None"
    by (induction rs arbitrary: w) (auto simp: none delete_request_def)
qed

lemma remove_loop_dangling:
  assumes "(mq, p) \<in> set rest" "m_topic mq = topic" "w_pqs w p = None"
  shows "remove_loop env topic [] rest changed w = None"
  using assms(1,3)
proof (induction rest arbitrary: changed w)
  case Nil
  then show ?case by simp
next
  case (Cons e rest)
  obtain a q where e [simp]: "e = (a, q)" by (cases e)
  show ?case
  proof (cases "m_topic a = topic")
    case False
    with Cons assms(2) show ?thesis by auto
  next
    case True
    show ?thesis
    proof (cases "drop_queue env a q w")
      case None
      with True show ?thesis by simp
    next
      case (Some v)
      then have "q \<noteq> p" "w_pqs v p = None"
        using Cons.prems(2) by (auto simp: drop_queue_def upd_pq_def Let_def split: option.splits)
      with Cons Some True show ?thesis by auto
    qed
  qed
qed

section \<open>Claims\<close>

text \<open>
  C1. A push consumer's rebalance of one topic installs the assignment. It touches no freed process queue, and
  when it returns: queues of other topics are as they were; every queue of the topic in the table is assigned,
  and an assigned queue is missing only when no start offset could be read for it; each entry that left the
  table has its process queue marked dropped, each entry that stayed has it unchanged; and the new entries are
  exactly those of the pull requests handed to the pull service, each with a fresh process queue and a
  non-negative offset.
\<close>

theorem rebalance_installs_assignment:
  assumes "rb_wf w" "e_kind env = Push" "set_wf mq_lt mq_ok mqSet" "\<forall>mq \<in> set mqSet. m_topic mq = topic"
  shows "updateProcessQueueTableInRebalance env topic mqSet w \<noteq> UB \<and>
    (\<forall>changed w'. updateProcessQueueTableInRebalance env topic mqSet w = Ret (changed, w') \<longrightarrow>
      rb_wf w' \<and>
      {e \<in> tab w'. m_topic (fst e) \<noteq> topic} = {e \<in> tab w. m_topic (fst e) \<noteq> topic} \<and>
      (\<forall>e \<in> tab w'. m_topic (fst e) = topic \<longrightarrow> fst e \<in> set mqSet) \<and>
      (\<forall>mq \<in> set mqSet. mq \<in> fst ` tab w' \<or> (\<exists>st off. fst (computePullFromWhere env mq st) = Inr off \<and> off < 0)) \<and>
      (\<forall>e \<in> tab w - tab w'. w_pqs w' (snd e) = map_option (setDroped True) (w_pqs w (snd e))) \<and>
      (\<forall>e \<in> tab w \<inter> tab w'. w_pqs w' (snd e) = w_pqs w (snd e)) \<and>
      (\<exists>new. w_dispatched w' = w_dispatched w @ new \<and> req_entry ` set new = tab w' - tab w \<and>
         (\<forall>r \<in> set new. 0 \<le> pr_nextOffset r \<and>
            w_pqs w' (pr_processQueue r) = Some (ProcessQueue_new (e_now env (pr_messageQueue r))))))"
proof (rule update_loops [OF assms(1,3), of env topic], intro conjI allI impI)
  fix c v D ex rs c' u
  assume rm: "removes topic mqSet (tab w) w v D" and ad: "added env v rs u"
    and rs: "pr_messageQueue ` set rs \<subseteq> set mqSet"
    and cov: "ex = None \<longrightarrow> (\<forall>mq \<in> set mqSet. mq \<in> fst ` tab u \<or> (\<exists>st off. fst (computePullFromWhere env mq st) = Inr off \<and> off < 0))"
    and up: "updateProcessQueueTableInRebalance env topic mqSet w =
      (case ex of Some e \<Rightarrow> Threw e (c', u) | None \<Rightarrow> Ret (c', dispatchPullRequest env rs u))"
  show "updateProcessQueueTableInRebalance env topic mqSet w \<noteq> UB" using up by (simp split: option.splits)
  note en = update_entries [OF assms(1) rm ad]
  fix changed w'
  assume "updateProcessQueueTableInRebalance env topic mqSet w = Ret (changed, w')"
  with up have w': "w' = u\<lparr>w_dispatched := w_dispatched u @ rs\<rparr>" and ex: "ex = None"
    using assms(2) by (auto simp: dispatchPullRequest_def split: option.splits)
  have [simp]: "tab w' = tab u" "w_pqs w' = w_pqs u" by (simp_all add: w')
  have "rb_wf u" using ad by (simp add: added_def)
  then show "rb_wf w'" by (simp add: w' rb_wf_def)
  have D: "\<forall>e \<in> D. m_topic (fst e) = topic" "\<forall>e \<in> tab w - D. m_topic (fst e) = topic \<longrightarrow> fst e \<in> set mqSet"
    using rm by (auto simp: removes_def stale_def)
  have R: "\<forall>e \<in> req_entry ` set rs. fst e \<in> set mqSet" using rs by (auto simp: req_entry_def)
  show "{e \<in> tab w'. m_topic (fst e) \<noteq> topic} = {e \<in> tab w. m_topic (fst e) \<noteq> topic}"
    using en(3) D(1) R assms(4) by auto
  show "\<forall>e \<in> tab w'. m_topic (fst e) = topic \<longrightarrow> fst e \<in> set mqSet" using en(3) D(2) R by auto
  show "\<forall>mq \<in> set mqSet. mq \<in> fst ` tab w' \<or> (\<exists>st off. fst (computePullFromWhere env mq st) = Inr off \<and> off < 0)"
    using cov ex by simp
  show "\<forall>e \<in> tab w - tab w'. w_pqs w' (snd e) = map_option (setDroped True) (w_pqs w (snd e))" using en(2,4) by simp
  show "\<forall>e \<in> tab w \<inter> tab w'. w_pqs w' (snd e) = w_pqs w (snd e)" using en(2,5) by auto
  have "w_dispatched u = w_dispatched w" using rm ad by (simp add: removes_def dropped_by_def added_def)
  moreover have "\<forall>r \<in> set rs. 0 \<le> pr_nextOffset r \<and> w_pqs u (pr_processQueue r) = Some (ProcessQueue_new (e_now env (pr_messageQueue r)))"
    using ad by (auto simp: added_def list_all_iff good_request_def)
  ultimately show "\<exists>new. w_dispatched w' = w_dispatched w @ new \<and> req_entry ` set new = tab w' - tab w \<and>
      (\<forall>r \<in> set new. 0 \<le> pr_nextOffset r \<and>
         w_pqs w' (pr_processQueue r) = Some (ProcessQueue_new (e_now env (pr_messageQueue r))))"
    using en(1) by (intro exI [of _ rs]) (simp add: w')
qed

text \<open>A consumer \<open>c1\<close>, alone in its group, that holds queue 0 of a topic with two queues.\<close>

definition sample_rb_env :: "rb_kind \<Rightarrow> (RemoteStore \<times> offset_send list) rb_env" where
  "sample_rb_env k =
     \<lparr>e_kind = k, e_store = remote_ops sample_env, e_consumeFromWhere = CONSUME_FROM_FIRST_OFFSET,
      e_consumeOrderly = False, e_timestamp = 0, e_hasListener = False, e_clientId = ''c1'',
      e_allocate = allocate_averagely, e_brokerAddr = (\<lambda>_. ''h:1''), e_masterAddr = (\<lambda>_ _. ''h:1''),
      e_consumerIds = (\<lambda>_ _. [''c1'']), e_lockBatch = (\<lambda>_ mqs. Inr (filter (\<lambda>mq. m_queueId mq = 0) mqs)),
      e_unlockBatch = (\<lambda>_ _. None), e_maxOffset = (\<lambda>_. Inr 0), e_searchOffset = (\<lambda>_ _. Inr 0), e_now = (\<lambda>_. 9)\<rparr>"

definition sample_rb :: "(RemoteStore \<times> offset_send list) rebalance" where
  "sample_rb =
     \<lparr>m_processQueueTable = [(sample_mq 0, 0), (sample_mq 1, 1)], m_brokerMaster = [], m_downBrokerName = [],
      m_topicSubscribeInfoTable = [(''T'', [sample_mq 0, sample_mq 1])],
      m_subscriptionInner = [(''T'', SubscriptionData_make 0 ''T'' ''*'')], m_consumerGroup = ''g'', m_messageModel = CLUSTERING,
      w_pqs = [0 \<mapsto> ProcessQueue_new 0, 1 \<mapsto> ProcessQueue_new 0], w_next = 2, w_store = (sample_remote, []), w_dispatched = [],
      w_unlocked = [], w_changed = []\<rparr>"

lemma sample_rb_wf: "rb_wf sample_rb"
  by (auto simp: rb_wf_def sample_rb_def sample_mq_ok sample_mq_lt inj_on_def)

lemma sample_mq_topic: "m_topic (sample_mq i) = ''T''" "m_brokerName (sample_mq i) = ''b''" "m_queueId (sample_mq i) = i"
  by (simp_all add: sample_mq_def mq_make_def)

theorem rebalance_installs_assignment_witness:
  "updateProcessQueueTableInRebalance (sample_rb_env Push) ''T'' [sample_mq 1, sample_mq 2] sample_rb \<noteq> UB"
  by (rule rebalance_installs_assignment [OF sample_rb_wf, THEN conjunct1])
    (simp_all add: sample_rb_env_def sample_mq_ok sample_mq_lt sample_mq_topic)



text \<open>
  A topic whose route has no readable queue makes a clustering consumer read an uninitialised pointer: the
  averaging strategy throws on an empty queue list, the handler only logs, and \<open>allocateResult\<close> is used although
  it was never assigned.
\<close>

theorem rebalance_empty_route_undefined:
  assumes "e_allocate env = allocate_averagely" "m_messageModel w = CLUSTERING"
    and "map_find str_lt topic (m_topicSubscribeInfoTable w) = Some []" "e_consumerIds env topic (m_consumerGroup w) \<noteq> []"
  shows "rebalanceByTopic env topic w = UB"
proof -
  have "\<exists>e. allocate_averagely cid [] cids = AllocThrows e" for cid cids
    by (simp add: allocate_averagely_def)
  then obtain e where "e_allocate env (e_clientId env) [] (sort_cids (e_consumerIds env topic (m_consumerGroup w))) = AllocThrows e"
    using assms(1) by metis
  with assms(2-4) show ?thesis by (simp add: rebalanceByTopic_def Let_def)
qed

theorem rebalance_empty_route_undefined_witness:
  "rebalanceByTopic (sample_rb_env Push) ''T'' (sample_rb\<lparr>m_topicSubscribeInfoTable := [(''T'', [])]\<rparr>) = UB"
  by (rule rebalance_empty_route_undefined) (simp_all add: sample_rb_env_def sample_rb_def str_lt_irrefl)

text \<open>
  A pull consumer keeps dangling pointers: \<open>RebalancePullImpl::dispatchPullRequest\<close> deletes each request and
  with it the process queue that the table was just given, so after a queue has been assigned, taking the
  assignment away again calls \<open>setDroped\<close> on freed memory.
\<close>

theorem pull_rebalance_use_after_free:
  assumes "rb_wf w" "e_kind env = Pull" "set_wf mq_lt mq_ok mqSet" "mq \<in> set mqSet" "mq \<notin> fst ` tab w" "m_topic mq = topic"
  shows "\<exists>c w1. updateProcessQueueTableInRebalance env topic mqSet w = Ret (c, w1) \<and> mq \<in> fst ` tab w1 \<and>
    updateProcessQueueTableInRebalance env topic [] w1 = UB"
proof (rule update_loops [OF assms(1,3), of env topic])
  fix c v D ex rs c' u
  assume rm: "removes topic mqSet (tab w) w v D" and al: "add_loop env mqSet [] c v = (ex, rs, c', u)" and ad: "added env v rs u"
    and cov: "ex = None \<longrightarrow> (\<forall>mq \<in> set mqSet. mq \<in> fst ` tab u \<or> (\<exists>st off. fst (computePullFromWhere env mq st) = Inr off \<and> off < 0))"
    and up: "updateProcessQueueTableInRebalance env topic mqSet w =
      (case ex of Some e \<Rightarrow> Threw e (c', u) | None \<Rightarrow> Ret (c', dispatchPullRequest env rs u))"
  have cp: "computePullFromWhere env mq st = (Inr 0, st)" for mq st using assms(2) by (simp add: computePullFromWhere_def)
  have ex: "ex = None" using add_loop_no_throw [of env mqSet "[]" c v] al cp by simp
  define w1 where "w1 = fold delete_request rs u"
  have r: "updateProcessQueueTableInRebalance env topic mqSet w = Ret (c', w1)"
    using up ex assms(2) by (simp add: dispatchPullRequest_def w1_def)
  have t: "m_processQueueTable w1 = m_processQueueTable u" by (simp add: w1_def delete_requests)
  obtain p where p: "(mq, p) \<in> tab u" using cov ex assms(4) cp by force
  then have "(mq, p) \<in> tab u - tab w" using assms(5) by force
  then obtain q where "q \<in> set rs" "pr_processQueue q = p"
    using update_entries(1) [OF assms(1) rm ad] by (auto simp: req_entry_def)
  then have "w_pqs w1 p = None" using delete_requests(2) by (auto simp: w1_def)
  then have "updateProcessQueueTableInRebalance env topic [] w1 = UB"
    using remove_loop_dangling [of mq p "m_processQueueTable w1" topic w1 env False] p t assms(6)
    by (simp add: updateProcessQueueTableInRebalance_def)
  with r p t show ?thesis by force
qed

theorem pull_rebalance_use_after_free_witness:
  "\<exists>c w1. updateProcessQueueTableInRebalance (sample_rb_env Pull) ''T'' [sample_mq 2] sample_rb = Ret (c, w1) \<and>
    sample_mq 2 \<in> fst ` tab w1 \<and> updateProcessQueueTableInRebalance (sample_rb_env Pull) ''T'' [] w1 = UB"
  by (rule pull_rebalance_use_after_free [OF sample_rb_wf])
    (simp_all add: sample_rb_env_def sample_mq_ok sample_mq_topic sample_rb_def, simp add: sample_mq_def mq_make_def)

lemma lockAll_effect:
  assumes "rb_wf w" "broker_answers env"
  shows "\<exists>w'. rb_lockAll env w = Some w' \<and> w' = w\<lparr>w_pqs := w_pqs w'\<rparr> \<and>
    (\<forall>e \<in> tab w. \<exists>mqs. set_wf mq_lt mq_ok mqs \<and>
       set mqs = {mq \<in> fst ` tab w. m_brokerName mq = m_brokerName (fst e)} \<and>
       w_pqs w' (snd e) = map_option (lock_effect env mqs (fst e)) (w_pqs w (snd e)))"
proof -
  define G where "G = buildProcessQueueTableByBrokerName w"
  have g: "groups (fst ` tab w) G" using build_groups [OF assms(1)] by (simp add: G_def)
  then have gs: "map_wf str_lt any_key G"
    "\<And>b mqs. (b, mqs) \<in> set G \<Longrightarrow> set_wf mq_lt mq_ok mqs \<and> set mqs = {mq \<in> fst ` tab w. m_brokerName mq = b}"
    unfolding groups_def by (simp, blast)
  have "map_wf str_lt any_key G"
    "\<forall>(b, mqs) \<in> set G. set_wf mq_lt mq_ok mqs \<and> (\<forall>mq \<in> set mqs. m_brokerName mq = b)"
    "\<forall>(b, mqs) \<in> set G. \<forall>mq \<in> fst ` tab w. m_brokerName mq = b \<longrightarrow> mq \<in> set mqs"
    using gs by (simp, fast, fast)
  from lock_brokers_spec [OF assms(1,2) this] obtain w' where l: "lock_brokers env G w = Some w'"
    and c: "pqs_changed (\<lambda>mq. case map_of G (m_brokerName mq) of None \<Rightarrow> id | Some mqs \<Rightarrow> lock_effect env mqs mq) w w'"
    by blast
  have "\<exists>mqs. set_wf mq_lt mq_ok mqs \<and> set mqs = {mq \<in> fst ` tab w. m_brokerName mq = m_brokerName (fst e)} \<and>
       w_pqs w' (snd e) = map_option (lock_effect env mqs (fst e)) (w_pqs w (snd e))" if e: "e \<in> tab w" for e
  proof -
    have "m_brokerName (fst e) \<in> fst ` set G" using g e by (auto simp: groups_def)
    then obtain mqs where m: "map_of G (m_brokerName (fst e)) = Some mqs" by (metis map_of_eq_None_iff not_None_eq)
    then have "(m_brokerName (fst e), mqs) \<in> set G" by (rule map_of_SomeD)
    then have "set_wf mq_lt mq_ok mqs" "set mqs = {mq \<in> fst ` tab w. m_brokerName mq = m_brokerName (fst e)}"
      using gs(2) by simp_all
    moreover have "w_pqs w' (snd e) = map_option (lock_effect env mqs (fst e)) (w_pqs w (snd e))"
      using c e m by (simp add: pqs_changed_def)
    ultimately show ?thesis by blast
  qed
  moreover have "w' = w\<lparr>w_pqs := w_pqs w'\<rparr>" using c by (simp add: pqs_changed_def)
  ultimately show ?thesis using l by (auto simp: rb_lockAll_def G_def)
qed

text \<open>
  C17. \<open>lockAll\<close> makes the lock state of every queue in the table what its broker answered: with \<open>mqs\<close> the queues
  of the table on the same broker, a queue is locked with a fresh time stamp exactly when the broker granted it,
  unlocked when the broker answered without it, and untouched when the broker is unknown or the call failed.
  Nothing else changes.
\<close>

theorem lockAll_exact:
  assumes "rb_wf w" "broker_answers env"
  shows "\<exists>w'. rb_lockAll env w = Some w' \<and> w' = w\<lparr>w_pqs := w_pqs w'\<rparr> \<and>
    (\<forall>e \<in> tab w. \<exists>mqs. set_wf mq_lt mq_ok mqs \<and>
       set mqs = {mq \<in> fst ` tab w. m_brokerName mq = m_brokerName (fst e)} \<and>
       w_pqs w' (snd e) = map_option (lock_effect env mqs (fst e)) (w_pqs w (snd e)))"
  by (rule lockAll_effect [OF assms])

lemma set_wf_filter: "set_wf lt ok s \<Longrightarrow> set_wf lt ok (filter P s)"
  by (induction s) auto

theorem lockAll_exact_witness:
  "\<exists>w'. rb_lockAll (sample_rb_env Push) sample_rb = Some w' \<and> w' = sample_rb\<lparr>w_pqs := w_pqs w'\<rparr>"
proof -
  have "broker_answers (sample_rb_env Push)"
    by (auto simp: broker_answers_def sample_rb_env_def set_wf_filter)
  from lockAll_exact [OF sample_rb_wf this] show ?thesis by blast
qed

lemma truncate_loop_store: "truncate_loop subTable rest w = Some w' \<Longrightarrow> w_store w' = w_store w"
  by (induction rest arbitrary: w) (auto simp: upd_pq_def split: option.splits)

text \<open>
  C18. A queue that a rebalance takes away reports its progress first: with the remote store, dropping a queue whose
  progress is known in memory and whose broker's address is known sends that offset to the broker and then forgets
  it, so the next owner starts from it. The other way out of the table does not: \<open>truncateMessageQueueNotMyTopic\<close>, which
  removes the queues of topics no longer subscribed, leaves the store alone, so it sends nothing.
\<close>

theorem dropped_queue_reports_progress:
  assumes "rb_wf w" "(mq, p) \<in> tab w" "e_store env = remote_ops benv" "w_store w = (s, sent)"
    and "mq_tab (r_offsetTable s)" "mq_find mq (r_offsetTable s) = Some off" "broker_addr benv mq \<noteq> []"
  shows "(\<exists>w' s'. drop_queue env mq p w = Some w' \<and>
    w_store w' = (s', sent @ [(broker_addr benv mq, r_groupName s, mq, off)]) \<and> mq_find mq (r_offsetTable s') = None) \<and>
    (\<forall>w'. truncateMessageQueueNotMyTopic w = Some w' \<longrightarrow> w_store w' = (s, sent))"
proof -
  obtain pq where pq: "w_pqs w p = Some pq" using assms(1,2) by (force simp: rb_wf_def)
  have "mq_find mq (map_erase mq_lt mq (r_offsetTable s)) = None"
    using mq.find_erase [OF assms(5) rb_wf_ok [OF assms(1,2)] rb_wf_ok [OF assms(1,2)]] by simp
  moreover have "w_store (removeUnnecessaryMessageQueue env mq v) =
      (remote_removeOffset mq s, sent @ [(broker_addr benv mq, r_groupName s, mq, off)])" if "w_store v = (s, sent)" for v
    using assms(3,6,7) that
    by (simp add: removeUnnecessaryMessageQueue_def rb_unlock_def remote_ops_def remote_persist_def
        updateConsumeOffsetToBroker_def Let_def split: rb_kind.splits)
  ultimately have "\<exists>w' s'. drop_queue env mq p w = Some w' \<and>
      w_store w' = (s', sent @ [(broker_addr benv mq, r_groupName s, mq, off)]) \<and> mq_find mq (r_offsetTable s') = None"
    using pq assms(4) by (simp add: drop_queue_def upd_pq_def Let_def remote_removeOffset_def)
  then show ?thesis using assms(4) by (simp add: truncateMessageQueueNotMyTopic_def truncate_loop_store)
qed

theorem dropped_queue_reports_progress_witness:
  "\<exists>w' s'. drop_queue (sample_rb_env Push) (sample_mq 0) 0 sample_rb = Some w' \<and>
    w_store w' = (s', [] @ [(broker_addr sample_env (sample_mq 0), r_groupName sample_remote, sample_mq 0, 5)]) \<and>
    mq_find (sample_mq 0) (r_offsetTable s') = None"
  by (rule dropped_queue_reports_progress [OF sample_rb_wf _ _ _ sample_tabs(1), THEN conjunct1])
    (simp_all add: sample_rb_def sample_rb_env_def sample_remote_def sample_env_def broker_addr_def sample_mq_lt)

end
