(* ===== verification/Offset_API.thy ===== *)
theory Offset_API
  imports Rebalance
begin

text \<open>
  The offset calls of \<open>MQClientAPIImpl\<close> (\<open>src/src/MQClientAPIImpl.cpp\<close>): \<open>queryConsumerOffset\<close>,
  \<open>getMaxOffset\<close>, \<open>searchOffset\<close> and the wrappers of \<open>MQAdminImpl\<close>. The transport is the argument
  \<open>invoke\<close>: what \<open>RemotingClient::invokeSync\<close> returns for an address and a request, \<open>None\<close> for the null
  pointer it returns when the broker cannot be reached or does not answer in time. The outer \<open>None\<close> of
  a result is the buffer overflow of \<open>VirtualEnvUtil\<close>.
\<close>

record offset_response =
  resp_code :: int
  resp_remark :: string
  resp_offset :: int

datatype offset_request =
    QueryConsumerOffset string string int
  | GetMaxOffset string int
  | SearchOffset string int int

type_synonym offset_transport = "string \<Rightarrow> offset_request \<Rightarrow> offset_response option"

definition SUCCESS_VALUE :: int where "SUCCESS_VALUE = 0"

definition with_project :: "string \<Rightarrow> string \<Rightarrow> string option" where
  \<comment> \<open>\<open>if (!UtilAll::isBlank(m_projectGroupPrefix)) ... buildWithProjectGroup\<close>\<close>
  "with_project prefix s = (if \<not> isBlank prefix then buildWithProjectGroup s prefix else Some s)"

definition queryConsumerOffset :: "offset_transport \<Rightarrow> string \<Rightarrow> string \<Rightarrow> string \<Rightarrow> MessageQueue \<Rightarrow> (mq_exception + int) option" where
  "queryConsumerOffset invoke prefix addr grp mq =
     Option.bind (with_project prefix grp) (\<lambda>grp.
     Option.bind (with_project prefix (m_topic mq)) (\<lambda>topic.
       Some (case invoke addr (QueryConsumerOffset grp topic (m_queueId mq)) of
               Some response \<Rightarrow>
                 if resp_code response = SUCCESS_VALUE then Inr (resp_offset response)
                 else Inl (MQBrokerException (resp_remark response) (resp_code response))
             | None \<Rightarrow> Inr 0)))"

definition getMaxOffset :: "offset_transport \<Rightarrow> string \<Rightarrow> string \<Rightarrow> MessageQueue \<Rightarrow> (mq_exception + int) option" where
  "getMaxOffset invoke prefix addr mq =
     Option.bind (with_project prefix (m_topic mq)) (\<lambda>topic.
       Some (case invoke addr (GetMaxOffset topic (m_queueId mq)) of
               Some response \<Rightarrow>
                 if resp_code response = SUCCESS_VALUE then Inr (resp_offset response)
                 else Inl (MQClientException (resp_remark response) (resp_code response))
             | None \<Rightarrow> Inr 0))"

definition searchOffset :: "offset_transport \<Rightarrow> string \<Rightarrow> string \<Rightarrow> MessageQueue \<Rightarrow> int \<Rightarrow> (mq_exception + int) option" where
  "searchOffset invoke prefix addr mq timestamp =
     Option.bind (with_project prefix (m_topic mq)) (\<lambda>topic.
       Some (case invoke addr (SearchOffset topic (m_queueId mq) timestamp) of
               Some response \<Rightarrow>
                 if resp_code response = SUCCESS_VALUE then Inr (resp_offset response)
                 else Inl (MQClientException (resp_remark response) (resp_code response))
             | None \<Rightarrow> Inr 0))"

section \<open>MQAdminImpl\<close>

text \<open>\<open>addr\<close> is the address \<open>findBrokerAddressInPublish\<close> gives, after one route refresh when it is empty.\<close>

definition admin_wrap :: "string \<Rightarrow> MessageQueue \<Rightarrow> (mq_exception + int) option \<Rightarrow> (mq_exception + int) option" where
  "admin_wrap addr mq call =
     (if addr \<noteq> [] then
        map_option (\<lambda>r. case r of
            Inl (MQClientException _ _) \<Rightarrow> Inl (MQClientException (''Invoke Broker['' @ addr @ ''] exception'') (-1))
          | _ \<Rightarrow> r) call
      else Some (Inl (MQClientException (''The broker['' @ m_brokerName mq @ ''] not exist'') (-1))))"

definition admin_maxOffset :: "offset_transport \<Rightarrow> string \<Rightarrow> string \<Rightarrow> MessageQueue \<Rightarrow> (mq_exception + int) option" where
  "admin_maxOffset invoke prefix addr mq = admin_wrap addr mq (getMaxOffset invoke prefix addr mq)"

definition admin_searchOffset :: "offset_transport \<Rightarrow> string \<Rightarrow> string \<Rightarrow> MessageQueue \<Rightarrow> int \<Rightarrow> (mq_exception + int) option" where
  "admin_searchOffset invoke prefix addr mq timestamp = admin_wrap addr mq (searchOffset invoke prefix addr mq timestamp)"

section \<open>Claims\<close>

text \<open>The broker environment of a remote store over this API, for a client without a project prefix.\<close>

definition api_env :: "offset_transport \<Rightarrow> (string \<Rightarrow> string) \<Rightarrow> broker_env" where
  "api_env invoke addrs =
     \<lparr>addr_now = addrs, addr_refreshed = addrs,
      query_offset = (\<lambda>addr grp mq. case queryConsumerOffset invoke '''' addr grp mq of Some r \<Rightarrow> r | None \<Rightarrow> Inr 0),
      update_offset = (\<lambda>_ _ _ _. None)\<rparr>"

text \<open>
  A broker that does not answer resets the progress: \<open>queryConsumerOffset\<close> returns 0 when there is no
  response, the remote store takes it for the stored offset, overwrites what it knew, and the queue is pulled
  from offset 0 in every start mode.
\<close>

theorem no_answer_resets_progress:
  assumes "\<And>addr r. invoke addr r = None" "addrs (m_brokerName mq) \<noteq> []" "mq_tab (r_offsetTable s)" "mq_ok mq"
    and "e_kind env = Push" "e_store env = remote_ops (api_env invoke addrs)"
  shows "\<exists>s'. computePullFromWhere env mq (s, sent) = (Inr 0, (s', sent)) \<and> mq_find mq (r_offsetTable s') = Some 0"
proof -
  have q: "query_offset (api_env invoke addrs) addr grp mq = Inr 0" for addr grp
    by (simp add: api_env_def queryConsumerOffset_def with_project_def isBlank_def assms(1))
  have "broker_addr (api_env invoke addrs) mq \<noteq> []" using assms(2) by (simp add: broker_addr_def api_env_def Let_def)
  then have r: "remote_readOffset (api_env invoke addrs) mq READ_FROM_STORE s = (0, remote_updateOffset mq 0 False s)"
    by (simp add: remote_readOffset_def remote_readFromBroker_def fetchConsumeOffsetFromBroker_def Let_def q)
  have "mq_find mq (r_offsetTable (remote_updateOffset mq 0 False s)) = Some 0"
    using assms(3,4) by (auto simp: remote_updateOffset_def Let_def mq.find_put mq.put_wf split: option.splits)
  then show ?thesis
    using assms(5,6) r
    by (auto simp: computePullFromWhere_def push_computePullFromWhere_def remote_ops_def split: ConsumeFromWhere.splits)
qed

theorem no_answer_resets_progress_witness:
  "\<exists>s'. computePullFromWhere ((sample_rb_env Push)\<lparr>e_store := remote_ops (api_env (\<lambda>_ _. None) (\<lambda>_. ''h:1''))\<rparr>) (sample_mq 0)
      (sample_remote, []) = (Inr 0, (s', [])) \<and> mq_find (sample_mq 0) (r_offsetTable s') = Some 0"
  by (rule no_answer_resets_progress [of "\<lambda>_ _. None" "\<lambda>_. ''h:1''"])
    (simp_all add: sample_tabs sample_mq_ok sample_rb_env_def)

text \<open>
  Where a push consumer starts on a queue when the broker does answer: the stored offset when there is one;
  when the broker reports that the group has none, the end of the queue, offset 0 or the offset of the given
  time, by start mode, except that a retry topic starts at 0 (last offset mode) or at its end (timestamp mode);
  and -1, which leaves the queue out of this rebalance, on any other failure.
\<close>

theorem computePullFromWhere_answers:
  assumes "e_kind env = Push" "so_readOffset (e_store env) mq READ_FROM_STORE st = (lastOffset, st')" "lastOffset \<ge> -2"
    and "\<And>e. e_maxOffset env mq = Inl e \<Longrightarrow> \<exists>m c. e = MQClientException m c"
    and "\<And>e t. e_searchOffset env mq t = Inl e \<Longrightarrow> \<exists>m c. e = MQClientException m c"
  shows "computePullFromWhere env mq st =
    (Inr (if lastOffset \<ge> 0 then lastOffset
          else if lastOffset = -2 then -1
          else case e_consumeFromWhere env of
                 CONSUME_FROM_FIRST_OFFSET \<Rightarrow> 0
               | CONSUME_FROM_LAST_OFFSET \<Rightarrow>
                   if is_retry_topic mq then 0 else (case e_maxOffset env mq of Inr v \<Rightarrow> v | Inl _ \<Rightarrow> -1)
               | CONSUME_FROM_TIMESTAMP \<Rightarrow>
                   (case (if is_retry_topic mq then e_maxOffset env mq else e_searchOffset env mq (e_timestamp env)) of
                      Inr v \<Rightarrow> v | Inl _ \<Rightarrow> -1)), st')"
proof -
  have c: "catch_client r = Inr (case r of Inr v \<Rightarrow> v | Inl _ \<Rightarrow> -1)" if "\<And>e. r = Inl e \<Longrightarrow> \<exists>m c. e = MQClientException m c" for r
    using that by (cases r) (auto simp: catch_client_def)
  note cm = c [OF assms(4)] and cs = c [OF assms(5)]
  have "lastOffset \<ge> 0 \<or> lastOffset = -1 \<or> lastOffset = -2" using assms(3) by linarith
  then show ?thesis
    using assms(1,2) cm cs
    by (cases "e_consumeFromWhere env") (auto simp: computePullFromWhere_def push_computePullFromWhere_def)
qed

theorem computePullFromWhere_answers_witness:
  "computePullFromWhere (sample_rb_env Push) (sample_mq 0) (sample_remote, []) =
     (Inr 0, (remote_updateOffset (sample_mq 0) 0 False sample_remote, []))"
  by (subst computePullFromWhere_answers [where lastOffset = 0 and st' = "(remote_updateOffset (sample_mq 0) 0 False sample_remote, [])"])
    (simp_all add: sample_rb_env_def remote_ops_def sample_env_def remote_readOffset_def remote_readFromBroker_def
      fetchConsumeOffsetFromBroker_def broker_addr_def)

end
