(* ===== verification/Client_Factory.thy ===== *)
theory Client_Factory
  imports Topic_Route Offset_API
begin

text \<open>
  \<open>MQClientFactory\<close> (\<open>src/src/MQClientFactory.cpp\<close>): the object all producers and consumers of a client share. It
  keeps who is registered, the routes the name server gave and the broker addresses, and passes routes on to the
  registered producers and consumers. Registered objects are reached by pointer: the tables hold addresses, the
  objects are in \<open>f_producers\<close> and \<open>f_consumers\<close>. The parts of \<open>DefaultMQProducerImpl\<close>,
  \<open>DefaultMQPushConsumerImpl\<close> and \<open>DefaultMQPullConsumerImpl\<close> the factory calls through the interfaces
  \<open>MQProducerInner\<close> and \<open>MQConsumerInner\<close> are here too.

  The mutexes are not recursive: \<open>held\<close> says that the calling thread already holds \<open>m_consumerTableLock\<close>, and
  locking it again is \<open>Deadlocks\<close>. What the name server answers, and whether \<open>m_lockNamesrv\<close> is obtained in time, is
  in the environment. \<open>Undefined\<close> is a failed assertion of the JSON library or undefined behaviour.
\<close>

datatype ServiceState = CREATE_JUST | RUNNING | SHUTDOWN_ALREADY | START_FAILED

section \<open>Producers and consumers as the factory sees them\<close>

record producer =
  p_serviceState :: ServiceState
  m_topicPublishInfoTable :: "(string, TopicPublishInfo) smap"
  p_producerGroup :: string
  p_createTopicKey :: string
  p_defaultTopicQueueNums :: int
  p_sendMsgTimeout :: int
  p_compressMsgBodyOverHowmuch :: int
  p_retryAnotherBrokerWhenNotStoreOK :: bool
  p_maxMessageSize :: int

record 's consumer =
  k_kind :: rb_kind
  k_serviceState :: ServiceState
  k_registerTopics :: "string list"
  k_consumeFromWhere :: ConsumeFromWhere
  k_rebalance :: "'s rebalance"

definition getPublishTopicList :: "producer \<Rightarrow> string list" where
  "getPublishTopicList p = fold (\<lambda>(topic, _). set_put str_lt topic) (m_topicPublishInfoTable p) []"

definition isPublishTopicNeedUpdate :: "string \<Rightarrow> producer \<Rightarrow> bool" where
  "isPublishTopicNeedUpdate topic p =
     (case map_find str_lt topic (m_topicPublishInfoTable p) of Some info \<Rightarrow> \<not> publish_ok info | None \<Rightarrow> True)"

text \<open>The argument is a reference: its counter is overwritten too.\<close>

definition updateTopicPublishInfo :: "string \<Rightarrow> TopicPublishInfo \<Rightarrow> producer \<Rightarrow> TopicPublishInfo \<times> producer" where
  "updateTopicPublishInfo topic info p =
     (let info = (case map_find str_lt topic (m_topicPublishInfoTable p) of
                    Some old \<Rightarrow> info\<lparr>m_sendWhichQueue := m_sendWhichQueue old\<rparr>
                  | None \<Rightarrow> info)
      in (info, p\<lparr>m_topicPublishInfoTable := map_put str_lt topic info (m_topicPublishInfoTable p)\<rparr>))"

fun pull_subscriptions :: "int \<Rightarrow> string \<Rightarrow> string list \<Rightarrow> SubscriptionData list \<Rightarrow> SubscriptionData list option" where
  "pull_subscriptions junk grp [] result = Some result"
| "pull_subscriptions junk grp (t # ts) result =
     (case buildSubscriptionData junk grp t of
        Some (Inr sd) \<Rightarrow> pull_subscriptions junk grp ts (set_put sd_lt (sd\<lparr>sd_subVersion := 0\<rparr>) result)
      | _ \<Rightarrow> None)"

definition subscriptions :: "int \<Rightarrow> 's consumer \<Rightarrow> SubscriptionData list option" where
  \<comment> \<open>\<open>None\<close>: the pull consumer follows a null pointer\<close>
  "subscriptions junk c =
     (case k_kind c of
        Push \<Rightarrow> Some (fold (\<lambda>(_, sd). set_put sd_lt sd) (m_subscriptionInner (k_rebalance c)) [])
      | Pull \<Rightarrow> pull_subscriptions junk (m_consumerGroup (k_rebalance c)) (k_registerTopics c) [])"

definition updateTopicSubscribeInfo :: "string \<Rightarrow> MessageQueue list \<Rightarrow> 's consumer \<Rightarrow> 's consumer" where
  "updateTopicSubscribeInfo topic info c =
     (if fst (hasSubscribe topic (k_rebalance c))
      then c\<lparr>k_rebalance := (k_rebalance c)\<lparr>m_topicSubscribeInfoTable :=
                map_put str_lt topic info (m_topicSubscribeInfoTable (k_rebalance c))\<rparr>\<rparr>
      else c)"

definition isSubscribeTopicNeedUpdate :: "string \<Rightarrow> 's consumer \<Rightarrow> bool" where
  "isSubscribeTopicNeedUpdate topic c =
     (if fst (hasSubscribe topic (k_rebalance c))
      then map_find str_lt topic (m_topicSubscribeInfoTable (k_rebalance c)) = None
      else False)"

section \<open>State\<close>

record 's factory =
  f_serviceState :: ServiceState
  f_clientId :: string
  m_producerTable :: "(string, nat) smap"
  m_consumerTable :: "(string, nat) smap"
  m_adminExtTable :: "(string, nat) smap"
  m_topicRouteTable :: "(string, TopicRouteData) smap"
  m_brokerAddrTable :: "(string, (int, string) smap) smap"
  f_producers :: "nat \<Rightarrow> producer"
  f_consumers :: "nat \<Rightarrow> 's consumer"

record factory_env =
  n_parse :: json_parser
  n_after :: string
  n_answer :: "string \<Rightarrow> RemotingCommand option"
  n_lockNamesrv :: bool
  n_projectGroupPrefix :: string

datatype 'a locked = Returned bool 'a | Deadlocks | Undefined

section \<open>Registration\<close>

definition registerConsumer :: "string \<Rightarrow> nat option \<Rightarrow> 's factory \<Rightarrow> bool \<times> 's factory" where
  "registerConsumer grp pConsumer f =
     (case pConsumer of None \<Rightarrow> (False, f)
      | Some a \<Rightarrow>
          if grp = [] then (False, f)
          else if map_find str_lt grp (m_consumerTable f) \<noteq> None then (False, f)
          else (True, f\<lparr>m_consumerTable := map_put str_lt grp a (m_consumerTable f)\<rparr>))"

definition registerProducer :: "string \<Rightarrow> nat option \<Rightarrow> 's factory \<Rightarrow> bool \<times> 's factory" where
  "registerProducer grp pProducer f =
     (case pProducer of None \<Rightarrow> (False, f)
      | Some a \<Rightarrow>
          if grp = [] then (False, f)
          else if map_find str_lt grp (m_producerTable f) \<noteq> None then (False, f)
          else (True, f\<lparr>m_producerTable := map_put str_lt grp a (m_producerTable f)\<rparr>))"

definition registerAdminExt :: "string \<Rightarrow> nat option \<Rightarrow> 's factory \<Rightarrow> bool \<times> 's factory" where
  "registerAdminExt grp pAdmin f =
     (case pAdmin of None \<Rightarrow> (False, f)
      | Some a \<Rightarrow>
          if grp = [] then (False, f)
          else if map_find str_lt grp (m_adminExtTable f) \<noteq> None then (False, f)
          else (True, f\<lparr>m_adminExtTable := map_put str_lt grp a (m_adminExtTable f)\<rparr>))"

definition unregisterAdminExt :: "string \<Rightarrow> 's factory \<Rightarrow> 's factory" where
  "unregisterAdminExt grp f = f\<lparr>m_adminExtTable := map_erase str_lt grp (m_adminExtTable f)\<rparr>"

definition selectProducer :: "string \<Rightarrow> 's factory \<Rightarrow> nat option" where
  "selectProducer grp f = map_find str_lt grp (m_producerTable f)"

definition selectConsumer :: "string \<Rightarrow> 's factory \<Rightarrow> nat option" where
  "selectConsumer grp f = map_find str_lt grp (m_consumerTable f)"

text \<open>The requests of \<open>unregisterClient\<close>: address, producer group, consumer group. Whether \<open>m_lockHeartbeat\<close> is
  free is an argument.\<close>

definition broker_addrs :: "'s factory \<Rightarrow> (int \<times> string) list" where
  \<comment> \<open>the addresses the loops over \<open>m_brokerAddrTable\<close> contact\<close>
  "broker_addrs f = filter (\<lambda>(_, addr). addr \<noteq> []) (concat (map snd (m_brokerAddrTable f)))"

definition unregisterClientWithLock :: "bool \<Rightarrow> string \<Rightarrow> string \<Rightarrow> 's factory \<Rightarrow> (string \<times> string \<times> string) list" where
  "unregisterClientWithLock free producerGroup consumerGroup f =
     (if free then map (\<lambda>(_, addr). (addr, producerGroup, consumerGroup)) (broker_addrs f) else [])"

definition unregisterConsumer :: "bool \<Rightarrow> string \<Rightarrow> 's factory \<Rightarrow> (string \<times> string \<times> string) list \<times> 's factory" where
  "unregisterConsumer free grp f =
     (let f = f\<lparr>m_consumerTable := map_erase str_lt grp (m_consumerTable f)\<rparr>
      in (unregisterClientWithLock free '''' grp f, f))"

definition unregisterProducer :: "bool \<Rightarrow> string \<Rightarrow> 's factory \<Rightarrow> (string \<times> string \<times> string) list \<times> 's factory" where
  "unregisterProducer free grp f =
     (let f = f\<lparr>m_producerTable := map_erase str_lt grp (m_producerTable f)\<rparr>
      in (unregisterClientWithLock free grp '''' f, f))"

section \<open>Broker addresses\<close>

definition findBrokerAddressInPublish :: "string \<Rightarrow> 's factory \<Rightarrow> string" where
  "findBrokerAddressInPublish brokerName f =
     (case map_find str_lt brokerName (m_brokerAddrTable f) of None \<Rightarrow> ''''
      | Some addrs \<Rightarrow> (case map_find ll_lt MASTER_ID addrs of None \<Rightarrow> '''' | Some a \<Rightarrow> a))"

text \<open>The scan starts at the master's entry, or at the end when there is none.\<close>

definition findBrokerAddressInAdmin :: "string \<Rightarrow> 's factory \<Rightarrow> string \<times> bool" where
  "findBrokerAddressInAdmin brokerName f =
     (case map_find str_lt brokerName (m_brokerAddrTable f) of None \<Rightarrow> ('''', False)
      | Some addrs \<Rightarrow>
          (case find (\<lambda>(_, a). a \<noteq> []) (dropWhile (\<lambda>(i, _). i \<noteq> MASTER_ID) addrs) of
             None \<Rightarrow> ('''', False)
           | Some (i, a) \<Rightarrow> (a, i \<noteq> MASTER_ID)))"

text \<open>\<open>None\<close>: \<open>begin()\<close> of an empty address table is followed.\<close>

definition findBrokerAddressInSubscribe :: "string \<Rightarrow> int \<Rightarrow> bool \<Rightarrow> 's factory \<Rightarrow> (string \<times> bool) option" where
  "findBrokerAddressInSubscribe brokerName brokerId onlyThisBroker f =
     (case map_find str_lt brokerName (m_brokerAddrTable f) of None \<Rightarrow> Some ('''', False)
      | Some addrs \<Rightarrow>
          (case map_find ll_lt (s32 brokerId) addrs of
             Some a \<Rightarrow> Some (a, brokerId \<noteq> MASTER_ID)
           | None \<Rightarrow>
               if \<not> onlyThisBroker
               then (case addrs of [] \<Rightarrow> None | (_, a) # _ \<Rightarrow> Some (a, brokerId \<noteq> MASTER_ID))
               else Some ('''', False)))"

definition findBrokerAddrByTopic :: "string \<Rightarrow> 's factory \<Rightarrow> string" where
  "findBrokerAddrByTopic topic f =
     (case map_find str_lt topic (m_topicRouteTable f) of None \<Rightarrow> ''''
      | Some r \<Rightarrow> (case m_brokerDatas r of [] \<Rightarrow> '''' | bd # _ \<Rightarrow> selectBrokerAddr bd))"

definition findBrokerNameByTopic :: "string \<Rightarrow> 's factory \<Rightarrow> string" where
  "findBrokerNameByTopic topic f =
     (case map_find str_lt topic (m_topicRouteTable f) of None \<Rightarrow> ''''
      | Some r \<Rightarrow> (case m_brokerDatas r of [] \<Rightarrow> '''' | bd # _ \<Rightarrow> bd_brokerName bd))"

definition findMasterBrokerAddrByTopicAndName :: "string \<Rightarrow> string \<Rightarrow> 's factory \<Rightarrow> string" where
  "findMasterBrokerAddrByTopicAndName topic brokerName f =
     (case map_find str_lt topic (m_topicRouteTable f) of None \<Rightarrow> ''''
      | Some r \<Rightarrow> (case broker_of brokerName (m_brokerDatas r) of None \<Rightarrow> '''' | Some bd \<Rightarrow> selectBrokerAddr bd))"

definition getAnExistTopicRouteData :: "string \<Rightarrow> 's factory \<Rightarrow> TopicRouteData" where
  "getAnExistTopicRouteData topic f =
     (case map_find str_lt topic (m_topicRouteTable f) of
        Some r \<Rightarrow> r | None \<Rightarrow> \<lparr>m_orderTopicConf = '''', m_queueDatas = [], m_brokerDatas = []\<rparr>)"

definition isBrokerAddrExistInTopicRouteTable :: "string \<Rightarrow> 's factory \<Rightarrow> bool" where
  "isBrokerAddrExistInTopicRouteTable addr f \<longleftrightarrow>
     list_ex (\<lambda>(_, r). list_ex (\<lambda>bd. list_ex (\<lambda>(_, a). str_find addr a \<noteq> None) (bd_brokerAddrs bd)) (m_brokerDatas r))
       (m_topicRouteTable f)"

definition cleanOfflineBroker :: "'s factory \<Rightarrow> 's factory" where
  "cleanOfflineBroker f =
     f\<lparr>m_brokerAddrTable := fold (\<lambda>(name, addrs) updated.
         let clone = filter (\<lambda>(_, addr). isBrokerAddrExistInTopicRouteTable addr f) addrs
         in if clone \<noteq> [] then map_put str_lt name clone updated else updated) (m_brokerAddrTable f) []\<rparr>"

section \<open>Routes from the name server\<close>

definition getDefaultTopicRouteInfoFromNameServer ::
  "factory_env \<Rightarrow> string \<Rightarrow> (mq_exception + TopicRouteData option) jres" where
  "getDefaultTopicRouteInfoFromNameServer env topic =
     (case n_answer env topic of None \<Rightarrow> JOk (Inr None)
      | Some response \<Rightarrow>
          (case (cmd_code response = SUCCESS_VALUE, cmd_body response) of
             (True, Some body) \<Rightarrow> jbind (route_Decode (n_parse env) (n_after env) body) (\<lambda>r. JOk (Inr r))
           | _ \<Rightarrow> JOk (Inl (MQClientException (cmd_remark response) (cmd_code response)))))"

definition getTopicRouteInfoFromNameServer ::
  "factory_env \<Rightarrow> string \<Rightarrow> (mq_exception + TopicRouteData option) jres" where
  "getTopicRouteInfoFromNameServer env topic =
     (case with_project (n_projectGroupPrefix env) topic of None \<Rightarrow> JAborts
      | Some topicWithProjectGroup \<Rightarrow> getDefaultTopicRouteInfoFromNameServer env topicWithProjectGroup)"

definition limit_queues :: "int \<Rightarrow> TopicRouteData \<Rightarrow> TopicRouteData" where
  "limit_queues nums r =
     r\<lparr>m_queueDatas := map (\<lambda>d. d\<lparr>qd_readQueueNums := min nums (qd_readQueueNums d),
                                  qd_writeQueueNums := min nums (qd_readQueueNums d)\<rparr>) (m_queueDatas r)\<rparr>"

definition fetch_route :: "factory_env \<Rightarrow> string \<Rightarrow> bool \<Rightarrow> producer option \<Rightarrow> (mq_exception + TopicRouteData option) jres" where
  "fetch_route env topic isDefault pDefaultMQProducer =
     (case (isDefault, pDefaultMQProducer) of
        (True, Some p) \<Rightarrow>
          jbind (getDefaultTopicRouteInfoFromNameServer env (p_createTopicKey p)) (\<lambda>r.
            JOk (case r of Inr (Some r) \<Rightarrow> Inr (Some (limit_queues (p_defaultTopicQueueNums p) r)) | _ \<Rightarrow> r))
      | _ \<Rightarrow> getTopicRouteInfoFromNameServer env topic)"

text \<open>Each registered object overwrites the answer of the one before it.\<close>

definition isNeedUpdateTopicRouteInfo :: "bool \<Rightarrow> string \<Rightarrow> 's factory \<Rightarrow> bool option" where
  "isNeedUpdateTopicRouteInfo held topic f =
     (let result = fold (\<lambda>(_, a) _. isPublishTopicNeedUpdate topic (f_producers f a)) (m_producerTable f) False
      in if held then None
         else Some (fold (\<lambda>(_, a) _. isSubscribeTopicNeedUpdate topic (f_consumers f a)) (m_consumerTable f) result))"

fun update_producers ::
  "string \<Rightarrow> TopicPublishInfo \<Rightarrow> (string, nat) smap \<Rightarrow> (nat \<Rightarrow> producer) \<Rightarrow> (nat \<Rightarrow> producer)" where
  "update_producers topic publishInfo [] ps = ps"
| "update_producers topic publishInfo ((_, a) # rest) ps =
     (let (publishInfo, p) = updateTopicPublishInfo topic publishInfo (ps a)
      in update_producers topic publishInfo rest (ps(a := p)))"

definition update_consumers ::
  "string \<Rightarrow> MessageQueue list \<Rightarrow> (string, nat) smap \<Rightarrow> (nat \<Rightarrow> 's consumer) \<Rightarrow> (nat \<Rightarrow> 's consumer)" where
  "update_consumers topic subscribeInfo table cs =
     fold (\<lambda>(_, a) cs. cs(a := updateTopicSubscribeInfo topic subscribeInfo (cs a))) table cs"

definition update_addrs :: "BrokerData list \<Rightarrow> (string, (int, string) smap) smap \<Rightarrow> (string, (int, string) smap) smap" where
  "update_addrs bds table = fold (\<lambda>bd. map_put str_lt (bd_brokerName bd) (bd_brokerAddrs bd)) bds table"

definition install_route :: "bool \<Rightarrow> bool \<Rightarrow> string \<Rightarrow> TopicRouteData \<Rightarrow> 's factory \<Rightarrow> 's factory locked" where
  "install_route held bLocked topic r f =
     (let f = f\<lparr>m_brokerAddrTable := update_addrs (m_brokerDatas r) (m_brokerAddrTable f)\<rparr> in
      case topicRouteData2TopicPublishInfo topic r of None \<Rightarrow> Undefined
      | Some publishInfo \<Rightarrow>
          let f = f\<lparr>f_producers := update_producers topic publishInfo (m_producerTable f) (f_producers f)\<rparr> in
          if \<not> bLocked \<and> held then Deadlocks
          else Returned True (f\<lparr>f_consumers := update_consumers topic (topicRouteData2TopicSubscribeInfo topic r)
                                   (m_consumerTable f) (f_consumers f),
                                m_topicRouteTable := map_put str_lt topic r (m_topicRouteTable f)\<rparr>))"

definition route_changed :: "bool \<Rightarrow> string \<Rightarrow> TopicRouteData \<Rightarrow> 's factory \<Rightarrow> bool option" where
  "route_changed held topic r f =
     (case map_find str_lt topic (m_topicRouteTable f) of None \<Rightarrow> Some True
      | Some old \<Rightarrow> if topicRouteDataIsChange old r then Some True else isNeedUpdateTopicRouteInfo held topic f)"

definition updateTopicRouteInfoFromNameServer ::
  "factory_env \<Rightarrow> bool \<Rightarrow> string \<Rightarrow> bool \<Rightarrow> producer option \<Rightarrow> bool \<Rightarrow> 's factory \<Rightarrow> 's factory locked" where
  "updateTopicRouteInfoFromNameServer env held topic isDefault pDefaultMQProducer bLocked f =
     (if \<not> n_lockNamesrv env then Returned False f
      else case fetch_route env topic isDefault pDefaultMQProducer of
        JAborts \<Rightarrow> Undefined
      | JThrows \<Rightarrow> Returned False f
      | JOk (Inl _) \<Rightarrow> Returned False f
      | JOk (Inr None) \<Rightarrow> Returned True f
      | JOk (Inr (Some r)) \<Rightarrow>
          (case route_changed held topic r f of None \<Rightarrow> Deadlocks
           | Some changed \<Rightarrow> if changed then install_route held bLocked topic r f else Returned True f))"

text \<open>All topics in use. \<open>None\<close> in \<open>used_topics\<close>: a null pointer in \<open>subscriptions\<close>.\<close>

fun consumer_topics :: "int \<Rightarrow> ('s consumer) list \<Rightarrow> string list \<Rightarrow> string list option" where
  "consumer_topics junk [] topicList = Some topicList"
| "consumer_topics junk (c # cs) topicList =
     (case subscriptions junk c of None \<Rightarrow> None
      | Some sds \<Rightarrow> consumer_topics junk cs (fold (\<lambda>sd. set_put str_lt (sd_topic sd)) sds topicList))"

definition used_topics :: "int \<Rightarrow> 's factory \<Rightarrow> string list option" where
  "used_topics junk f =
     map_option (\<lambda>topicList. fold (\<lambda>(_, a). fold (set_put str_lt) (getPublishTopicList (f_producers f a))) (m_producerTable f) topicList)
       (consumer_topics junk (map (\<lambda>(_, a). f_consumers f a) (m_consumerTable f)) [])"

fun update_topics :: "factory_env \<Rightarrow> bool \<Rightarrow> bool \<Rightarrow> string list \<Rightarrow> 's factory \<Rightarrow> 's factory locked" where
  "update_topics env held bLocked [] f = Returned True f"
| "update_topics env held bLocked (t # ts) f =
     (case updateTopicRouteInfoFromNameServer env held t False None bLocked f of
        Returned _ f \<Rightarrow> update_topics env held bLocked ts f
      | r \<Rightarrow> r)"

definition updateTopicRouteInfoFromNameServer_all :: "factory_env \<Rightarrow> int \<Rightarrow> bool \<Rightarrow> bool \<Rightarrow> 's factory \<Rightarrow> 's factory locked" where
  "updateTopicRouteInfoFromNameServer_all env junk held bLocked f =
     (if held then Deadlocks
      else case used_topics junk f of None \<Rightarrow> Undefined | Some ts \<Rightarrow> update_topics env held bLocked ts f)"

text \<open>The address \<open>getConsumerIdListByGroup\<close> is called with, if any.\<close>

definition consumer_ids_addr :: "factory_env \<Rightarrow> bool \<Rightarrow> string \<Rightarrow> 's factory \<Rightarrow> (string \<times> 's factory) locked" where
  "consumer_ids_addr env held topic f =
     (let brokerAddr = findBrokerAddrByTopic topic f in
      if brokerAddr = [] then
        (case updateTopicRouteInfoFromNameServer env held topic False None True f of
           Returned b f \<Rightarrow> Returned True (findBrokerAddrByTopic topic f, f)
         | Deadlocks \<Rightarrow> Deadlocks | Undefined \<Rightarrow> Undefined)
      else Returned True (brokerAddr, f))"

section \<open>Heartbeat\<close>

record ConsumerData =
  cd_groupName :: string
  cd_consumeType :: rb_kind
  cd_messageModel :: MessageModel
  cd_consumeFromWhere :: ConsumeFromWhere
  cd_subscriptionDataSet :: "SubscriptionData list"

definition cd_lt :: "ConsumerData \<Rightarrow> ConsumerData \<Rightarrow> bool" where
  "cd_lt a b \<longleftrightarrow> str_lt (cd_groupName a) (cd_groupName b)"

record HeartbeatData =
  m_clientID :: string
  m_producerDataSet :: "string list"
  m_consumerDataSet :: "ConsumerData list"

definition consumer_data :: "'s consumer \<Rightarrow> SubscriptionData list \<Rightarrow> ConsumerData" where
  "consumer_data c sds =
     \<lparr>cd_groupName = m_consumerGroup (k_rebalance c), cd_consumeType = k_kind c, cd_messageModel = m_messageModel (k_rebalance c),
      cd_consumeFromWhere = (case k_kind c of Push \<Rightarrow> k_consumeFromWhere c | Pull \<Rightarrow> CONSUME_FROM_LAST_OFFSET),
      cd_subscriptionDataSet = sds\<rparr>"

fun consumer_datas :: "int \<Rightarrow> ('s consumer) list \<Rightarrow> ConsumerData list \<Rightarrow> ConsumerData list option" where
  "consumer_datas junk [] ds = Some ds"
| "consumer_datas junk (c # cs) ds =
     (case subscriptions junk c of None \<Rightarrow> None
      | Some sds \<Rightarrow> consumer_datas junk cs (set_put cd_lt (consumer_data c sds) ds))"

definition prepareHeartbeatData :: "int \<Rightarrow> 's factory \<Rightarrow> HeartbeatData option" where
  "prepareHeartbeatData junk f =
     map_option (\<lambda>ds. \<lparr>m_clientID = f_clientId f,
         m_producerDataSet = fold (\<lambda>(grp, _). set_put str_lt grp) (m_producerTable f) [], m_consumerDataSet = ds\<rparr>)
       (consumer_datas junk (map (\<lambda>(_, a). f_consumers f a) (m_consumerTable f)) [])"

text \<open>Who gets which heartbeat.\<close>

definition sendHeartbeatToAllBroker :: "int \<Rightarrow> 's factory \<Rightarrow> (string \<times> HeartbeatData) list option" where
  "sendHeartbeatToAllBroker junk f =
     map_option (\<lambda>h.
       if m_producerDataSet h = [] \<and> m_consumerDataSet h = [] then []
       else map (\<lambda>(_, addr). (addr, h))
              (filter (\<lambda>(i, _). \<not> (m_consumerDataSet h = [] \<and> i \<noteq> MASTER_ID)) (broker_addrs f)))
       (prepareHeartbeatData junk f)"

definition sendHeartbeatToAllBrokerWithLock :: "bool \<Rightarrow> int \<Rightarrow> 's factory \<Rightarrow> (string \<times> HeartbeatData) list option" where
  "sendHeartbeatToAllBrokerWithLock free junk f = (if free then sendHeartbeatToAllBroker junk f else Some [])"

definition cleanBroker :: "bool \<Rightarrow> int \<Rightarrow> 's factory \<Rightarrow> ((string \<times> HeartbeatData) list \<times> 's factory) option" where
  "cleanBroker free junk f =
     (let f = cleanOfflineBroker f in map_option (\<lambda>sent. (sent, f)) (sendHeartbeatToAllBrokerWithLock free junk f))"

section \<open>Installing a route\<close>

abbreviation smap_wf :: "(string, 'v) smap \<Rightarrow> bool" where "smap_wf \<equiv> map_wf str_lt any_key"

definition f_wf :: "'s factory \<Rightarrow> bool" where
  "f_wf f \<longleftrightarrow> smap_wf (m_producerTable f) \<and> smap_wf (m_consumerTable f) \<and> smap_wf (m_topicRouteTable f) \<and> smap_wf (m_brokerAddrTable f)
   \<and> distinct (map snd (m_producerTable f)) \<and> distinct (map snd (m_consumerTable f))
   \<and> (\<forall>a \<in> snd ` set (m_producerTable f). smap_wf (m_topicPublishInfoTable (f_producers f a)))
   \<and> (\<forall>a \<in> snd ` set (m_consumerTable f). smap_wf (m_topicSubscribeInfoTable (k_rebalance (f_consumers f a)))
        \<and> smap_wf (m_subscriptionInner (k_rebalance (f_consumers f a))))"

text \<open>A producer after it was given the queues of \<open>info\<close>: its own counter stays.\<close>

definition published :: "string \<Rightarrow> TopicPublishInfo \<Rightarrow> producer \<Rightarrow> producer \<Rightarrow> bool" where
  "published topic info p p' \<longleftrightarrow>
     (\<exists>k. p' = p\<lparr>m_topicPublishInfoTable := map_put str_lt topic (info\<lparr>m_sendWhichQueue := k\<rparr>) (m_topicPublishInfoTable p)\<rparr>
        \<and> (\<forall>old. map_find str_lt topic (m_topicPublishInfoTable p) = Some old \<longrightarrow> k = m_sendWhichQueue old))"

lemma update_producers_spec:
  "distinct (map snd table) \<Longrightarrow>
   (\<forall>a. if a \<in> snd ` set table then published topic info (ps a) (update_producers topic (info\<lparr>m_sendWhichQueue := k\<rparr>) table ps a)
        else update_producers topic (info\<lparr>m_sendWhichQueue := k\<rparr>) table ps a = ps a)"
proof (induction table arbitrary: ps k)
  case (Cons e table)
  obtain g a where e: "e = (g, a)" by (cases e)
  define k' where "k' = (case map_find str_lt topic (m_topicPublishInfoTable (ps a)) of Some old \<Rightarrow> m_sendWhichQueue old | None \<Rightarrow> k)"
  define p where "p = (ps a)\<lparr>m_topicPublishInfoTable := map_put str_lt topic (info\<lparr>m_sendWhichQueue := k'\<rparr>) (m_topicPublishInfoTable (ps a))\<rparr>"
  have u: "updateTopicPublishInfo topic (info\<lparr>m_sendWhichQueue := k\<rparr>) (ps a) = (info\<lparr>m_sendWhichQueue := k'\<rparr>, p)"
    by (simp add: updateTopicPublishInfo_def Let_def p_def k'_def split: option.split)
  have pub: "published topic info (ps a) p" unfolding published_def p_def by (intro exI [of _ k']) (auto simp: k'_def)
  define ps' where "ps' = ps(a := p)"
  have ps': "ps' a = p" "b \<noteq> a \<Longrightarrow> ps' b = ps b" for b by (simp_all add: ps'_def)
  have eq: "update_producers topic (info\<lparr>m_sendWhichQueue := k\<rparr>) (e # table) ps
      = update_producers topic (info\<lparr>m_sendWhichQueue := k'\<rparr>) table ps'" by (simp add: e u ps'_def)
  have "distinct (map snd table)" and a: "a \<notin> snd ` set table" using Cons.prems e by auto
  note ih = Cons.IH [OF this(1), of ps' k']
  show ?case
  proof
    fix b
    show "if b \<in> snd ` set (e # table) then published topic info (ps b) (update_producers topic (info\<lparr>m_sendWhichQueue := k\<rparr>) (e # table) ps b)
        else update_producers topic (info\<lparr>m_sendWhichQueue := k\<rparr>) (e # table) ps b = ps b"
      unfolding eq using spec [OF ih, of b] pub a e ps' by (cases "b = a") (auto split: if_splits)
  qed
qed simp

lemma update_consumers_spec:
  "distinct (map snd table) \<Longrightarrow>
   update_consumers topic info table cs a
     = (if a \<in> snd ` set table then updateTopicSubscribeInfo topic info (cs a) else cs a)"
proof (induction table arbitrary: cs)
  case (Cons e table)
  obtain g b where e: "e = (g, b)" by (cases e)
  define cs' where "cs' = cs(b := updateTopicSubscribeInfo topic info (cs b))"
  have cs': "cs' b = updateTopicSubscribeInfo topic info (cs b)" "c \<noteq> b \<Longrightarrow> cs' c = cs c" for c by (simp_all add: cs'_def)
  have "update_consumers topic info (e # table) cs = update_consumers topic info table cs'"
    by (simp add: update_consumers_def e cs'_def)
  with Cons.IH [of cs'] Cons.prems e cs' show ?case by (cases "a = b") auto
qed (simp add: update_consumers_def)

lemma update_addrs_wf: "smap_wf table \<Longrightarrow> smap_wf (update_addrs bds table)"
  unfolding update_addrs_def by (rule str.fold_put_wf) (simp_all add: list_all_iff)

lemma update_addrs_find:
  "smap_wf table \<Longrightarrow> distinct (map bd_brokerName bds) \<Longrightarrow>
   map_find str_lt n (update_addrs bds table)
     = (case broker_of n bds of Some bd \<Rightarrow> Some (bd_brokerAddrs bd) | None \<Rightarrow> map_find str_lt n table)"
proof (induction bds arbitrary: table)
  case (Cons bd bds)
  let ?t = "map_put str_lt (bd_brokerName bd) (bd_brokerAddrs bd) table"
  have "smap_wf ?t" using Cons.prems by (simp add: str.put_wf)
  moreover have "update_addrs (bd # bds) table = update_addrs bds ?t" by (simp add: update_addrs_def)
  moreover have "broker_of (bd_brokerName bd) bds = None"
    using Cons.prems(2) by (simp add: broker_of_def find_None_iff) (metis imageI)
  ultimately show ?case using Cons.IH [of ?t] Cons.prems
    by (auto simp: str.find_put broker_of_def split: option.split)
qed (simp add: update_addrs_def broker_of_def)

definition route_installed :: "string \<Rightarrow> TopicRouteData \<Rightarrow> TopicPublishInfo \<Rightarrow> 's factory \<Rightarrow> 's factory \<Rightarrow> bool" where
  "route_installed topic r info f f' \<longleftrightarrow>
     (\<forall>t. map_find str_lt t (m_topicRouteTable f') = (if t = topic then Some r else map_find str_lt t (m_topicRouteTable f)))
   \<and> (\<forall>n. map_find str_lt n (m_brokerAddrTable f')
          = (case broker_of n (m_brokerDatas r) of Some bd \<Rightarrow> Some (bd_brokerAddrs bd) | None \<Rightarrow> map_find str_lt n (m_brokerAddrTable f)))
   \<and> (\<forall>a \<in> snd ` set (m_producerTable f). published topic info (f_producers f a) (f_producers f' a))
   \<and> (\<forall>a \<in> snd ` set (m_consumerTable f).
        f_consumers f' a = updateTopicSubscribeInfo topic (topicRouteData2TopicSubscribeInfo topic r) (f_consumers f a))
   \<and> m_producerTable f' = m_producerTable f \<and> m_consumerTable f' = m_consumerTable f"

lemma published_wf: "published topic info p p' \<Longrightarrow> smap_wf (m_topicPublishInfoTable p) \<Longrightarrow> smap_wf (m_topicPublishInfoTable p')"
  by (auto simp: published_def str.put_wf)

lemma subscribe_update_wf:
  "smap_wf (m_topicSubscribeInfoTable (k_rebalance c)) \<and> smap_wf (m_subscriptionInner (k_rebalance c)) \<Longrightarrow>
   smap_wf (m_topicSubscribeInfoTable (k_rebalance (updateTopicSubscribeInfo topic info c)))
   \<and> smap_wf (m_subscriptionInner (k_rebalance (updateTopicSubscribeInfo topic info c)))"
  by (auto simp: updateTopicSubscribeInfo_def str.put_wf)

lemma install_route_spec:
  assumes "f_wf f" "topicRouteData2TopicPublishInfo topic r = Some info" "held \<longrightarrow> bLocked"
    and "distinct (map bd_brokerName (m_brokerDatas r))"
  obtains f' where "install_route held bLocked topic r f = Returned True f'" "f_wf f'" "route_installed topic r info f f'"
proof -
  let ?ps = "update_producers topic info (m_producerTable f) (f_producers f)"
  let ?cs = "update_consumers topic (topicRouteData2TopicSubscribeInfo topic r) (m_consumerTable f) (f_consumers f)"
  define f' where "f' = f\<lparr>m_brokerAddrTable := update_addrs (m_brokerDatas r) (m_brokerAddrTable f), f_producers := ?ps,
    f_consumers := ?cs, m_topicRouteTable := map_put str_lt topic r (m_topicRouteTable f)\<rparr>"
  have w: "distinct (map snd (m_producerTable f))" "distinct (map snd (m_consumerTable f))" "smap_wf (m_brokerAddrTable f)"
    "smap_wf (m_topicRouteTable f)" using assms(1) by (auto simp: f_wf_def)
  have ps: "published topic info (f_producers f a) (?ps a)" if "a \<in> snd ` set (m_producerTable f)" for a
  proof -
    have "info\<lparr>m_sendWhichQueue := m_sendWhichQueue info\<rparr> = info" by simp
    then show ?thesis
      using update_producers_spec [OF w(1), of topic info "f_producers f" "m_sendWhichQueue info"] that by metis
  qed
  have cs: "?cs a = updateTopicSubscribeInfo topic (topicRouteData2TopicSubscribeInfo topic r) (f_consumers f a)"
    if "a \<in> snd ` set (m_consumerTable f)" for a
    using that by (simp only: update_consumers_spec [OF w(2)] if_True)
  have "install_route held bLocked topic r f = Returned True f'"
    using assms(2,3) by (auto simp: install_route_def Let_def f'_def)
  moreover have "route_installed topic r info f f'"
    using update_addrs_find [OF w(3) assms(4)] ps cs w(4) by (simp add: route_installed_def f'_def str.find_put)
  moreover have "f_wf f'"
  proof -
    have "\<forall>a \<in> snd ` set (m_consumerTable f). smap_wf (m_topicSubscribeInfoTable (k_rebalance (?cs a)))
        \<and> smap_wf (m_subscriptionInner (k_rebalance (?cs a)))"
    proof
      fix a assume a: "a \<in> snd ` set (m_consumerTable f)"
      with assms(1) have "smap_wf (m_topicSubscribeInfoTable (k_rebalance (f_consumers f a)))
        \<and> smap_wf (m_subscriptionInner (k_rebalance (f_consumers f a)))" unfolding f_wf_def by blast
      then show "smap_wf (m_topicSubscribeInfoTable (k_rebalance (?cs a))) \<and> smap_wf (m_subscriptionInner (k_rebalance (?cs a)))"
        unfolding cs [OF a] by (rule subscribe_update_wf)
    qed
    moreover have "\<forall>a \<in> snd ` set (m_producerTable f). smap_wf (m_topicPublishInfoTable (?ps a))"
      using assms(1) published_wf [OF ps] unfolding f_wf_def by blast
    ultimately show ?thesis using assms(1) update_addrs_wf [OF w(3)] by (simp add: f_wf_def f'_def str.put_wf)
  qed
  ultimately show thesis using that by blast
qed

text \<open>
  C21. When the name server gives a new route, the update returns and everybody has it: the
  topic's route, the address tables of its brokers, the queues of every registered producer (each keeping its own
  counter) and of every registered consumer that subscribes the topic; other topics, brokers and registrations are
  untouched, and the tables stay well formed.
\<close>

theorem route_update_installs:
  assumes "f_wf f" "n_lockNamesrv env" "fetch_route env topic isDefault p = JOk (Inr (Some r))"
    and "route_changed held topic r f = Some True" "topicRouteData2TopicPublishInfo topic r = Some info"
    and "held \<longrightarrow> bLocked" "distinct (map bd_brokerName (m_brokerDatas r))"
  shows "\<exists>f'. updateTopicRouteInfoFromNameServer env held topic isDefault p bLocked f = Returned True f'
    \<and> f_wf f' \<and> route_installed topic r info f f'"
proof -
  obtain f' where "install_route held bLocked topic r f = Returned True f'" "f_wf f'" "route_installed topic r info f f'"
    by (rule install_route_spec [OF assms(1,5,6,7)])
  with assms(2-4) show ?thesis by (simp add: updateTopicRouteInfoFromNameServer_def)
qed

definition sample_producer :: producer where
  "sample_producer = \<lparr>p_serviceState = RUNNING, m_topicPublishInfoTable = [(''T'', TopicPublishInfo_new)], p_producerGroup = ''PG'',
     p_createTopicKey = ''TBW102'', p_defaultTopicQueueNums = 4, p_sendMsgTimeout = 3000, p_compressMsgBodyOverHowmuch = 4096,
     p_retryAnotherBrokerWhenNotStoreOK = False, p_maxMessageSize = 131072\<rparr>"

definition sample_consumer :: "(RemoteStore \<times> offset_send list) consumer" where
  "sample_consumer = \<lparr>k_kind = Push, k_serviceState = RUNNING, k_registerTopics = [], k_consumeFromWhere = CONSUME_FROM_LAST_OFFSET,
     k_rebalance = sample_rb\<rparr>"

definition sample_factory :: "(RemoteStore \<times> offset_send list) factory" where
  "sample_factory = \<lparr>f_serviceState = RUNNING, f_clientId = ''ip@1'', m_producerTable = [(''PG'', 0)], m_consumerTable = [(''CG'', 0)],
     m_adminExtTable = [], m_topicRouteTable = [], m_brokerAddrTable = [], f_producers = (\<lambda>_. sample_producer),
     f_consumers = (\<lambda>_. sample_consumer)\<rparr>"

definition sample_ns :: factory_env where
  "sample_ns = \<lparr>n_parse = (\<lambda>_. Some (route_json sample_route)), n_after = '''',
     n_answer = (\<lambda>_. Some (command_make 0 ''JAVA'' 0 0 1 '''' None \<lparr>cmd_body := Some ''{}''\<rparr>)), n_lockNamesrv = True, n_projectGroupPrefix = ''''\<rparr>"

lemma sample_fetch: "fetch_route sample_ns topic False p = JOk (Inr (Some sample_route))"
proof -
  have "route_Decode (\<lambda>_. Some (route_json sample_route)) [] ''{}'' = JOk (Some sample_route)"
    by (rule Decode_route) (use sample_addrs_ok sample_counts_ok in auto)
  then show ?thesis
    by (simp add: fetch_route_def getTopicRouteInfoFromNameServer_def getDefaultTopicRouteInfoFromNameServer_def sample_ns_def
        with_project_def isBlank_def command_make_def SUCCESS_VALUE_def)
qed

lemma sample_f_wf: "f_wf sample_factory"
  by (simp add: f_wf_def sample_factory_def sample_producer_def sample_consumer_def sample_rb_def)

lemma sample_publish: "\<exists>info. topicRouteData2TopicPublishInfo topic sample_route = Some info"
  by (simp add: topicRouteData2TopicPublishInfo_def sample_route_def)

theorem route_update_installs_witness:
  "\<exists>f' info. updateTopicRouteInfoFromNameServer sample_ns False ''T'' False None False sample_factory = Returned True f'
    \<and> f_wf f' \<and> route_installed ''T'' sample_route info sample_factory f'"
proof -
  obtain info where i: "topicRouteData2TopicPublishInfo ''T'' sample_route = Some info" using sample_publish by blast
  have "route_changed False ''T'' sample_route sample_factory = Some True" by (simp add: route_changed_def sample_factory_def)
  moreover have "n_lockNamesrv sample_ns" "distinct (map bd_brokerName (m_brokerDatas sample_route))"
    by (simp_all add: sample_ns_def sample_route_def)
  ultimately show ?thesis
    using route_update_installs [OF sample_f_wf _ sample_fetch [of "''T''" None] _ i, of False False] by blast
qed

section \<open>Needs that are overlooked\<close>

lemma fold_last: "fold (\<lambda>x _. g x) (xs @ [y]) r = g y"
  by simp

text \<open>
  A producer that has no queues for a topic does not get them while the topic's route is
  unchanged and the consumer that comes last in the table needs nothing: the answers of the registered objects
  overwrite each other, so only the last one counts. The update reports success and the producer still has no queues.
\<close>

theorem producer_update_skipped:
  assumes "n_lockNamesrv env" "fetch_route env topic isDefault p = JOk (Inr (Some r))"
    and "map_find str_lt topic (m_topicRouteTable f) = Some old" "\<not> topicRouteDataIsChange old r"
    and "m_consumerTable f = rest @ [(grp, c)]" "\<not> isSubscribeTopicNeedUpdate topic (f_consumers f c)"
    and "isPublishTopicNeedUpdate topic (f_producers f a)"
  shows "\<exists>f'. updateTopicRouteInfoFromNameServer env False topic isDefault p bLocked f = Returned True f'
    \<and> isPublishTopicNeedUpdate topic (f_producers f' a)"
proof -
  have "isNeedUpdateTopicRouteInfo False topic f = Some False"
    using assms(5,6) by (simp add: isNeedUpdateTopicRouteInfo_def Let_def)
  with assms show ?thesis by (simp add: updateTopicRouteInfoFromNameServer_def route_changed_def)
qed

theorem producer_update_skipped_witness:
  "\<exists>f'. updateTopicRouteInfoFromNameServer sample_ns False ''T'' False None False
        (sample_factory\<lparr>m_topicRouteTable := [(''T'', sample_route)]\<rparr>) = Returned True f'
    \<and> isPublishTopicNeedUpdate ''T'' (f_producers f' 0)"
proof (rule producer_update_skipped [OF _ sample_fetch])
  show "m_consumerTable (sample_factory\<lparr>m_topicRouteTable := [(''T'', sample_route)]\<rparr>) = [] @ [(''CG'', 0)]" "n_lockNamesrv sample_ns"
    "map_find str_lt ''T'' (m_topicRouteTable (sample_factory\<lparr>m_topicRouteTable := [(''T'', sample_route)]\<rparr>)) = Some sample_route"
    by (simp_all add: sample_factory_def sample_ns_def)
  show "\<not> topicRouteDataIsChange sample_route sample_route" by (simp add: isChange_iff)
  show "\<not> isSubscribeTopicNeedUpdate ''T'' (f_consumers (sample_factory\<lparr>m_topicRouteTable := [(''T'', sample_route)]\<rparr>) 0)"
    "isPublishTopicNeedUpdate ''T'' (f_producers (sample_factory\<lparr>m_topicRouteTable := [(''T'', sample_route)]\<rparr>) 0)"
    by (simp_all add: sample_factory_def isSubscribeTopicNeedUpdate_def sample_consumer_def sample_rb_def isPublishTopicNeedUpdate_def
        sample_producer_def publish_ok_def TopicPublishInfo_new_def)
qed

section \<open>Locking\<close>

text \<open>The address lookup of the offset calls (\<open>fetchConsumeOffsetFromBroker\<close>, \<open>updateConsumeOffsetToBroker\<close>), which
  rebalancing and the periodic persisting run with \<open>m_consumerTableLock\<close> held.\<close>

definition admin_broker_addr :: "factory_env \<Rightarrow> bool \<Rightarrow> MessageQueue \<Rightarrow> 's factory \<Rightarrow> (string \<times> 's factory) locked" where
  "admin_broker_addr env held mq f =
     (let addr = fst (findBrokerAddressInAdmin (m_brokerName mq) f) in
      if addr = [] then
        (case updateTopicRouteInfoFromNameServer env held (m_topic mq) False None False f of
           Returned b f \<Rightarrow> Returned True (fst (findBrokerAddressInAdmin (m_brokerName mq) f), f)
         | Deadlocks \<Rightarrow> Deadlocks | Undefined \<Rightarrow> Undefined)
      else Returned True (addr, f))"

lemma held_update_deadlocks:
  assumes "n_lockNamesrv env" "fetch_route env topic isDefault p = JOk (Inr (Some r))"
    and "topicRouteData2TopicPublishInfo topic r \<noteq> None"
  shows "updateTopicRouteInfoFromNameServer env True topic isDefault p False f = Deadlocks"
  using assms by (auto simp: updateTopicRouteInfoFromNameServer_def route_changed_def isNeedUpdateTopicRouteInfo_def Let_def install_route_def
      split: option.splits)

lemma no_master_no_addr:
  assumes "map_find str_lt b (m_brokerAddrTable f) = Some addrs" "MASTER_ID \<notin> fst ` set addrs"
  shows "fst (findBrokerAddressInAdmin b f) = []"
proof -
  have "dropWhile (\<lambda>(i, _). i \<noteq> MASTER_ID) addrs = []" using assms(2) by (force simp: dropWhile_eq_Nil_conv)
  then show ?thesis unfolding findBrokerAddressInAdmin_def assms(1) by (simp del: dropWhile_eq_Nil_conv)
qed

text \<open>
  C24. A broker whose master is down stops the client. Rebalancing and persisting offsets hold
  \<open>m_consumerTableLock\<close> while they look up broker addresses; for a broker without a master the lookup finds nothing
  and asks for a new route, and passing that route on takes the same lock again, whether the route has changed or
  not. The lookup by topic passes the flag meant to prevent this, and deadlocks all the same when the route is
  unchanged.
\<close>

theorem rebalance_self_deadlock:
  assumes "n_lockNamesrv env" "fetch_route env (m_topic mq) False None = JOk (Inr (Some r))"
  shows "(\<forall>addrs. map_find str_lt (m_brokerName mq) (m_brokerAddrTable f) = Some addrs \<and> MASTER_ID \<notin> fst ` set addrs
        \<and> topicRouteData2TopicPublishInfo (m_topic mq) r \<noteq> None \<longrightarrow> admin_broker_addr env True mq f = Deadlocks)
    \<and> (\<forall>old. map_find str_lt (m_topic mq) (m_topicRouteTable f) = Some old \<and> \<not> topicRouteDataIsChange old r
        \<and> findBrokerAddrByTopic (m_topic mq) f = [] \<longrightarrow> consumer_ids_addr env True (m_topic mq) f = Deadlocks)"
proof (intro conjI allI impI)
  fix addrs
  assume a: "map_find str_lt (m_brokerName mq) (m_brokerAddrTable f) = Some addrs \<and> MASTER_ID \<notin> fst ` set addrs
        \<and> topicRouteData2TopicPublishInfo (m_topic mq) r \<noteq> None"
  then have "fst (findBrokerAddressInAdmin (m_brokerName mq) f) = []" using no_master_no_addr by blast
  moreover have "updateTopicRouteInfoFromNameServer env True (m_topic mq) False None False f = Deadlocks"
    using held_update_deadlocks [OF assms] a by blast
  ultimately show "admin_broker_addr env True mq f = Deadlocks" by (simp add: admin_broker_addr_def Let_def)
next
  fix old
  assume "map_find str_lt (m_topic mq) (m_topicRouteTable f) = Some old \<and> \<not> topicRouteDataIsChange old r
        \<and> findBrokerAddrByTopic (m_topic mq) f = []"
  with assms show "consumer_ids_addr env True (m_topic mq) f = Deadlocks"
    by (simp add: consumer_ids_addr_def Let_def updateTopicRouteInfoFromNameServer_def route_changed_def isNeedUpdateTopicRouteInfo_def)
qed

theorem rebalance_self_deadlock_witness:
  "admin_broker_addr sample_ns True (mq_make ''T'' ''b'' 0)
     (sample_factory\<lparr>m_brokerAddrTable := [(''b'', [(1, ''1.2.3.5:1'')])]\<rparr>) = Deadlocks"
proof -
  have "topicRouteData2TopicPublishInfo ''T'' sample_route \<noteq> None" using sample_publish [of "''T''"] by auto
  then show ?thesis
    using rebalance_self_deadlock [of sample_ns "mq_make ''T'' ''b'' 0" sample_route
        "sample_factory\<lparr>m_brokerAddrTable := [(''b'', [(1, ''1.2.3.5:1'')])]\<rparr>"] sample_fetch
    by (simp add: mq_make_def sample_ns_def MASTER_ID_def)
qed

section \<open>Offline brokers\<close>

lemma clean_find:
  assumes "smap_wf table"
  shows "map_find str_lt n (fold (\<lambda>(name, addrs) updated. if g addrs \<noteq> [] then map_put str_lt name (g addrs) updated else updated) table [])
    = (case map_find str_lt n table of None \<Rightarrow> None | Some addrs \<Rightarrow> if g addrs = [] then None else Some (g addrs))"
proof -
  let ?c = "\<lambda>(name, addrs) updated. if g addrs \<noteq> [] then map_put str_lt name (g addrs) updated else updated"
  have "smap_wf (fold ?c t acc) \<and> map_find str_lt n (fold ?c t acc)
      = (case map_of t n of Some addrs \<Rightarrow> if g addrs = [] then map_find str_lt n acc else Some (g addrs) | None \<Rightarrow> map_find str_lt n acc)"
    if "distinct (map fst t)" "smap_wf acc" "fst ` set t \<inter> fst ` set acc = {}" for t acc
    using that
  proof (induction t arbitrary: acc)
    case (Cons e t)
    obtain m addrs where e: "e = (m, addrs)" by (cases e)
    show ?case
    proof (cases "g addrs = []")
      case True
      have "map_find str_lt m acc = None" using Cons.prems e by (auto simp: str.find_None_iff)
      moreover have "map_of t m = None" using Cons.prems e by (auto simp: map_of_eq_None_iff)
      ultimately show ?thesis using Cons.IH [of acc] Cons.prems e True by (auto split: option.split)
    next
      case False
      let ?acc = "map_put str_lt m (g addrs) acc"
      have "fst ` set t \<inter> fst ` set ?acc = {}" using Cons.prems e by (auto simp: str.put_keys)
      moreover have "map_of t m = None" using Cons.prems e by (auto simp: map_of_eq_None_iff)
      ultimately show ?thesis using Cons.IH [of ?acc] Cons.prems e False by (auto simp: str.put_wf str.find_put split: option.split)
    qed
  qed simp
  from this [of table "[]"] show ?thesis
    using assms by (auto simp: str.wf_distinct str.find_map_of split: option.split)
qed

lemma clean_table:
  assumes "f_wf f"
  shows "map_find str_lt n (m_brokerAddrTable (cleanOfflineBroker f))
    = (case map_find str_lt n (m_brokerAddrTable f) of None \<Rightarrow> None
       | Some addrs \<Rightarrow> (let clone = filter (\<lambda>(_, addr). isBrokerAddrExistInTopicRouteTable addr f) addrs
                       in if clone = [] then None else Some clone))"
  using clean_find [of "m_brokerAddrTable f" n "filter (\<lambda>(_, addr). isBrokerAddrExistInTopicRouteTable addr f)"] assms
  unfolding cleanOfflineBroker_def f_wf_def Let_def by simp

definition routed :: "string \<Rightarrow> 's factory \<Rightarrow> bool" where
  "routed addr f \<longleftrightarrow> (\<exists>r \<in> snd ` set (m_topicRouteTable f). \<exists>bd \<in> set (m_brokerDatas r). addr \<in> snd ` set (bd_brokerAddrs bd))"

lemma str_find_self: "str_find a a \<noteq> None"
  by (cases a) (simp_all add: str_find.simps starts_with_def)

lemma routed_exists: "routed addr f \<Longrightarrow> isBrokerAddrExistInTopicRouteTable addr f"
  unfolding routed_def isBrokerAddrExistInTopicRouteTable_def list_ex_iff using str_find_self by fastforce

text \<open>
  Cleaning the broker table never loses an address that a current route lists, and leaves
  no broker without addresses; an address it keeps occurs in an address of some route.
\<close>

theorem cleanOfflineBroker_keeps_routed:
  assumes "f_wf f"
  shows "(\<forall>n addrs i a. map_find str_lt n (m_brokerAddrTable f) = Some addrs \<and> (i, a) \<in> set addrs \<and> routed a f
        \<longrightarrow> (\<exists>addrs'. map_find str_lt n (m_brokerAddrTable (cleanOfflineBroker f)) = Some addrs' \<and> (i, a) \<in> set addrs'))
    \<and> (\<forall>n addrs'. map_find str_lt n (m_brokerAddrTable (cleanOfflineBroker f)) = Some addrs'
        \<longrightarrow> addrs' \<noteq> [] \<and> (\<forall>a \<in> snd ` set addrs'. isBrokerAddrExistInTopicRouteTable a f))"
  using routed_exists by (auto simp: clean_table [OF assms] Let_def filter_empty_conv split: option.splits if_splits)

theorem cleanOfflineBroker_keeps_routed_witness:
  "\<exists>addrs'. map_find str_lt ''b'' (m_brokerAddrTable (cleanOfflineBroker (sample_factory\<lparr>m_topicRouteTable := [(''T'', sample_route)],
       m_brokerAddrTable := [(''b'', [(0, ''1.2.3.4:1''), (2, ''9.9.9.9:1'')])]\<rparr>))) = Some addrs' \<and> (0, ''1.2.3.4:1'') \<in> set addrs'"
proof -
  let ?f = "sample_factory\<lparr>m_topicRouteTable := [(''T'', sample_route)], m_brokerAddrTable := [(''b'', [(0, ''1.2.3.4:1''), (2, ''9.9.9.9:1'')])]\<rparr>"
  have "f_wf ?f" using sample_f_wf by (simp add: f_wf_def sample_factory_def)
  moreover have "routed ''1.2.3.4:1'' ?f" by (simp add: routed_def sample_route_def)
  ultimately show ?thesis
    using cleanOfflineBroker_keeps_routed [THEN conjunct1, rule_format, of ?f "''b''" _ 0 "''1.2.3.4:1''"] by simp
qed

section \<open>What a heartbeat says\<close>

lemma pull_subscriptions_topic:
  assumes "\<forall>sd \<in> set result. sd_topic sd = grp"
  shows "\<exists>sds. pull_subscriptions junk grp ts result = Some sds \<and> (\<forall>sd \<in> set sds. sd_topic sd = grp)"
  using assms
proof (induction ts arbitrary: result)
  case (Cons t ts)
  have tags: "sd_topic (fold add_tag out sd) = sd_topic sd" for out sd
    by (induction out arbitrary: sd) (simp_all add: add_tag_def Let_def)
  have "\<exists>sd. buildSubscriptionData junk grp t = Some (Inr sd) \<and> sd_topic sd = grp"
    using split_loop_Some [of "''||''" t] by (auto simp: buildSubscriptionData_def Let_def Util_All.Split_def tags SubscriptionData_new_def)
  then obtain sd where sd: "buildSubscriptionData junk grp t = Some (Inr sd)" "sd_topic sd = grp" by blast
  have sub: "set (set_put sd_lt x s) \<subseteq> insert x (set s)" for x s
    by (induction s) auto
  have "\<forall>s \<in> set (set_put sd_lt (sd\<lparr>sd_subVersion := 0\<rparr>) result). sd_topic s = grp"
    using sub [of "sd\<lparr>sd_subVersion := 0\<rparr>" result] Cons.prems sd(2) by auto
  from Cons.IH [OF this] sd(1) show ?case by simp
qed simp

text \<open>
  A pull consumer announces its consumer group in the place of every topic it registered:
  \<open>buildSubscriptionData\<close> is called with the group as topic and the topic as filter expression. So neither its
  heartbeat nor the periodic route update, which collects topics the same way, names any of its topics.
\<close>

theorem pull_consumer_announces_group:
  assumes "k_kind c = Pull"
  shows "\<exists>sds. subscriptions junk c = Some sds \<and> (\<forall>sd \<in> set sds. sd_topic sd = m_consumerGroup (k_rebalance c))"
  using pull_subscriptions_topic [of "[]"] assms by (simp add: subscriptions_def)

theorem pull_consumer_announces_group_witness:
  "\<exists>sds. subscriptions 0 (sample_consumer\<lparr>k_kind := Pull, k_registerTopics := [''T'']\<rparr>) = Some sds
    \<and> (\<forall>sd \<in> set sds. sd_topic sd = ''g'') \<and> ''g'' \<noteq> ''T''"
  using pull_consumer_announces_group [of "sample_consumer\<lparr>k_kind := Pull, k_registerTopics := [''T'']\<rparr>" 0]
  by (simp add: sample_consumer_def sample_rb_def)

end
