(* ===== verification/Producer.thy ===== *)
theory Producer
  imports Client_Factory
begin

text \<open>
  \<open>DefaultMQProducerImpl\<close> (\<open>src/src/producer/DefaultMQProducerImpl.cpp\<close>) and the send calls of
  \<open>MQClientAPIImpl\<close> (\<open>src/src/MQClientAPIImpl.cpp\<close>): how a message is sent and when a send is retried.

  The producer is the object at address \<open>a\<close> of the factory. Each attempt has its own \<open>send_round\<close>: what the name
  server answers, what \<open>invokeSync\<close> returns (\<open>None\<close>: no connection, the send failed, or no answer in time), the clock, and the
  uninitialised \<open>reconsumeTimes\<close> of the request header. \<open>s_tried\<close> logs the queues chosen, \<open>s_sent\<close> the requests. zlib is the argument
  \<open>compress\<close>. Hooks see the context and change nothing; they are left out.
\<close>

section \<open>Types\<close>

datatype CommunicationMode = SYNC | ASYNC | ONEWAY

datatype SendStatus = SEND_OK | FLUSH_DISK_TIMEOUT | FLUSH_SLAVE_TIMEOUT | SLAVE_NOT_AVAILABLE

record SendResult =
  m_sendStatus :: SendStatus
  m_msgId :: string
  m_messageQueue :: "MessageQueue option"
  m_queueOffset :: int

definition SendResult_new :: SendResult where
  \<comment> \<open>the other members are not initialised\<close>
  "SendResult_new = \<lparr>m_sendStatus = SEND_OK, m_msgId = '''', m_messageQueue = None, m_queueOffset = 0\<rparr>"

record send_round =
  r_env :: factory_env
  r_response :: "RemotingCommand option"
  r_born :: int
  r_end :: int
  r_reconsumeTimes :: int

record sent_request =
  q_addr :: string
  q_header :: CommandCustomHeader
  q_body :: string

record 's send_state =
  s_msg :: Message
  s_factory :: "'s factory"
  s_tried :: "MessageQueue list"
  s_sent :: "sent_request list"

datatype 'a send_outcome = SReturns SendResult 'a | SThrows mq_exception 'a | SUndefined

definition FLUSH_DISK_TIMEOUT_VALUE :: int where "FLUSH_DISK_TIMEOUT_VALUE = 10"
definition SLAVE_NOT_AVAILABLE_VALUE :: int where "SLAVE_NOT_AVAILABLE_VALUE = 11"
definition FLUSH_SLAVE_TIMEOUT_VALUE :: int where "FLUSH_SLAVE_TIMEOUT_VALUE = 12"
definition SERVICE_NOT_AVAILABLE_VALUE :: int where "SERVICE_NOT_AVAILABLE_VALUE = 14"
definition NO_PERMISSION_VALUE :: int where "NO_PERMISSION_VALUE = 16"
definition TOPIC_NOT_EXIST_VALUE :: int where "TOPIC_NOT_EXIST_VALUE = 17"
definition SYSTEM_ERROR_VALUE :: int where "SYSTEM_ERROR_VALUE = 1"
definition PROPERTY_TRANSACTION_PREPARED :: string where "PROPERTY_TRANSACTION_PREPARED = ''TRAN_MSG''"

section \<open>Routes of a producer\<close>

definition has_queues :: "nat \<Rightarrow> string \<Rightarrow> 's factory \<Rightarrow> bool" where
  "has_queues a topic f =
     (case map_find str_lt topic (m_topicPublishInfoTable (f_producers f a)) of None \<Rightarrow> False | Some info \<Rightarrow> publish_ok info)"

definition reset_info :: "nat \<Rightarrow> string \<Rightarrow> 's factory \<Rightarrow> 's factory" where
  "reset_info a topic f =
     f\<lparr>f_producers := (f_producers f)(a := (f_producers f a)\<lparr>m_topicPublishInfoTable :=
         map_put str_lt topic TopicPublishInfo_new (m_topicPublishInfoTable (f_producers f a))\<rparr>)\<rparr>"

text \<open>The common part of \<open>tryToFindTopicPublishInfo\<close> and \<open>tryToFindTopicPublishMq\<close>: ask for the topic's route, then for the
  default topic's. A producer calls it without \<open>m_consumerTableLock\<close>.\<close>

definition tryToFindTopicPublishInfo :: "factory_env \<Rightarrow> nat \<Rightarrow> string \<Rightarrow> 's factory \<Rightarrow> 's factory option" where
  "tryToFindTopicPublishInfo env a topic f =
     (if has_queues a topic f then Some f
      else case updateTopicRouteInfoFromNameServer env False topic False None False (reset_info a topic f) of
        Returned _ f \<Rightarrow>
          (if has_queues a topic f then Some f
           else case updateTopicRouteInfoFromNameServer env False topic True (Some (f_producers f a)) False f of
             Returned _ f \<Rightarrow> Some f | _ \<Rightarrow> None)
      | _ \<Rightarrow> None)"

definition select_queue :: "nat \<Rightarrow> string \<Rightarrow> string \<Rightarrow> 's factory \<Rightarrow> MessageQueue option \<times> 's factory" where
  "select_queue a topic lastBrokerName f =
     (let p = f_producers f a in
      case map_find str_lt topic (m_topicPublishInfoTable p) of None \<Rightarrow> (None, f)
      | Some info \<Rightarrow>
          let (mq, info) = selectOneMessageQueue lastBrokerName info
          in (mq, f\<lparr>f_producers := (f_producers f)(a := p\<lparr>m_topicPublishInfoTable :=
                map_put str_lt topic info (m_topicPublishInfoTable p)\<rparr>)\<rparr>))"

definition tryToFindTopicPublishMq ::
  "factory_env \<Rightarrow> nat \<Rightarrow> string \<Rightarrow> string \<Rightarrow> 's factory \<Rightarrow> (MessageQueue option \<times> 's factory) option" where
  "tryToFindTopicPublishMq env a topic lastBrokerName f =
     map_option (select_queue a topic lastBrokerName) (tryToFindTopicPublishInfo env a topic f)"

section \<open>One attempt\<close>

definition tryToCompressMessage :: "(string \<Rightarrow> string option) \<Rightarrow> int \<Rightarrow> Message \<Rightarrow> bool \<times> Message" where
  "tryToCompressMessage compress overHowmuch msg =
     (case msg_body msg of None \<Rightarrow> (False, msg)
      | Some body \<Rightarrow>
          if msg_bodyLen msg \<ge> overHowmuch
          then (case compress body of None \<Rightarrow> (False, msg) | Some out \<Rightarrow> (True, setBody out (int (length out)) msg))
          else (False, msg))"

text \<open>\<open>None\<close>: the response has no header to read.\<close>

definition processSendResponse :: "string \<Rightarrow> string \<Rightarrow> Message \<Rightarrow> RemotingCommand option \<Rightarrow> (mq_exception + SendResult) option" where
  "processSendResponse prefix brokerName msg pResponse =
     (case pResponse of
        None \<Rightarrow> Some (Inl (MQBrokerException (c_str (''Can't connect/send to broker message: '' @ brokerName)) (-1)))
      | Some r \<Rightarrow>
          let code = cmd_code r in
          if code \<in> {FLUSH_DISK_TIMEOUT_VALUE, FLUSH_SLAVE_TIMEOUT_VALUE, SLAVE_NOT_AVAILABLE_VALUE, SUCCESS_VALUE}
          then let sendStatus = (if code = FLUSH_DISK_TIMEOUT_VALUE then FLUSH_DISK_TIMEOUT
                                 else if code = FLUSH_SLAVE_TIMEOUT_VALUE then FLUSH_SLAVE_TIMEOUT
                                 else if code = SLAVE_NOT_AVAILABLE_VALUE then SLAVE_NOT_AVAILABLE else SEND_OK)
               in (case cmd_header r of
                     Some (SendMessageResponseHeader msgId queueId queueOffset) \<Rightarrow>
                       map_option (\<lambda>topic. Inr \<lparr>m_sendStatus = sendStatus, m_msgId = msgId,
                           m_messageQueue = Some (mq_make topic brokerName queueId), m_queueOffset = queueOffset\<rparr>)
                         (if \<not> isBlank prefix then clearProjectGroup (msg_topic msg) prefix else Some (msg_topic msg))
                   | _ \<Rightarrow> None)
          else Some (Inl (MQBrokerException (cmd_remark r) code)))"

definition API_sendMessage ::
  "send_round \<Rightarrow> string \<Rightarrow> string \<Rightarrow> string \<Rightarrow> string \<Rightarrow> int \<Rightarrow> int \<Rightarrow> int \<Rightarrow> CommunicationMode \<Rightarrow> 's send_state \<Rightarrow> 's send_state send_outcome" where
  \<comment> \<open>the arguments from \<open>producerGroup\<close> to \<open>sysFlag\<close> are those of the request header\<close>
  "API_sendMessage rnd addr brokerName producerGroup defaultTopic defaultTopicQueueNums queueId sysFlag mode s =
     (let prefix = n_projectGroupPrefix (r_env rnd) in
      case (with_project prefix (msg_topic (s_msg s)), with_project prefix producerGroup) of
        (Some topic, Some grp) \<Rightarrow>
          let msg = (s_msg s)\<lparr>msg_topic := topic\<rparr>;
              header = SendMessageRequestHeader grp topic defaultTopic defaultTopicQueueNums queueId sysFlag (r_born rnd)
                         (msg_flag msg) (messageProperties2String (msg_properties msg)) (r_reconsumeTimes rnd);
              s = s\<lparr>s_msg := msg, s_sent := s_sent s @ [\<lparr>q_addr = addr, q_header = header,
                      q_body = (case msg_body msg of None \<Rightarrow> [] | Some b \<Rightarrow> b)\<rparr>]\<rparr>
          in (case mode of
                SYNC \<Rightarrow>
                  (case processSendResponse prefix brokerName msg (r_response rnd) of
                     None \<Rightarrow> SUndefined | Some (Inl e) \<Rightarrow> SThrows e s | Some (Inr r) \<Rightarrow> SReturns r s)
              | _ \<Rightarrow> SReturns SendResult_new s)
      | _ \<Rightarrow> SUndefined)"

definition sendKernelImpl ::
  "(string \<Rightarrow> string option) \<Rightarrow> send_round \<Rightarrow> nat \<Rightarrow> MessageQueue \<Rightarrow> CommunicationMode \<Rightarrow> 's send_state \<Rightarrow> 's send_state send_outcome" where
  "sendKernelImpl compress rnd a mq mode s =
     (case (if findBrokerAddressInPublish (m_brokerName mq) (s_factory s) = []
            then tryToFindTopicPublishInfo (r_env rnd) a (m_topic mq) (s_factory s) else Some (s_factory s)) of
        None \<Rightarrow> SUndefined
      | Some f \<Rightarrow>
          let s = s\<lparr>s_factory := f\<rparr>; p = f_producers f a;
              brokerAddr = findBrokerAddressInPublish (m_brokerName mq) f
          in if brokerAddr \<noteq> [] then
               let (compressed, msg) = tryToCompressMessage compress (p_compressMsgBodyOverHowmuch p) (s_msg s);
                   sysFlag = (if compressed then CompressedFlag else 0);
                   sysFlag = (if getProperty PROPERTY_TRANSACTION_PREPARED msg = ''true'' then sysFlag OR TransactionPreparedType else sysFlag)
               in API_sendMessage rnd brokerAddr (m_brokerName mq) (p_producerGroup p) (p_createTopicKey p)
                    (p_defaultTopicQueueNums p) (m_queueId mq) sysFlag mode (s\<lparr>s_msg := msg\<rparr>)
             else SThrows (MQClientException (''The broker['' @ m_brokerName mq @ ''] not exist'') (-1)) s)"

section \<open>Retries\<close>

definition retried :: "mq_exception \<Rightarrow> bool" where
  \<comment> \<open>the exceptions after which \<open>sendDefaultImpl\<close> tries again\<close>
  "retried e =
     (case e of RemotingException _ _ \<Rightarrow> True | MQClientException _ _ \<Rightarrow> True
      | MQBrokerException _ code \<Rightarrow>
          code \<in> {TOPIC_NOT_EXIST_VALUE, SERVICE_NOT_AVAILABLE_VALUE, SYSTEM_ERROR_VALUE, NO_PERMISSION_VALUE}
      | _ \<Rightarrow> False)"

text \<open>After a loop that ended before its three tries.\<close>

definition after_loop :: "bool \<Rightarrow> 's send_state \<Rightarrow> 's send_state send_outcome" where
  "after_loop nsEmpty s =
     (if nsEmpty then SThrows (MQClientException ''No name server address, please set it.'' (-1)) s
      else SThrows (MQClientException ''No route info of this topic, '' (-1)) s)"

text \<open>\<open>n\<close> attempts are left, \<open>tries\<close> is \<open>3 - n\<close>.\<close>

fun send_loop ::
  "(string \<Rightarrow> string option) \<Rightarrow> bool \<Rightarrow> (nat \<Rightarrow> send_round) \<Rightarrow> nat \<Rightarrow> CommunicationMode \<Rightarrow> int \<Rightarrow> nat \<Rightarrow> int \<Rightarrow> string
   \<Rightarrow> 's send_state \<Rightarrow> 's send_state send_outcome" where
  "send_loop compress nsEmpty rnds a mode beginTs 0 endTs lastBrokerName s = SThrows (MQClientException ''Retry many times, still failed'' (-1)) s"
| "send_loop compress nsEmpty rnds a mode beginTs (Suc n) endTs lastBrokerName s =
     (let tries = 3 - Suc n; rnd = rnds tries; p = f_producers (s_factory s) a in
      if \<not> s32 (endTs - beginTs) < p_sendMsgTimeout p then after_loop nsEmpty s
      else case tryToFindTopicPublishMq (r_env rnd) a (msg_topic (s_msg s)) lastBrokerName (s_factory s) of
        None \<Rightarrow> SUndefined
      | Some (found, f) \<Rightarrow>
          let s = s\<lparr>s_factory := f\<rparr> in
          (case found of None \<Rightarrow> after_loop nsEmpty s
           | Some mq \<Rightarrow>
               if m_topic mq = [] then after_loop nsEmpty s
               else let s = s\<lparr>s_tried := s_tried s @ [mq]\<rparr> in
                 (case sendKernelImpl compress rnd a mq mode s of
                    SUndefined \<Rightarrow> SUndefined
                  | SReturns r s \<Rightarrow>
                      if mode = SYNC \<and> m_sendStatus r \<noteq> SEND_OK \<and> p_retryAnotherBrokerWhenNotStoreOK p
                      then send_loop compress nsEmpty rnds a mode beginTs n (r_end rnd) (m_brokerName mq) s
                      else SReturns r s
                  | SThrows e s \<Rightarrow>
                      if retried e then send_loop compress nsEmpty rnds a mode beginTs n (r_end rnd) (m_brokerName mq) s
                      else SThrows e s)))"

definition sendDefaultImpl ::
  "(string \<Rightarrow> string option) \<Rightarrow> bool \<Rightarrow> (nat \<Rightarrow> send_round) \<Rightarrow> nat \<Rightarrow> CommunicationMode \<Rightarrow> int \<Rightarrow> 's send_state \<Rightarrow> 's send_state send_outcome" where
  "sendDefaultImpl compress nsEmpty rnds a mode beginTs s =
     (let p = f_producers (s_factory s) a in
      if p_serviceState p \<noteq> RUNNING then SThrows (MQClientException ''The producer service state not OK, '' (-1)) s
      else case checkMessage (s_msg s) (p_maxMessageSize p) of Some e \<Rightarrow> SThrows e s
      | None \<Rightarrow> send_loop compress nsEmpty rnds a mode beginTs 3 beginTs '''' s)"

text \<open>\<open>send\<close> and \<open>sendOneway\<close> with a queue given by the caller; the one-way and asynchronous forms swallow every exception.\<close>

definition send_to_queue ::
  "(string \<Rightarrow> string option) \<Rightarrow> send_round \<Rightarrow> nat \<Rightarrow> CommunicationMode \<Rightarrow> MessageQueue \<Rightarrow> 's send_state \<Rightarrow> 's send_state send_outcome" where
  "send_to_queue compress rnd a mode mq s =
     (let p = f_producers (s_factory s) a in
      if p_serviceState p \<noteq> RUNNING then SThrows (MQClientException ''The producer service state not OK, '' (-1)) s
      else case checkMessage (s_msg s) (p_maxMessageSize p) of Some e \<Rightarrow> SThrows e s
      | None \<Rightarrow>
          if msg_topic (s_msg s) \<noteq> m_topic mq then SThrows (MQClientException ''message's topic not equal mq's topic'' (-1)) s
          else case sendKernelImpl compress rnd a mq mode s of
            SThrows e s \<Rightarrow> if mode = SYNC then SThrows e s else SReturns SendResult_new s
          | r \<Rightarrow> r)"

text \<open>\<open>select\<close> is the caller's \<open>MessageQueueSelector\<close>: \<open>Inl ()\<close> an exception, \<open>Inr None\<close> the null pointer.\<close>

definition sendSelectImpl ::
  "(string \<Rightarrow> string option) \<Rightarrow> (MessageQueue list \<Rightarrow> Message \<Rightarrow> unit + MessageQueue option) \<Rightarrow> send_round \<Rightarrow> nat \<Rightarrow> CommunicationMode
   \<Rightarrow> 's send_state \<Rightarrow> 's send_state send_outcome" where
  "sendSelectImpl compress select rnd a mode s =
     (let p = f_producers (s_factory s) a; topic = msg_topic (s_msg s) in
      if p_serviceState p \<noteq> RUNNING then SThrows (MQClientException ''The producer service state not OK, '' (-1)) s
      else case checkMessage (s_msg s) (p_maxMessageSize p) of Some e \<Rightarrow> SThrows e s
      | None \<Rightarrow>
          (case tryToFindTopicPublishInfo (r_env rnd) a topic (s_factory s) of None \<Rightarrow> SUndefined
           | Some f \<Rightarrow>
               let s = s\<lparr>s_factory := f\<rparr> in
               (case map_find str_lt topic (m_topicPublishInfoTable (f_producers f a)) of
                  Some info \<Rightarrow>
                    if publish_ok info then
                      (case select (m_messageQueueList info) (s_msg s) of
                         Inl _ \<Rightarrow> SThrows (MQClientException ''select message queue throwed exception.'' (-1)) s
                       | Inr None \<Rightarrow> SThrows (MQClientException ''select message queue return null.'' (-1)) s
                       | Inr (Some mq) \<Rightarrow> sendKernelImpl compress rnd a mq mode s)
                    else SThrows (MQClientException (''No route info for this topic: '' @ c_str topic) (-1)) s
                | None \<Rightarrow> SUndefined)))"

section \<open>Attempts\<close>

definition outcome_state :: "'a send_outcome \<Rightarrow> 'a option" where
  "outcome_state r = (case r of SReturns _ s \<Rightarrow> Some s | SThrows _ s \<Rightarrow> Some s | SUndefined \<Rightarrow> None)"

lemma outcome_state_simps [simp]:
  "outcome_state (SReturns r s) = Some s" "outcome_state (SThrows e s) = Some s" "outcome_state SUndefined = None"
  by (simp_all add: outcome_state_def)

lemma API_tried: "outcome_state (API_sendMessage rnd addr b g d n q fl mode s) = Some s' \<Longrightarrow> s_tried s' = s_tried s \<and> s_factory s' = s_factory s"
  by (auto simp: API_sendMessage_def Let_def split: option.splits prod.splits CommunicationMode.splits sum.splits)

lemma kernel_tried: "outcome_state (sendKernelImpl compress rnd a mq mode s) = Some s' \<Longrightarrow> s_tried s' = s_tried s"
  by (auto simp: sendKernelImpl_def Let_def split: option.splits prod.splits if_splits dest: API_tried)

text \<open>The queue id in a send request.\<close>

definition q_queueId :: "sent_request \<Rightarrow> int" where
  "q_queueId q = (case q_header q of SendMessageRequestHeader grp topic dt dn queueId fl born mf props rt \<Rightarrow> queueId | _ \<Rightarrow> 0)"

text \<open>What one attempt may put on the wire: nothing, or one request for the queue it was given.\<close>

abbreviation one_request :: "MessageQueue \<Rightarrow> sent_request list \<Rightarrow> bool" where
  "one_request mq rs \<equiv> rs = [] \<or> map q_queueId rs = [m_queueId mq]"

lemma API_one_request:
  "outcome_state (API_sendMessage rnd addr b g d n queueId fl mode s) = Some s' \<Longrightarrow> \<exists>q. s_sent s' = s_sent s @ [q] \<and> q_queueId q = queueId"
  by (auto simp: API_sendMessage_def Let_def q_queueId_def split: option.splits prod.splits CommunicationMode.splits sum.splits)

lemma kernel_one_request:
  "outcome_state (sendKernelImpl compress rnd a mq mode s) = Some s' \<Longrightarrow>
   \<exists>rs. s_sent s' = s_sent s @ rs \<and> one_request mq rs"
  by (auto simp: sendKernelImpl_def Let_def split: option.splits prod.splits if_splits dest!: API_one_request)

lemma select_other_neq: "select_other n i b mqs = Some mq \<Longrightarrow> m_brokerName mq \<noteq> b"
  by (induction n arbitrary: i) (auto simp: Let_def split: if_splits)

lemma chosen_other:
  assumes "tryToFindTopicPublishMq env a topic b f = Some (Some mq, f')" "b \<noteq> []"
  shows "m_brokerName mq \<noteq> b"
  using assms by (auto simp: tryToFindTopicPublishMq_def select_queue_def selectOneMessageQueue_def Let_def
      split: option.splits prod.splits dest: select_other_neq)

lemma after_loop_state [simp]: "outcome_state (after_loop nsEmpty s) = Some s"
  by (simp add: after_loop_def)

abbreviation moves_on :: "MessageQueue \<Rightarrow> MessageQueue \<Rightarrow> bool" where
  "moves_on x y \<equiv> m_brokerName x \<noteq> [] \<longrightarrow> m_brokerName x \<noteq> m_brokerName y"

text \<open>One round of the loop: it stops, makes the last attempt, or makes an attempt and goes on.\<close>

lemma send_step:
  assumes "outcome_state (send_loop compress nsEmpty rnds a mode beginTs (Suc n) endTs b s) = Some s'"
  obtains (stop) f where "s' = s\<lparr>s_factory := f\<rparr>"
  | (last) mq f where "tryToFindTopicPublishMq (r_env (rnds (2 - n))) a (msg_topic (s_msg s)) b (s_factory s) = Some (Some mq, f)"
      "outcome_state (sendKernelImpl compress (rnds (2 - n)) a mq mode (s\<lparr>s_factory := f, s_tried := s_tried s @ [mq]\<rparr>)) = Some s'"
  | (again) mq f t where "tryToFindTopicPublishMq (r_env (rnds (2 - n))) a (msg_topic (s_msg s)) b (s_factory s) = Some (Some mq, f)"
      "outcome_state (sendKernelImpl compress (rnds (2 - n)) a mq mode (s\<lparr>s_factory := f, s_tried := s_tried s @ [mq]\<rparr>)) = Some t"
      "outcome_state (send_loop compress nsEmpty rnds a mode beginTs n (r_end (rnds (2 - n))) (m_brokerName mq) t) = Some s'"
proof (cases "tryToFindTopicPublishMq (r_env (rnds (2 - n))) a (msg_topic (s_msg s)) b (s_factory s)")
  case None
  then show thesis using assms stop [of "s_factory s"] by (auto simp: Let_def split: if_splits)
next
  case (Some x)
  obtain found f where x: "x = (found, f)" by (cases x)
  show thesis
  proof (cases found)
    case None
    then show thesis using assms Some x stop [of f] stop [of "s_factory s"] by (auto simp: Let_def split: if_splits)
  next
    case found: (Some mq)
    let ?k = "sendKernelImpl compress (rnds (2 - n)) a mq mode (s\<lparr>s_factory := f, s_tried := s_tried s @ [mq]\<rparr>)"
    note step = assms Some x found stop [of f] stop [of "s_factory s"] last [of mq f] again [of mq f]
    show thesis
      by (cases ?k) (use step in \<open>auto simp: Let_def split: if_splits\<close>)
  qed
qed

lemma send_loop_tried:
  "outcome_state (send_loop compress nsEmpty rnds a mode beginTs n endTs b s) = Some s' \<Longrightarrow>
   \<exists>new rss. s_tried s' = s_tried s @ new \<and> length new \<le> n \<and> successively moves_on new
     \<and> (new \<noteq> [] \<and> b \<noteq> [] \<longrightarrow> m_brokerName (hd new) \<noteq> b)
     \<and> s_sent s' = s_sent s @ concat rss \<and> list_all2 one_request new rss"
proof (induction n arbitrary: endTs b s)
  case 0
  then show ?case by (intro exI [of _ "[]"]) simp
next
  case (Suc n)
  from Suc.prems show ?case
  proof (cases rule: send_step)
    case (stop f)
    then show ?thesis by (intro exI [of _ "[]"]) simp
  next
    case (last mq f)
    then have "s_tried s' = s_tried s @ [mq]" by (auto dest: kernel_tried)
    moreover obtain rs where "s_sent s' = s_sent s @ rs" "one_request mq rs"
      using kernel_one_request [OF last(2)] by auto
    ultimately show ?thesis using chosen_other [OF last(1)] by (intro exI [of _ "[mq]"] exI [of _ "[rs]"]) auto
  next
    case (again mq f t)
    from Suc.IH [OF again(3)] obtain new rss where new: "s_tried s' = s_tried t @ new" "length new \<le> n" "successively moves_on new"
      "new \<noteq> [] \<and> m_brokerName mq \<noteq> [] \<longrightarrow> m_brokerName (hd new) \<noteq> m_brokerName mq"
      "s_sent s' = s_sent t @ concat rss" "list_all2 one_request new rss" by blast
    have t: "s_tried t = s_tried s @ [mq]" using kernel_tried [OF again(2)] by simp
    obtain r where r: "s_sent t = s_sent s @ r" "one_request mq r"
      using kernel_one_request [OF again(2)] by auto
    have "successively moves_on (mq # new)" using new(3,4) by (cases new) auto
    then show ?thesis using new t r chosen_other [OF again(1)] by (intro exI [of _ "mq # new"] exI [of _ "r # rss"]) auto
  qed
qed


definition sample_round :: "RemotingCommand option \<Rightarrow> send_round" where
  "sample_round response = \<lparr>r_env = sample_ns, r_response = response, r_born = 0, r_end = 0, r_reconsumeTimes = 0\<rparr>"

definition two_brokers :: TopicPublishInfo where
  "two_brokers = \<lparr>m_orderTopic = False, m_messageQueueList = [mq_make ''T'' ''a'' 0, mq_make ''T'' ''b'' 0], m_sendWhichQueue = 0\<rparr>"

definition sample_sender :: "(RemoteStore \<times> offset_send list) send_state" where
  "sample_sender = \<lparr>s_msg = Message_new_body ''T'' ''xxxxx'' 5,
     s_factory = sample_factory\<lparr>m_brokerAddrTable := [(''a'', [(0, ''1.2.3.6:1'')]), (''b'', [(0, ''1.2.3.4:1'')])],
       f_producers := (\<lambda>_. sample_producer\<lparr>m_topicPublishInfoTable := [(''T'', two_brokers)], p_compressMsgBodyOverHowmuch := 4\<rparr>)\<rparr>,
     s_tried = [], s_sent = []\<rparr>"

definition busy :: RemotingCommand where
  "busy = command_make SYSTEM_ERROR_VALUE ''JAVA'' 0 0 1 ''busy'' None"

definition stored :: RemotingCommand where
  "stored = command_make SUCCESS_VALUE ''JAVA'' 0 0 1 '''' (Some (SendMessageResponseHeader ''id'' 0 7))"

definition sample_rounds :: "nat \<Rightarrow> send_round" where
  "sample_rounds i = (if i = 0 then sample_round (Some busy) else sample_round (Some stored))"

lemma sample_send_state:
  "map_option (\<lambda>s. (s_tried s, map q_queueId (s_sent s)))
     (outcome_state (sendDefaultImpl (\<lambda>b. Some ''c'') False sample_rounds 0 SYNC 0 sample_sender))
   = Some ([mq_make ''T'' ''a'' 0, mq_make ''T'' ''b'' 0], [0, 0])"
  by code_simp


text \<open>
  C38. A broker that cannot be reached, or does not answer in time, ends a synchronous send at
  once: the missing response becomes a \<open>MQBrokerException\<close> with code -1, which is not one of the codes the loop
  retries. The caller gets the exception after a single attempt although other brokers have queues of the topic.
\<close>

theorem unreachable_broker_not_retried:
  assumes "p_serviceState (f_producers (s_factory s) a) = RUNNING"
    and "checkMessage (s_msg s) (p_maxMessageSize (f_producers (s_factory s) a)) = None"
    and "0 < p_sendMsgTimeout (f_producers (s_factory s) a)"
    and "tryToFindTopicPublishMq (r_env (rnds 0)) a (msg_topic (s_msg s)) '''' (s_factory s) = Some (Some mq, f)"
    and "m_topic mq \<noteq> []" "findBrokerAddressInPublish (m_brokerName mq) f \<noteq> []"
    and "isBlank (n_projectGroupPrefix (r_env (rnds 0)))" "r_response (rnds 0) = None"
  shows "\<exists>s'. sendDefaultImpl compress nsEmpty rnds a SYNC beginTs s
      = SThrows (MQBrokerException (c_str (''Can't connect/send to broker message: '' @ m_brokerName mq)) (-1)) s'
    \<and> s_tried s' = s_tried s @ [mq]"
proof -
  let ?s = "s\<lparr>s_factory := f, s_tried := s_tried s @ [mq]\<rparr>"
  let ?e = "MQBrokerException (c_str (''Can't connect/send to broker message: '' @ m_brokerName mq)) (-1)"
  obtain s' where k: "sendKernelImpl compress (rnds 0) a mq SYNC ?s = SThrows ?e s'"
    using assms(6-8) by (cases "tryToCompressMessage compress (p_compressMsgBodyOverHowmuch (f_producers f a)) (s_msg s)")
      (simp add: sendKernelImpl_def Let_def API_sendMessage_def with_project_def processSendResponse_def)
  have "\<not> retried ?e"
    by (simp add: retried_def TOPIC_NOT_EXIST_VALUE_def SERVICE_NOT_AVAILABLE_VALUE_def SYSTEM_ERROR_VALUE_def NO_PERMISSION_VALUE_def)
  then have "sendDefaultImpl compress nsEmpty rnds a SYNC beginTs s = SThrows ?e s'"
    using assms(1-5) k by (simp add: sendDefaultImpl_def Let_def numeral_3_eq_3 s32_def)
  then show ?thesis using kernel_tried [of compress "rnds 0" a mq SYNC ?s s'] k by simp
qed

theorem unreachable_broker_not_retried_witness:
  "\<exists>s' mq. sendDefaultImpl (\<lambda>b. None) False (\<lambda>_. sample_round None) 0 SYNC 0 sample_sender
      = SThrows (MQBrokerException (c_str (''Can't connect/send to broker message: '' @ m_brokerName mq)) (-1)) s'
    \<and> s_tried s' = s_tried sample_sender @ [mq] \<and> m_brokerName mq = ''a''"
proof -
  let ?f = "s_factory sample_sender"
  have h: "p_serviceState (f_producers ?f 0) = RUNNING" "checkMessage (s_msg sample_sender) (p_maxMessageSize (f_producers ?f 0)) = None"
    "0 < p_sendMsgTimeout (f_producers ?f 0)" by code_simp+
  obtain mq f where t: "tryToFindTopicPublishMq sample_ns 0 (msg_topic (s_msg sample_sender)) '''' ?f = Some (Some mq, f)"
    and m: "mq = mq_make ''T'' ''a'' 0" and f: "m_brokerAddrTable f = m_brokerAddrTable ?f"
    by (simp add: tryToFindTopicPublishMq_def tryToFindTopicPublishInfo_def has_queues_def sample_sender_def sample_factory_def Let_def
        Message_new_body_def Message_Init_def setWaitStoreMsgOK_def putProperty_def two_brokers_def publish_ok_def select_queue_def
        selectOneMessageQueue_def queue_pos_def c_abs_def u64_def)
  have a: "findBrokerAddressInPublish ''a'' ?f = ''1.2.3.6:1''" by code_simp
  have "findBrokerAddressInPublish (m_brokerName mq) f \<noteq> []"
    using a m f by (simp add: findBrokerAddressInPublish_def mq_make_def)
  moreover have "isBlank (n_projectGroupPrefix sample_ns)" by (simp add: sample_ns_def isBlank_def)
  ultimately show ?thesis
    using unreachable_broker_not_retried [OF h, of "\<lambda>_. sample_round None" mq f "\<lambda>b. None" False 0] t m
    by (auto simp: sample_round_def mq_make_def)
qed

section \<open>Compression across attempts\<close>

definition q_sysFlag :: "sent_request \<Rightarrow> int" where
  "q_sysFlag q = (case q_header q of SendMessageRequestHeader _ _ _ _ _ sysFlag _ _ _ _ \<Rightarrow> sysFlag | _ \<Rightarrow> 0)"

abbreviation over :: "nat \<Rightarrow> 's factory \<Rightarrow> int" where
  "over a f \<equiv> p_compressMsgBodyOverHowmuch (f_producers f a)"

lemma update_producers_over:
  "p_compressMsgBodyOverHowmuch (update_producers topic info table ps a) = p_compressMsgBodyOverHowmuch (ps a)"
proof (induction table arbitrary: info ps)
  case (Cons e table)
  obtain g b where e: "e = (g, b)" by (cases e)
  obtain info' p where u: "updateTopicPublishInfo topic info (ps b) = (info', p)" by (cases "updateTopicPublishInfo topic info (ps b)")
  then have "p_compressMsgBodyOverHowmuch p = p_compressMsgBodyOverHowmuch (ps b)" by (auto simp: updateTopicPublishInfo_def Let_def)
  moreover define ps' where "ps' = ps(b := p)"
  moreover have "ps' b = p" "a \<noteq> b \<Longrightarrow> ps' a = ps a" by (simp_all add: ps'_def)
  moreover have "update_producers topic info (e # table) ps a = update_producers topic info' table ps' a" using e u by (simp add: ps'_def)
  ultimately show ?case using Cons.IH [of info' ps'] by (cases "a = b") metis+
qed simp

lemma update_over: "updateTopicRouteInfoFromNameServer env held topic d p l f = Returned r f' \<Longrightarrow> over a f' = over a f"
  by (auto simp: updateTopicRouteInfoFromNameServer_def install_route_def Let_def update_producers_over
      split: if_splits jres.splits sum.splits option.splits)

lemma find_info_over: "tryToFindTopicPublishInfo env b topic f = Some f' \<Longrightarrow> over a f' = over a f"
  by (auto simp: tryToFindTopicPublishInfo_def reset_info_def split: if_splits locked.splits dest!: update_over [where a = a])

lemma find_mq_over: "tryToFindTopicPublishMq env b topic l f = Some (mq, f') \<Longrightarrow> over a f' = over a f"
  by (cases "selectOneMessageQueue l (the (map_find str_lt topic (m_topicPublishInfoTable (f_producers (the (tryToFindTopicPublishInfo env b topic f)) b))))")
    (auto simp: tryToFindTopicPublishMq_def select_queue_def Let_def split: option.splits dest!: find_info_over [where a = a])

text \<open>An attempt sends nothing, or the body as \<open>tryToCompressMessage\<close> leaves it, flagged when it was compressed in this attempt.\<close>

lemma kernel_sent:
  assumes "outcome_state (sendKernelImpl compress rnd a mq mode s) = Some s'"
    and "tryToCompressMessage compress (over a (s_factory s)) (s_msg s) = (compressed, msg)" "msg_body msg = Some body"
  shows "over a (s_factory s') = over a (s_factory s) \<and>
    (s_sent s' = s_sent s \<and> s_msg s' = s_msg s \<or>
     (\<exists>q. s_sent s' = s_sent s @ [q] \<and> q_body q = body \<and> (q_sysFlag q AND CompressedFlag = CompressedFlag \<longleftrightarrow> compressed)
        \<and> msg_body (s_msg s') = Some body \<and> msg_bodyLen (s_msg s') = msg_bodyLen msg))"
proof -
  obtain f where f: "(if findBrokerAddressInPublish (m_brokerName mq) (s_factory s) = []
      then tryToFindTopicPublishInfo (r_env rnd) a (m_topic mq) (s_factory s) else Some (s_factory s)) = Some f"
    using assms(1) by (auto simp: sendKernelImpl_def split: option.splits)
  then have o: "over a f = over a (s_factory s)" by (auto split: if_splits dest: find_info_over [where a = a])
  show ?thesis
  proof (cases "findBrokerAddressInPublish (m_brokerName mq) f = []")
    case True
    then have "s' = s\<lparr>s_factory := f\<rparr>" using assms(1) f by (simp add: sendKernelImpl_def Let_def)
    with o show ?thesis by simp
  next
    case False
    let ?fl = "if getProperty PROPERTY_TRANSACTION_PREPARED msg = ''true''
      then (if compressed then CompressedFlag else 0) OR TransactionPreparedType else (if compressed then CompressedFlag else 0)"
    have "?fl AND CompressedFlag = CompressedFlag \<longleftrightarrow> compressed"
      by (simp add: CompressedFlag_def TransactionPreparedType_def)
    moreover have "sendKernelImpl compress rnd a mq mode s = API_sendMessage rnd (findBrokerAddressInPublish (m_brokerName mq) f) (m_brokerName mq)
        (p_producerGroup (f_producers f a)) (p_createTopicKey (f_producers f a)) (p_defaultTopicQueueNums (f_producers f a))
        (m_queueId mq) ?fl mode (s\<lparr>s_factory := f, s_msg := msg\<rparr>)"
      using f False o assms(2) by (simp add: sendKernelImpl_def Let_def)
    ultimately show ?thesis using assms(1,3) o
      by (auto simp: API_sendMessage_def Let_def q_sysFlag_def split: option.splits CommunicationMode.splits sum.splits)
  qed
qed

definition unflagged :: "string \<Rightarrow> sent_request \<Rightarrow> bool" where
  "unflagged c q \<longleftrightarrow> q_body q = c \<and> q_sysFlag q AND CompressedFlag \<noteq> CompressedFlag"

lemma small_body_sent:
  assumes "msg_body (s_msg s) = Some c" "msg_bodyLen (s_msg s) < over a (s_factory s)"
    and "outcome_state (send_loop compress nsEmpty rnds a mode beginTs n endTs b s) = Some s'"
  shows "\<exists>new. s_sent s' = s_sent s @ new \<and> list_all (unflagged c) new"
  using assms
proof (induction n arbitrary: endTs b s)
  case (Suc n)
  have att: "over a (s_factory t) = over a (s_factory s) \<and> msg_body (s_msg t) = Some c \<and> msg_bodyLen (s_msg t) = msg_bodyLen (s_msg s)
      \<and> (\<exists>new. s_sent t = s_sent s @ new \<and> list_all (unflagged c) new)"
    if m: "tryToFindTopicPublishMq (r_env (rnds (2 - n))) a (msg_topic (s_msg s)) b (s_factory s) = Some (Some mq, f)"
      and k: "outcome_state (sendKernelImpl compress (rnds (2 - n)) a mq mode (s\<lparr>s_factory := f, s_tried := s_tried s @ [mq]\<rparr>)) = Some t"
    for mq f t
  proof -
    have o: "over a f = over a (s_factory s)" using find_mq_over [OF m] .
    have "tryToCompressMessage compress (over a f) (s_msg s) = (False, s_msg s)"
      using Suc.prems(1,2) o by (simp add: tryToCompressMessage_def)
    with kernel_sent [OF k, of False "s_msg s" c] Suc.prems(1) o show ?thesis
      by (auto simp: unflagged_def intro: exI [of _ "[]"])
  qed
  from Suc.prems(3) show ?case
  proof (cases rule: send_step)
    case (stop f)
    then show ?thesis by (intro exI [of _ "[]"]) simp
  next
    case (last mq f)
    then show ?thesis using att by blast
  next
    case (again mq f t)
    note a = att [OF again(1,2)]
    from a obtain new where "s_sent t = s_sent s @ new" "list_all (unflagged c) new" by blast
    moreover have "\<exists>new. s_sent s' = s_sent t @ new \<and> list_all (unflagged c) new"
      using Suc.IH [of t, OF _ _ again(3)] a Suc.prems(2) by simp
    ultimately show ?thesis by auto
  qed
qed simp

lemma large_body_sent:
  assumes "msg_body (s_msg s) = Some body" "over a (s_factory s) \<le> msg_bodyLen (s_msg s)" "compress body = Some c"
    and "c \<noteq> []" "int (length c) < over a (s_factory s)"
    and "outcome_state (send_loop compress nsEmpty rnds a mode beginTs n endTs b s) = Some s'"
  shows "\<exists>new. s_sent s' = s_sent s @ new \<and> list_all (unflagged c) (tl new)
    \<and> (new \<noteq> [] \<longrightarrow> q_body (hd new) = c \<and> q_sysFlag (hd new) AND CompressedFlag = CompressedFlag)"
  using assms
proof (induction n arbitrary: endTs b s)
  case (Suc n)
  let ?sent = "\<lambda>t. \<exists>q. s_sent t = s_sent s @ [q] \<and> q_body q = c \<and> q_sysFlag q AND CompressedFlag = CompressedFlag
      \<and> msg_body (s_msg t) = Some c \<and> msg_bodyLen (s_msg t) = int (length c)"
  have att: "over a (s_factory t) = over a (s_factory s) \<and> (s_sent t = s_sent s \<and> s_msg t = s_msg s \<or> ?sent t)"
    if m: "tryToFindTopicPublishMq (r_env (rnds (2 - n))) a (msg_topic (s_msg s)) b (s_factory s) = Some (Some mq, f)"
      and k: "outcome_state (sendKernelImpl compress (rnds (2 - n)) a mq mode (s\<lparr>s_factory := f, s_tried := s_tried s @ [mq]\<rparr>)) = Some t"
    for mq f t
  proof -
    have o: "over a f = over a (s_factory s)" using find_mq_over [OF m] .
    let ?msg = "setBody c (int (length c)) (s_msg s)"
    have "tryToCompressMessage compress (over a f) (s_msg s) = (True, ?msg)"
      using Suc.prems(1-3) o by (simp add: tryToCompressMessage_def)
    moreover have "msg_body ?msg = Some c" "msg_bodyLen ?msg = int (length c)" using Suc.prems(4) by (simp_all add: setBody_def)
    ultimately show ?thesis using kernel_sent [OF k, of True ?msg c] o by auto
  qed
  from Suc.prems(6) show ?case
  proof (cases rule: send_step)
    case (stop f)
    then show ?thesis by (intro exI [of _ "[]"]) simp
  next
    case (last mq f)
    from att [OF last] show ?thesis by (auto intro: exI [of _ "[]"])
  next
    case (again mq f t)
    note a = att [OF again(1,2)]
    then consider "s_sent t = s_sent s" "s_msg t = s_msg s" | "?sent t" by blast
    then show ?thesis
    proof cases
      case 1
      then show ?thesis using Suc.IH [of t, OF _ _ _ _ _ again(3)] Suc.prems a by simp
    next
      case 2
      then obtain q where q: "s_sent t = s_sent s @ [q]" "q_body q = c" "q_sysFlag q AND CompressedFlag = CompressedFlag"
        "msg_body (s_msg t) = Some c" "msg_bodyLen (s_msg t) = int (length c)" by blast
      from small_body_sent [OF q(4) _ again(3)] q(5) a Suc.prems(5) obtain new
        where "s_sent s' = s_sent t @ new" "list_all (unflagged c) new" by auto
      with q show ?thesis by (intro exI [of _ "q # new"]) simp
    qed
  qed
qed (auto intro: exI [of _ "[]"])

text \<open>
  C32. A retry spoils a compressed message. Compression replaces the body of the caller's message, and
  the flag is computed anew in each attempt: when the compressed body is below the threshold, the first request
  carries it with \<open>CompressedFlag\<close>, and every later one carries the same compressed bytes without the flag, so the
  consumer gets them as they are.
\<close>

theorem retry_drops_compressed_flag:
  assumes "msg_body (s_msg s) = Some body" "over a (s_factory s) \<le> msg_bodyLen (s_msg s)" "compress body = Some c"
    and "c \<noteq> []" "int (length c) < over a (s_factory s)"
    and "outcome_state (sendDefaultImpl compress nsEmpty rnds a mode beginTs s) = Some s'" "s_sent s' = s_sent s @ q # qs"
  shows "q_body q = c \<and> q_sysFlag q AND CompressedFlag = CompressedFlag \<and> list_all (unflagged c) qs"
proof -
  have "outcome_state (send_loop compress nsEmpty rnds a mode beginTs 3 beginTs '''' s) = Some s'"
    using assms(6,7) by (auto simp: sendDefaultImpl_def Let_def split: if_splits option.splits)
  from large_body_sent [OF assms(1-5) this] assms(7) show ?thesis by auto
qed

lemma sample_two_requests:
  "(case outcome_state (sendDefaultImpl (\<lambda>b. Some ''c'') False sample_rounds 0 SYNC 0 sample_sender) of
      None \<Rightarrow> False | Some s' \<Rightarrow> length (s_sent s') = 2)"
  by code_simp

theorem retry_drops_compressed_flag_witness:
  "\<exists>s' q q'. outcome_state (sendDefaultImpl (\<lambda>b. Some ''c'') False sample_rounds 0 SYNC 0 sample_sender) = Some s'
    \<and> s_sent s' = [q, q'] \<and> q_sysFlag q AND CompressedFlag = CompressedFlag \<and> unflagged ''c'' q'"
proof -
  obtain s' where s': "outcome_state (sendDefaultImpl (\<lambda>b. Some ''c'') False sample_rounds 0 SYNC 0 sample_sender) = Some s'"
    "length (s_sent s') = 2" using sample_two_requests by (auto split: option.splits)
  then obtain q q' where q: "s_sent s' = [q, q']" by (auto simp: length_Suc_conv numeral_2_eq_2)
  have "msg_body (s_msg sample_sender) = Some ''xxxxx''" "over 0 (s_factory sample_sender) \<le> msg_bodyLen (s_msg sample_sender)"
    "int (length ''c'') < over 0 (s_factory sample_sender)" "s_sent sample_sender = []" by code_simp+
  with retry_drops_compressed_flag [of sample_sender "''xxxxx''" 0 "\<lambda>b. Some ''c''" "''c''" False sample_rounds SYNC 0 s' q "[q']"] s' q
  show ?thesis by auto
qed

end
