(* ===== verification/Pull_Path.thy ===== *)
theory Pull_Path
  imports Producer
begin

text \<open>
  How a push consumer pulls: \<open>PullMessageService\<close> (\<open>src/src/consumer/PullMessageService.cpp\<close>), \<open>PullAPIWrapper\<close>
  (\<open>src/src/consumer/PullAPIWrapper.cpp\<close>), the pull part of \<open>DefaultMQPushConsumerImpl\<close> with its callback and its timer task
  (\<open>src/src/consumer/DefaultMQPushConsumerImpl.cpp\<close>), and the pull calls of \<open>MQClientAPIImpl\<close> with \<open>ConsumerInvokeCallback\<close>.

  A pull request is an object on the heap (\<open>u_requests\<close>) whose pointer travels: from the queue of the service into the
  service thread, from there into a timer, a callback waiting for an answer of the broker, or the ten second task of an
  illegal offset, and back. \<open>None\<close> stands for undefined behaviour (a dangling pointer, a malformed answer) or a
  loop that never ends. What \<open>invokeAsync\<close> achieves is the argument \<open>invoke\<close>: no connection, in which case no future is
  made and the callback is dropped; a failed send, which runs the callback at once; or a request under way.
\<close>

section \<open>Types\<close>

datatype PullStatus = FOUND | NO_NEW_MSG | NO_MATCHED_MSG | OFFSET_ILLEGAL | BROKER_TIMEOUT

record PullResultExt =
  x_pullStatus :: PullStatus
  x_nextBeginOffset :: int
  x_minOffset :: int
  x_maxOffset :: int
  x_suggestWhichBrokerId :: int
  x_messageBinary :: string

record push =
  h_pause :: bool
  h_consumeOrderly :: bool
  h_pullThresholdForQueue :: int
  h_consumeConcurrentlyMaxSpan :: int
  h_pullInterval :: int
  h_pullBatchSize :: int
  h_consumeMessageBatchMaxSize :: int
  h_flowControlTimes1 :: int
  h_flowControlTimes2 :: int
  h_stat :: ConsumerStat
  m_pullFromWhichNodeTable :: "(MessageQueue, int) smap"

record pull_callback =
  cb_request :: nat
  cb_consumer :: nat
  cb_subscriptionData :: SubscriptionData
  cb_beginTimestamp :: int
  cb_addr :: string
  cb_header :: CommandCustomHeader

datatype invoke = NoConnection | SendFailed | Sent

text \<open>What the consume services were asked to run: the batches of a concurrent service, or one orderly request.\<close>

datatype consume_work = ConcurrentWork nat nat "addr list list" | OrderlyWork nat nat

record 's pulling =
  u_factory :: "'s factory"
  u_push :: "nat \<Rightarrow> push"
  u_requests :: "nat \<Rightarrow> PullRequest option"
  u_nextRequest :: nat
  u_heap :: heap
  u_nextMsg :: addr
  m_pullRequestQueue :: "nat list"
  u_popping :: bool
  u_later :: "(nat \<times> int) list"
  u_tasks :: "(nat \<times> nat) list"
  u_calls :: "pull_callback list"
  u_works :: "consume_work list"

record 's pull_env =
  v_rb :: "nat \<Rightarrow> 's rb_env"
  v_upd :: "nat \<Rightarrow> 's updater"
  v_ns :: factory_env
  v_decompress :: "string \<Rightarrow> string option"
  v_now :: int

definition s_PullTimeDelayMillsWhenException :: int where "s_PullTimeDelayMillsWhenException = 3000"
definition s_PullTimeDelayMillsWhenFlowControl :: int where "s_PullTimeDelayMillsWhenFlowControl = 100"
definition s_PullTimeDelayMillsWhenSuspend :: int where "s_PullTimeDelayMillsWhenSuspend = 1000"
definition s_BrokerSuspendMaxTimeMillis :: int where "s_BrokerSuspendMaxTimeMillis = 15000"
definition PULL_NOT_FOUND_VALUE :: int where "PULL_NOT_FOUND_VALUE = 19"
definition PULL_RETRY_IMMEDIATELY_VALUE :: int where "PULL_RETRY_IMMEDIATELY_VALUE = 20"
definition PULL_OFFSET_MOVED_VALUE :: int where "PULL_OFFSET_MOVED_VALUE = 21"
definition PROPERTY_MIN_OFFSET :: string where "PROPERTY_MIN_OFFSET = ''MIN_OFFSET''"
definition PROPERTY_MAX_OFFSET :: string where "PROPERTY_MAX_OFFSET = ''MAX_OFFSET''"

definition rb_of :: "nat \<Rightarrow> 's pulling \<Rightarrow> 's rebalance" where
  "rb_of k w = k_rebalance (f_consumers (u_factory w) k)"

definition set_rb :: "nat \<Rightarrow> 's rebalance \<Rightarrow> 's pulling \<Rightarrow> 's pulling" where
  "set_rb k rb w = w\<lparr>u_factory := (u_factory w)\<lparr>f_consumers :=
     (f_consumers (u_factory w))(k := (f_consumers (u_factory w) k)\<lparr>k_rebalance := rb\<rparr>)\<rparr>\<rparr>"

section \<open>PullAPIWrapper\<close>

definition updatePullFromWhichNode :: "MessageQueue \<Rightarrow> int \<Rightarrow> push \<Rightarrow> push" where
  "updatePullFromWhichNode mq brokerId h =
     h\<lparr>m_pullFromWhichNodeTable := map_put mq_lt mq brokerId (m_pullFromWhichNodeTable h)\<rparr>"

definition recalculatePullFromWhichNode :: "MessageQueue \<Rightarrow> push \<Rightarrow> int" where
  "recalculatePullFromWhichNode mq h =
     (case map_find mq_lt mq (m_pullFromWhichNodeTable h) of Some i \<Rightarrow> i | None \<Rightarrow> MASTER_ID)"

definition filter_again :: "SubscriptionData \<Rightarrow> MessageExt list \<Rightarrow> MessageExt list" where
  "filter_again sd msgs =
     (if sd_tagsSet sd \<noteq> [] then filter (\<lambda>m. getTags m \<noteq> [] \<and> set_has str_lt (getTags m) (sd_tagsSet sd)) msgs else msgs)"

definition put_offsets :: "PullResultExt \<Rightarrow> MessageExt \<Rightarrow> MessageExt" where
  "put_offsets r m = putProperty PROPERTY_MAX_OFFSET (show_int (x_maxOffset r)) (putProperty PROPERTY_MIN_OFFSET (show_int (x_minOffset r)) m)"

fun clear_topics :: "string \<Rightarrow> MessageExt list \<Rightarrow> MessageExt list option" where
  "clear_topics prefix [] = Some []"
| "clear_topics prefix (m # ms) =
     (case (clearProjectGroup (msg_topic m) prefix, clear_topics prefix ms) of
        (Some t, Some ms) \<Rightarrow> Some (m\<lparr>msg_topic := t\<rparr> # ms) | _ \<Rightarrow> None)"

text \<open>The message queue and the subscription are passed by reference: both come back. Messages that do not pass the filter are
  freed before the call returns.\<close>

definition processPullResult ::
  "(string \<Rightarrow> string option) \<Rightarrow> string \<Rightarrow> MessageQueue \<Rightarrow> PullResultExt \<Rightarrow> SubscriptionData \<Rightarrow> push
   \<Rightarrow> (MessageQueue \<times> SubscriptionData \<times> MessageExt list \<times> push) option" where
  "processPullResult decompress projectGroupPrefix mq r sd h =
     (let h = updatePullFromWhichNode mq (x_suggestWhichBrokerId r) h in
      if x_pullStatus r = FOUND then
        (case decodes decompress (x_messageBinary r) (int (length (x_messageBinary r))) True of None \<Rightarrow> None
         | Some msgList \<Rightarrow>
             let msgListFilterAgain = filter_again sd msgList in
             if \<not> isBlank projectGroupPrefix then
               (case (clearProjectGroup (sd_topic sd) projectGroupPrefix, clearProjectGroup (m_topic mq) projectGroupPrefix,
                      clear_topics projectGroupPrefix msgListFilterAgain) of
                  (Some t, Some u, Some ms) \<Rightarrow> Some (mq\<lparr>m_topic := u\<rparr>, sd\<lparr>sd_topic := t\<rparr>, map (put_offsets r) ms, h)
                | _ \<Rightarrow> None)
             else Some (mq, sd, map (put_offsets r) msgListFilterAgain, h))
      else Some (mq, sd, [], h))"

text \<open>\<open>pullKernelImpl\<close> up to the call of the client: the broker's address and the request header.\<close>

definition find_pull_broker :: "factory_env \<Rightarrow> push \<Rightarrow> MessageQueue \<Rightarrow> 's factory \<Rightarrow> ((string \<times> bool) \<times> 's factory) option" where
  "find_pull_broker ns h mq f =
     (let brokerId = recalculatePullFromWhichNode mq h in
      case findBrokerAddressInSubscribe (m_brokerName mq) brokerId False f of None \<Rightarrow> None
      | Some (addr, slave) \<Rightarrow>
          if addr = [] then
            (case updateTopicRouteInfoFromNameServer ns False (m_topic mq) False None False f of
               Returned _ f \<Rightarrow> map_option (\<lambda>found. (found, f)) (findBrokerAddressInSubscribe (m_brokerName mq) brokerId False f)
             | _ \<Rightarrow> None)
          else Some ((addr, slave), f))"

definition pullKernelImpl ::
  "factory_env \<Rightarrow> push \<Rightarrow> string \<Rightarrow> MessageQueue \<Rightarrow> string \<Rightarrow> int \<Rightarrow> int \<Rightarrow> int \<Rightarrow> int \<Rightarrow> int \<Rightarrow> int \<Rightarrow> 's factory
   \<Rightarrow> ((mq_exception + string \<times> CommandCustomHeader) \<times> 's factory) option" where
  "pullKernelImpl ns h consumerGroup mq subExpression subVersion offset maxNums sysFlag commitOffset suspendMillis f =
     (case find_pull_broker ns h mq f of None \<Rightarrow> None
      | Some ((addr, slave), f) \<Rightarrow>
          if addr \<noteq> [] then
            let sysFlagInner = (if slave then clearCommitOffsetFlag sysFlag else sysFlag);
                prefix = n_projectGroupPrefix ns
            in (case (with_project prefix consumerGroup, with_project prefix (m_topic mq)) of
                  (Some grp, Some topic) \<Rightarrow>
                    Some (Inr (addr, PullMessageRequestHeader grp topic (m_queueId mq) offset maxNums sysFlagInner commitOffset
                                       suspendMillis subExpression subVersion), f)
                | _ \<Rightarrow> None)
          else Some (Inl (MQClientException (''The broker['' @ m_brokerName mq @ ''] not exist'') (-1)), f))"

section \<open>The pull calls of the client\<close>

text \<open>\<open>None\<close>: the answer has no header of a pull response.\<close>

definition processPullResponse :: "RemotingCommand \<Rightarrow> (mq_exception + PullResultExt) option" where
  "processPullResponse response =
     (let code = cmd_code response;
          found = (\<lambda>status. case cmd_header response of
             Some (PullMessageResponseHeader suggestWhichBrokerId nextBeginOffset minOffset maxOffset) \<Rightarrow>
               Some (Inr \<lparr>x_pullStatus = status, x_nextBeginOffset = nextBeginOffset, x_minOffset = minOffset, x_maxOffset = maxOffset,
                          x_suggestWhichBrokerId = suggestWhichBrokerId, x_messageBinary = (case cmd_body response of None \<Rightarrow> [] | Some b \<Rightarrow> b)\<rparr>)
           | _ \<Rightarrow> None)
      in if code = SUCCESS_VALUE then found FOUND
         else if code = PULL_NOT_FOUND_VALUE then found NO_NEW_MSG
         else if code = PULL_RETRY_IMMEDIATELY_VALUE then found NO_MATCHED_MSG
         else if code = PULL_OFFSET_MOVED_VALUE then found OFFSET_ILLEGAL
         else Some (Inl (MQBrokerException (cmd_remark response) code)))"

text \<open>The synchronous call, as the pull consumer uses it. The message text is in the source's encoding; only the code is kept.\<close>

definition pullMessageSync :: "RemotingCommand option \<Rightarrow> (mq_exception + PullResultExt) option" where
  "pullMessageSync response =
     (case response of None \<Rightarrow> Some (Inl (MQBrokerException '''' 0)) | Some r \<Rightarrow> processPullResponse r)"

section \<open>PullMessageService\<close>

definition executePullRequestLater :: "nat \<Rightarrow> int \<Rightarrow> 's pulling \<Rightarrow> 's pulling" where
  "executePullRequestLater a timeDelay w = w\<lparr>u_later := u_later w @ [(a, timeDelay)]\<rparr>"

definition executePullRequestImmediately :: "nat \<Rightarrow> 's pulling \<Rightarrow> 's pulling" where
  "executePullRequestImmediately a w = w\<lparr>m_pullRequestQueue := m_pullRequestQueue w @ [a]\<rparr>"

section \<open>DefaultMQPushConsumerImpl\<close>

definition set_push :: "nat \<Rightarrow> push \<Rightarrow> 's pulling \<Rightarrow> 's pulling" where
  "set_push k h w = w\<lparr>u_push := (u_push w)(k := h)\<rparr>"

definition set_request :: "nat \<Rightarrow> PullRequest \<Rightarrow> 's pulling \<Rightarrow> 's pulling" where
  "set_request a r w = w\<lparr>u_requests := (u_requests w)(a \<mapsto> r)\<rparr>"

definition set_pq :: "nat \<Rightarrow> nat \<Rightarrow> ProcessQueue \<Rightarrow> 's pulling \<Rightarrow> 's pulling" where
  "set_pq k p pq w = set_rb k ((rb_of k w)\<lparr>w_pqs := (w_pqs (rb_of k w))(p \<mapsto> pq)\<rparr>) w"

definition set_store :: "nat \<Rightarrow> 's \<Rightarrow> 's pulling \<Rightarrow> 's pulling" where
  "set_store k st w = set_rb k ((rb_of k w)\<lparr>w_store := st\<rparr>) w"

text \<open>\<open>delete pPullRequest\<close>: the destructor deletes the process queue too.\<close>

definition delete_pullRequest :: "nat \<Rightarrow> nat \<Rightarrow> PullRequest \<Rightarrow> 's pulling \<Rightarrow> 's pulling" where
  "delete_pullRequest k a r w = set_rb k (delete_request r (rb_of k w)) (w\<lparr>u_requests := (u_requests w)(a := None)\<rparr>)"

definition correctTagsOffset :: "'s pull_env \<Rightarrow> nat \<Rightarrow> PullRequest \<Rightarrow> ProcessQueue \<Rightarrow> 's pulling \<Rightarrow> 's pulling" where
  "correctTagsOffset env k r pq w =
     (if m_msgCount pq = 0
      then set_store k (v_upd env k (pr_messageQueue r) (pr_nextOffset r) True (w_store (rb_of k w))) w else w)"

definition executeTaskLater :: "nat \<Rightarrow> nat \<Rightarrow> 's pulling \<Rightarrow> 's pulling" where
  "executeTaskLater k a w = w\<lparr>u_tasks := u_tasks w @ [(a, k)]\<rparr>"

definition onException :: "nat \<Rightarrow> 's pulling \<Rightarrow> 's pulling" where
  "onException a w = executePullRequestLater a s_PullTimeDelayMillsWhenException w"

text \<open>The offset sent along for the broker to commit: positive ones only, and only when clustering.\<close>

definition commit_offset :: "'s pull_env \<Rightarrow> nat \<Rightarrow> MessageQueue \<Rightarrow> 's rebalance \<Rightarrow> bool \<times> int \<times> 's" where
  "commit_offset env k mq rb =
     (if m_messageModel rb = CLUSTERING
      then let (v, st) = so_readOffset (e_store (v_rb env k)) mq READ_FROM_MEMORY (w_store rb) in (v > 0, v, st)
      else (False, 0, w_store rb))"

text \<open>The end of \<open>pullMessage\<close>: the request goes to the broker.\<close>

definition send_pull ::
  "'s pull_env \<Rightarrow> invoke \<Rightarrow> nat \<Rightarrow> nat \<Rightarrow> PullRequest \<Rightarrow> SubscriptionData \<Rightarrow> 's pulling \<Rightarrow> 's pulling option" where
  "send_pull env how k a r sd w =
     (let (enable, commitOffset, st) = commit_offset env k (pr_messageQueue r) (rb_of k w);
          w = set_store k st w; h = u_push w k
      in case pullKernelImpl (v_ns env) h (m_consumerGroup (rb_of k w)) (pr_messageQueue r) '''' (sd_subVersion sd) (pr_nextOffset r)
                (h_pullBatchSize h) (buildSysFlag enable True False) commitOffset s_BrokerSuspendMaxTimeMillis (u_factory w) of
           None \<Rightarrow> None
         | Some (Inl e, f) \<Rightarrow> Some (executePullRequestLater a s_PullTimeDelayMillsWhenException (w\<lparr>u_factory := f\<rparr>))
         | Some (Inr (addr, header), f) \<Rightarrow>
             let w = w\<lparr>u_factory := f\<rparr> in
             (case how of
                NoConnection \<Rightarrow> Some w
              | SendFailed \<Rightarrow> Some (onException a w)
              | Sent \<Rightarrow> Some (w\<lparr>u_calls := u_calls w @ [\<lparr>cb_request = a, cb_consumer = k, cb_subscriptionData = sd,
                                 cb_beginTimestamp = v_now env, cb_addr = addr, cb_header = header\<rparr>]\<rparr>)))"

definition push_pullMessage :: "'s pull_env \<Rightarrow> invoke \<Rightarrow> nat \<Rightarrow> nat \<Rightarrow> 's pulling \<Rightarrow> 's pulling option" where
  "push_pullMessage env how k a w =
     (case u_requests w a of None \<Rightarrow> None
      | Some r \<Rightarrow>
        (case w_pqs (rb_of k w) (pr_processQueue r) of None \<Rightarrow> None
         | Some pq \<Rightarrow>
             let h = u_push w k in
             if m_droped pq then
               (if m_msgTreeMap pq = [] then Some (delete_pullRequest k a r w)
                else Some (executePullRequestLater a s_PullTimeDelayMillsWhenException w))
             else if k_serviceState (f_consumers (u_factory w) k) \<noteq> RUNNING
             then Some (executePullRequestLater a s_PullTimeDelayMillsWhenException w)
             else if h_pause h then Some (executePullRequestLater a s_PullTimeDelayMillsWhenSuspend w)
             else if m_msgCount pq > h_pullThresholdForQueue h
             then Some (set_push k (h\<lparr>h_flowControlTimes1 := s64 (h_flowControlTimes1 h + 1)\<rparr>)
                          (executePullRequestLater a s_PullTimeDelayMillsWhenFlowControl w))
             else if \<not> h_consumeOrderly h \<and> getMaxSpan pq > h_consumeConcurrentlyMaxSpan h
             then Some (set_push k (h\<lparr>h_flowControlTimes2 := s64 (h_flowControlTimes2 h + 1)\<rparr>)
                          (executePullRequestLater a s_PullTimeDelayMillsWhenFlowControl w))
             else (case snd (hasSubscribe (m_topic (pr_messageQueue r)) (rb_of k w)) of
                     None \<Rightarrow> Some (executePullRequestLater a s_PullTimeDelayMillsWhenException w)
                   | Some sd \<Rightarrow> send_pull env how k a r sd w)))"

section \<open>The callback\<close>

text \<open>New messages get the next addresses.\<close>

definition alloc_msgs :: "MessageExt list \<Rightarrow> 's pulling \<Rightarrow> addr list \<times> 's pulling" where
  "alloc_msgs ms w =
     (let ps = [u_nextMsg w ..< u_nextMsg w + length ms]
      in (ps, w\<lparr>u_heap := (\<lambda>p. if u_nextMsg w \<le> p \<and> p < u_nextMsg w + length ms then Some (ms ! (p - u_nextMsg w)) else u_heap w p),
                u_nextMsg := u_nextMsg w + length ms\<rparr>))"

definition submitConsumeRequest :: "push \<Rightarrow> nat \<Rightarrow> nat \<Rightarrow> addr list \<Rightarrow> bool \<Rightarrow> 's pulling \<Rightarrow> 's pulling option" where
  \<comment> \<open>the virtual method of the two consume services\<close>
  "submitConsumeRequest h k a ps dispathToConsume w =
     (if h_consumeOrderly h
      then Some (w\<lparr>u_works := u_works w @ replicate (fst (orderly_submitConsumeRequest (Some ps) dispathToConsume)) (OrderlyWork k a)\<rparr>)
      else map_option (\<lambda>(reqs, _). w\<lparr>u_works := u_works w @ [ConcurrentWork k a reqs]\<rparr>)
             (conc_submitConsumeRequest (h_consumeMessageBatchMaxSize h) ps))"

definition pull_stat :: "int \<Rightarrow> push \<Rightarrow> push" where
  "pull_stat pullRT h = h\<lparr>h_stat := (h_stat h)
     \<lparr>pullTimesTotal := snd (atomic_fetchAndAdd 1 (pullTimesTotal (h_stat h))),
      pullRTTotal := snd (atomic_fetchAndAdd pullRT (pullRTTotal (h_stat h)))\<rparr>\<rparr>"

text \<open>The branch for found messages, after the answer was decoded into \<open>ms\<close>.\<close>

definition on_found ::
  "'s pull_env \<Rightarrow> pull_callback \<Rightarrow> PullRequest \<Rightarrow> ProcessQueue \<Rightarrow> MessageExt list \<Rightarrow> 's pulling \<Rightarrow> 's pulling option" where
  "on_found env cb r pq ms w =
     (let a = cb_request cb; k = cb_consumer cb;
          w = set_push k (pull_stat (s64 (v_now env - cb_beginTimestamp cb)) (u_push w k)) w;
          (ps, w) = alloc_msgs ms w; h = u_push w k
      in case putMessage (u_heap w) ps pq of None \<Rightarrow> None
         | Some (dispathToConsume, pq) \<Rightarrow>
             map_option (if h_pullInterval h > 0 then executePullRequestLater a (h_pullInterval h) else executePullRequestImmediately a)
               (submitConsumeRequest h k a ps dispathToConsume (set_pq k (pr_processQueue r) pq w)))"

definition onSuccess :: "'s pull_env \<Rightarrow> pull_callback \<Rightarrow> PullResultExt \<Rightarrow> 's pulling \<Rightarrow> 's pulling option" where
  "onSuccess env cb result w =
     (let a = cb_request cb; k = cb_consumer cb in
      case u_requests w a of None \<Rightarrow> None
      | Some r \<Rightarrow>
        (case (w_pqs (rb_of k w) (pr_processQueue r),
               processPullResult (v_decompress env) (n_projectGroupPrefix (v_ns env)) (pr_messageQueue r) result
                 (cb_subscriptionData cb) (u_push w k)) of
           (Some pq, Some (mq, _, ms, h)) \<Rightarrow>
             let r = r\<lparr>pr_messageQueue := mq\<rparr>; r' = r\<lparr>pr_nextOffset := x_nextBeginOffset result\<rparr>; w = set_push k h w in
             (case x_pullStatus result of
                FOUND \<Rightarrow> on_found env cb r' pq ms (set_request a r' w)
              | NO_NEW_MSG \<Rightarrow> Some (executePullRequestImmediately a (correctTagsOffset env k r' pq (set_request a r' w)))
              | NO_MATCHED_MSG \<Rightarrow> Some (executePullRequestImmediately a (correctTagsOffset env k r' pq (set_request a r' w)))
              | OFFSET_ILLEGAL \<Rightarrow>
                  Some (executeTaskLater k a (set_pq k (pr_processQueue r') (setDroped True pq) (set_request a r' w)))
              | BROKER_TIMEOUT \<Rightarrow> Some (set_request a r w))
         | _ \<Rightarrow> None))"

text \<open>\<open>ConsumerInvokeCallback::operationComplete\<close>: without an answer all three branches report an exception.\<close>

definition operationComplete :: "'s pull_env \<Rightarrow> pull_callback \<Rightarrow> RemotingCommand option \<Rightarrow> 's pulling \<Rightarrow> 's pulling option" where
  "operationComplete env cb response w =
     (case response of None \<Rightarrow> Some (onException (cb_request cb) w)
      | Some c \<Rightarrow>
          (case processPullResponse c of None \<Rightarrow> None
           | Some (Inl e) \<Rightarrow> Some (onException (cb_request cb) w)
           | Some (Inr result) \<Rightarrow> onSuccess env cb result w))"

definition ExecutePullTaskLater_OnTimeOut :: "'s pull_env \<Rightarrow> nat \<Rightarrow> nat \<Rightarrow> 's pulling \<Rightarrow> 's pulling option" where
  "ExecutePullTaskLater_OnTimeOut env a k w =
     (case u_requests w a of None \<Rightarrow> None
      | Some r \<Rightarrow>
          let mq = pr_messageQueue r;
              w = set_store k (v_upd env k mq (pr_nextOffset r) False (w_store (rb_of k w))) w;
              w = set_store k (so_persist (e_store (v_rb env k)) mq (w_store (rb_of k w))) w
          in map_option (\<lambda>rb. set_rb k rb w) (removeProcessQueue (v_rb env k) mq (rb_of k w)))"

section \<open>Threads\<close>

definition service_pullMessage :: "'s pull_env \<Rightarrow> invoke \<Rightarrow> nat \<Rightarrow> 's pulling \<Rightarrow> 's pulling option" where
  "service_pullMessage env how a w =
     (case u_requests w a of None \<Rightarrow> None
      | Some r \<Rightarrow>
          (case selectConsumer (pr_consumerGroup r) (u_factory w) of
             Some k \<Rightarrow> push_pullMessage env how k a w
           | None \<Rightarrow> Some w))"

text \<open>One round of \<open>Run\<close> takes the first request without removing it, pulls, and removes the front afterwards. The other threads
  may run in between, so these are two steps.\<close>

definition Run_pull :: "'s pull_env \<Rightarrow> invoke \<Rightarrow> 's pulling \<Rightarrow> 's pulling option" where
  "Run_pull env how w =
     (case m_pullRequestQueue w of
        a # _ \<Rightarrow> if u_popping w then Some w else map_option (\<lambda>w. w\<lparr>u_popping := True\<rparr>) (service_pullMessage env how a w)
      | [] \<Rightarrow> Some w)"

definition Run_pop :: "'s pulling \<Rightarrow> 's pulling" where
  "Run_pop w = (if u_popping w then w\<lparr>m_pullRequestQueue := tl (m_pullRequestQueue w), u_popping := False\<rparr> else w)"

definition remove_nth :: "nat \<Rightarrow> 'a list \<Rightarrow> 'a list" where
  "remove_nth i xs = take i xs @ drop (Suc i) xs"

definition PullMessageLater_OnTimeOut :: "nat \<Rightarrow> 's pulling \<Rightarrow> 's pulling" where
  "PullMessageLater_OnTimeOut i w =
     (if i < length (u_later w)
      then executePullRequestImmediately (fst (u_later w ! i)) (w\<lparr>u_later := remove_nth i (u_later w)\<rparr>) else w)"

text \<open>\<open>RebalancePushImpl::dispatchPullRequest\<close>: what a rebalance left in \<open>w_dispatched\<close> is on the heap and in the queue.\<close>

definition enqueue_request :: "PullRequest \<Rightarrow> 's pulling \<Rightarrow> 's pulling" where
  "enqueue_request r w =
     executePullRequestImmediately (u_nextRequest w)
       (set_request (u_nextRequest w) r (w\<lparr>u_nextRequest := Suc (u_nextRequest w)\<rparr>))"

definition rebalance_topic :: "'s pull_env \<Rightarrow> nat \<Rightarrow> string \<Rightarrow> MessageQueue list \<Rightarrow> 's pulling \<Rightarrow> 's pulling option" where
  "rebalance_topic env k topic mqSet w =
     map_option (\<lambda>(_, rb). fold enqueue_request (w_dispatched rb) (set_rb k (rb\<lparr>w_dispatched := []\<rparr>) w))
       (out_state (updateProcessQueueTableInRebalance (v_rb env k) topic mqSet (rb_of k w)))"

datatype pull_action = RunPull invoke | RunPop | LaterFires nat | TaskFires nat | Completes nat "RemotingCommand option"
  | Rebalanced string string "MessageQueue list"

definition pull_step :: "'s pull_env \<Rightarrow> pull_action \<Rightarrow> 's pulling \<Rightarrow> 's pulling option" where
  "pull_step env act w =
     (case act of
        RunPull how \<Rightarrow> Run_pull env how w
      | RunPop \<Rightarrow> Some (Run_pop w)
      | LaterFires i \<Rightarrow> Some (PullMessageLater_OnTimeOut i w)
      | TaskFires i \<Rightarrow>
          (if i < length (u_tasks w)
           then ExecutePullTaskLater_OnTimeOut env (fst (u_tasks w ! i)) (snd (u_tasks w ! i)) (w\<lparr>u_tasks := remove_nth i (u_tasks w)\<rparr>)
           else Some w)
      | Completes i response \<Rightarrow>
          (if i < length (u_calls w)
           then operationComplete env (u_calls w ! i) response (w\<lparr>u_calls := remove_nth i (u_calls w)\<rparr>) else Some w)
      | Rebalanced grp topic mqSet \<Rightarrow>
          (case selectConsumer grp (u_factory w) of None \<Rightarrow> Some w | Some k \<Rightarrow> rebalance_topic env k topic mqSet w))"

fun pull_run :: "'s pull_env \<Rightarrow> pull_action list \<Rightarrow> 's pulling \<Rightarrow> 's pulling option" where
  "pull_run env [] w = Some w"
| "pull_run env (act # acts) w = Option.bind (pull_step env act w) (pull_run env acts)"

section \<open>Where the requests are\<close>

text \<open>The pointers to pull requests: in the queue (the front is stale while the service thread is about to remove it), in a timer, in a
  ten second task, in a callback.\<close>

definition places :: "'s pulling \<Rightarrow> nat list" where
  "places w = (if u_popping w then tl (m_pullRequestQueue w) else m_pullRequestQueue w)
     @ map fst (u_later w) @ map fst (u_tasks w) @ map cb_request (u_calls w)"

definition held :: "'s pulling \<Rightarrow> (nat \<times> nat) set" where
  "held w = set (u_tasks w) \<union> (\<lambda>cb. (cb_request cb, cb_consumer cb)) ` set (u_calls w)"

text \<open>What the bookkeeping depends on: who is registered, each consumer's table and drop marks, and which queue a request is for.\<close>

definition rb_core :: "'s rebalance \<Rightarrow> (MessageQueue, nat) smap \<times> (nat \<Rightarrow> bool option) \<times> nat \<times> string \<times> PullRequest list" where
  "rb_core rb = (m_processQueueTable rb, (\<lambda>p. map_option m_droped (w_pqs rb p)), w_next rb, m_consumerGroup rb, w_dispatched rb)"

definition entry_at :: "'s pulling \<Rightarrow> nat \<Rightarrow> (string \<times> MessageQueue \<times> nat) option" where
  "entry_at w a = map_option (\<lambda>r. (pr_consumerGroup r, pr_messageQueue r, pr_processQueue r)) (u_requests w a)"

definition registered :: "'s pulling \<Rightarrow> nat \<Rightarrow> bool" where
  "registered w k \<longleftrightarrow> selectConsumer (m_consumerGroup (rb_of k w)) (u_factory w) = Some k"

definition flag :: "'s pulling \<Rightarrow> nat \<Rightarrow> nat \<Rightarrow> bool option" where
  "flag w k p = map_option m_droped (w_pqs (rb_of k w) p)"

definition entry :: "'s pulling \<Rightarrow> nat \<Rightarrow> MessageQueue \<Rightarrow> nat \<Rightarrow> nat \<Rightarrow> bool" where
  "entry w k mq p a \<longleftrightarrow> entry_at w a = Some (m_consumerGroup (rb_of k w), mq, p)"

definition same_core :: "'s pulling \<Rightarrow> 's pulling \<Rightarrow> bool" where
  "same_core w w' \<longleftrightarrow> (\<forall>g. selectConsumer g (u_factory w') = selectConsumer g (u_factory w)) \<and>
     (\<forall>k. rb_core (rb_of k w') = rb_core (rb_of k w)) \<and> entry_at w' = entry_at w \<and> u_nextRequest w' = u_nextRequest w"

text \<open>The invariant: every pointer to a request is in one place only and points to a live request with a live process queue, and every
  queue in a consumer's table has its request in one of the places, unless it is in the set \<open>L\<close> of queues whose request was lost.\<close>

definition pull_inv :: "(nat \<times> MessageQueue \<times> nat) set \<Rightarrow> 's pulling \<Rightarrow> bool" where
  "pull_inv L w \<longleftrightarrow> distinct (places w) \<and> (u_popping w \<longrightarrow> m_pullRequestQueue w \<noteq> []) \<and>
     (\<forall>a \<in> set (places w). a < u_nextRequest w \<and> (\<exists>k mq p. registered w k \<and> entry w k mq p a \<and> flag w k p \<noteq> None \<and> mq_ok mq)) \<and>
     (\<forall>(a, k) \<in> held w. registered w k \<and> (\<exists>mq p. entry w k mq p a)) \<and>
     (\<forall>k. registered w k \<longrightarrow> rb_wf (rb_of k w) \<and> w_dispatched (rb_of k w) = [] \<and>
        (\<forall>(mq, p) \<in> tab (rb_of k w). (k, mq, p) \<in> L \<or> (\<exists>a \<in> set (places w). entry w k mq p a))) \<and>
     (\<forall>(k, mq, p) \<in> L. registered w k \<and> p < w_next (rb_of k w) \<and> (\<forall>m. \<forall>a \<in> set (places w). \<not> entry w k m p a)) \<and>
     (\<forall>k mq mq' p a b. a \<in> set (places w) \<and> b \<in> set (places w) \<and> registered w k \<and> entry w k mq p a \<and> entry w k mq' p b \<longrightarrow> a = b) \<and>
     (\<forall>k mq p. registered w k \<and> (mq, p) \<in> tab (rb_of k w) \<and> flag w k p = Some True \<longrightarrow> (\<exists>a \<in> fst ` set (u_tasks w). entry w k mq p a)) \<and>
     (\<forall>g k. selectConsumer g (u_factory w) = Some k \<longrightarrow> m_consumerGroup (rb_of k w) = g)"

lemma rb_coreD:
  assumes "rb_core rb' = rb_core rb"
  shows "m_processQueueTable rb' = m_processQueueTable rb" "m_consumerGroup rb' = m_consumerGroup rb" "w_dispatched rb' = w_dispatched rb"
    "map_option m_droped (w_pqs rb' p) = map_option m_droped (w_pqs rb p)" "w_next rb' = w_next rb" "rb_wf rb' = rb_wf rb"
proof -
  show *: "m_processQueueTable rb' = m_processQueueTable rb" "m_consumerGroup rb' = m_consumerGroup rb" "w_dispatched rb' = w_dispatched rb"
    "w_next rb' = w_next rb" using assms by (simp_all add: rb_core_def)
  have d: "map_option m_droped (w_pqs rb' p) = map_option m_droped (w_pqs rb p)" for p
    using assms by (simp add: rb_core_def fun_eq_iff)
  then show "map_option m_droped (w_pqs rb' p) = map_option m_droped (w_pqs rb p)" .
  have "w_pqs rb' p = None \<longleftrightarrow> w_pqs rb p = None" for p using d [of p] by (metis option.map_disc_iff)
  then show "rb_wf rb' = rb_wf rb" using * by (simp add: rb_wf_def)
qed

lemma same_coreD:
  assumes "same_core w w'"
  shows "registered w' k = registered w k" "entry w' k mq p a = entry w k mq p a" "flag w' k p = flag w k p"
    "tab (rb_of k w') = tab (rb_of k w)" "rb_wf (rb_of k w') = rb_wf (rb_of k w)" "w_dispatched (rb_of k w') = w_dispatched (rb_of k w)"
    "m_consumerGroup (rb_of k w') = m_consumerGroup (rb_of k w)" "selectConsumer g (u_factory w') = selectConsumer g (u_factory w)"
    "u_nextRequest w' = u_nextRequest w" "w_next (rb_of k w') = w_next (rb_of k w)"
proof -
  have "rb_core (rb_of k w') = rb_core (rb_of k w)" using assms by (simp add: same_core_def)
  note c = rb_coreD [OF this]
  show "registered w' k = registered w k" "entry w' k mq p a = entry w k mq p a" "flag w' k p = flag w k p"
    "tab (rb_of k w') = tab (rb_of k w)" "rb_wf (rb_of k w') = rb_wf (rb_of k w)" "w_dispatched (rb_of k w') = w_dispatched (rb_of k w)"
    "m_consumerGroup (rb_of k w') = m_consumerGroup (rb_of k w)" "selectConsumer g (u_factory w') = selectConsumer g (u_factory w)"
    "u_nextRequest w' = u_nextRequest w" "w_next (rb_of k w') = w_next (rb_of k w)"
    using assms c by (simp_all add: same_core_def registered_def entry_def flag_def)
qed

lemma same_core_refl [simp]: "same_core w w"
  by (simp add: same_core_def)

lemma same_core_trans: "same_core w v \<Longrightarrow> same_core v u \<Longrightarrow> same_core w u"
  by (simp add: same_core_def)

lemma pull_inv_move:
  assumes "pull_inv L w" "same_core w w'" "mset (places w') = mset (places w)" "u_popping w' \<longrightarrow> m_pullRequestQueue w' \<noteq> []"
    and "set (u_tasks w') = set (u_tasks w)" "\<forall>(a, k) \<in> held w'. registered w k \<and> (\<exists>mq p. entry w k mq p a)"
  shows "pull_inv L w'"
proof -
  have "set (places w') = set (places w)" "distinct (places w') = distinct (places w)"
    using assms(3) by (metis set_mset_mset, metis mset_eq_imp_distinct_iff)
  note sets = this
  show ?thesis using assms(1,4-6) unfolding pull_inv_def same_coreD [OF assms(2)] sets
    by (elim conjE, intro conjI) (assumption | simp)+
qed

subsection \<open>Operations that keep the bookkeeping\<close>

lemma rb_of_set_rb [simp]: "rb_of j (set_rb k rb w) = (if j = k then rb else rb_of j w)"
  by (simp add: rb_of_def set_rb_def)

lemma set_rb_rest [simp]:
  "u_requests (set_rb k rb w) = u_requests w" "u_nextRequest (set_rb k rb w) = u_nextRequest w" "u_later (set_rb k rb w) = u_later w"
  "u_tasks (set_rb k rb w) = u_tasks w" "u_calls (set_rb k rb w) = u_calls w" "m_pullRequestQueue (set_rb k rb w) = m_pullRequestQueue w"
  "u_popping (set_rb k rb w) = u_popping w" "u_push (set_rb k rb w) = u_push w" "u_heap (set_rb k rb w) = u_heap w"
  "u_nextMsg (set_rb k rb w) = u_nextMsg w" "u_works (set_rb k rb w) = u_works w"
  "selectConsumer g (u_factory (set_rb k rb w)) = selectConsumer g (u_factory w)"
  by (simp_all add: set_rb_def selectConsumer_def)

lemma same_core_set_rb: "rb_core rb = rb_core (rb_of k w) \<Longrightarrow> same_core w (set_rb k rb w)"
  by (simp add: same_core_def entry_at_def fun_eq_iff)

lemma same_core_set_store [simp]: "same_core w (set_store k st w)"
  unfolding set_store_def by (rule same_core_set_rb) (simp add: rb_core_def)

lemma same_core_set_pq:
  "map_option m_droped (w_pqs (rb_of k w) p) = Some (m_droped pq) \<Longrightarrow> same_core w (set_pq k p pq w)"
  unfolding set_pq_def by (rule same_core_set_rb) (auto simp: rb_core_def fun_eq_iff)

lemma same_core_fields:
  "u_factory w' = u_factory w \<Longrightarrow> u_requests w' = u_requests w \<Longrightarrow> u_nextRequest w' = u_nextRequest w \<Longrightarrow> same_core w w'"
  by (simp add: same_core_def rb_of_def entry_at_def fun_eq_iff)

lemma same_core_set_push [simp]: "same_core w (set_push k h w)"
  by (rule same_core_fields) (simp_all add: set_push_def)

lemma same_core_set_request:
  "entry_at w a = Some (pr_consumerGroup r, pr_messageQueue r, pr_processQueue r) \<Longrightarrow> same_core w (set_request a r w)"
  by (auto simp: same_core_def rb_of_def set_request_def entry_at_def fun_eq_iff)

lemma same_core_factory:
  assumes "\<And>g. selectConsumer g f = selectConsumer g (u_factory w)"
    and "\<And>k. rb_core (k_rebalance (f_consumers f k)) = rb_core (k_rebalance (f_consumers (u_factory w) k))"
  shows "same_core w (w\<lparr>u_factory := f\<rparr>)"
  using assms by (simp add: same_core_def rb_of_def entry_at_def fun_eq_iff)

lemmas places_simps = places_def held_def executePullRequestLater_def executePullRequestImmediately_def executeTaskLater_def
  onException_def set_push_def set_request_def set_pq_def set_store_def

text \<open>A route update changes the topic information of the consumers and nothing the bookkeeping depends on.\<close>

lemma update_consumers_core:
  "rb_core (k_rebalance (update_consumers topic info table cs k)) = rb_core (k_rebalance (cs k))"
  unfolding update_consumers_def
proof (induction table arbitrary: cs)
  case (Cons e table)
  obtain g b where e: "e = (g, b)" by (cases e)
  define cs' where "cs' = cs(b := updateTopicSubscribeInfo topic info (cs b))"
  have "rb_core (k_rebalance (cs' k)) = rb_core (k_rebalance (cs k))"
    by (simp add: cs'_def updateTopicSubscribeInfo_def rb_core_def)
  with Cons.IH [of cs'] e show ?case by (simp add: cs'_def)
qed simp

lemma route_update_core:
  assumes "updateTopicRouteInfoFromNameServer ns hl topic d p l f = Returned b f'"
  shows "selectConsumer g f' = selectConsumer g f" "rb_core (k_rebalance (f_consumers f' k)) = rb_core (k_rebalance (f_consumers f k))"
  using assms by (auto simp: updateTopicRouteInfoFromNameServer_def install_route_def Let_def selectConsumer_def update_consumers_core
      split: if_splits jres.splits sum.splits option.splits)

lemma find_pull_broker_core:
  assumes "find_pull_broker ns h mq f = Some (x, f')"
  shows "selectConsumer g f' = selectConsumer g f" "rb_core (k_rebalance (f_consumers f' k)) = rb_core (k_rebalance (f_consumers f k))"
  using assms route_update_core [of ns False "m_topic mq" False None False f _ f']
  by (auto simp: find_pull_broker_def Let_def split: option.splits if_splits locked.splits)

lemma pullKernelImpl_core:
  assumes "pullKernelImpl ns h grp mq e v off n fl c s f = Some (x, f')"
  shows "selectConsumer g f' = selectConsumer g f" "rb_core (k_rebalance (f_consumers f' k)) = rb_core (k_rebalance (f_consumers f k))"
  using assms find_pull_broker_core [of ns h mq f _ f']
  by (auto simp: pullKernelImpl_def Let_def split: option.splits if_splits)

lemma submit_core:
  assumes "submitConsumeRequest h k a ps d w = Some w'"
  shows "same_core w w'" "places w' = places w" "held w' = held w" "u_tasks w' = u_tasks w" "u_popping w' = u_popping w"
    "m_pullRequestQueue w' = m_pullRequestQueue w"
  using assms by (auto simp: submitConsumeRequest_def places_def held_def intro!: same_core_fields split: if_splits)

lemma alloc_core:
  assumes "alloc_msgs ms w = (ps, w')"
  shows "same_core w w'" "places w' = places w" "held w' = held w" "u_tasks w' = u_tasks w" "u_popping w' = u_popping w"
    "m_pullRequestQueue w' = m_pullRequestQueue w" "u_push w' = u_push w"
  using assms by (auto simp: alloc_msgs_def Let_def places_def held_def intro!: same_core_fields)

subsection \<open>Putting a request into a place\<close>

definition placed :: "nat \<Rightarrow> 's pulling \<Rightarrow> 's pulling \<Rightarrow> bool" where
  "placed a w w' \<longleftrightarrow> same_core w w' \<and> u_popping w' = u_popping w \<and> u_tasks w' = u_tasks w \<and>
     (\<exists>q. m_pullRequestQueue w' = m_pullRequestQueue w @ q \<and>
        mset (q @ map fst (u_later w') @ map cb_request (u_calls w')) = add_mset a (mset (map fst (u_later w) @ map cb_request (u_calls w)))) \<and>
     (\<forall>(b, k) \<in> held w'. (b, k) \<in> held w \<or> registered w k \<and> (\<exists>mq p. entry w k mq p b))"

lemma placed_later: "placed a w (executePullRequestLater a d w)"
  by (auto simp: placed_def places_simps intro!: same_core_fields)

lemma placed_now: "placed a w (executePullRequestImmediately a w)"
  by (auto simp: placed_def places_simps intro!: same_core_fields)

lemma placed_exception: "placed a w (onException a w)"
  unfolding onException_def by (rule placed_later)

lemma placed_call:
  assumes "registered w (cb_consumer cb)" "entry w (cb_consumer cb) mq p (cb_request cb)"
  shows "placed (cb_request cb) w (w\<lparr>u_calls := u_calls w @ [cb]\<rparr>)"
  using assms by (auto simp: placed_def places_simps intro!: same_core_fields)

lemma placed_after:
  assumes "same_core w v" "u_popping v = u_popping w" "u_tasks v = u_tasks w" "m_pullRequestQueue v = m_pullRequestQueue w"
    "u_later v = u_later w" "u_calls v = u_calls w" "placed a v w'"
  shows "placed a w w'"
proof -
  have "held v = held w" using assms(3,6) by (simp add: held_def)
  then show ?thesis using assms(2-7) same_core_trans [OF assms(1)] unfolding placed_def same_coreD [OF assms(1)] by simp
qed

lemma placed_before:
  assumes "placed a w v" "same_core v w'" "u_popping w' = u_popping v" "u_tasks w' = u_tasks v"
    "m_pullRequestQueue w' = m_pullRequestQueue v" "u_later w' = u_later v" "u_calls w' = u_calls v"
  shows "placed a w w'"
proof -
  have "held w' = held v" using assms(4,7) by (simp add: held_def)
  then show ?thesis using assms same_core_trans [OF _ assms(2), of w] unfolding placed_def by simp
qed

lemma pull_inv_held: "pull_inv L w \<Longrightarrow> (a, k) \<in> held w \<Longrightarrow> registered w k \<and> (\<exists>mq p. entry w k mq p a)"
  unfolding pull_inv_def by blast

lemma placed_held: "placed a w w' \<Longrightarrow> (b, k) \<in> held w' \<Longrightarrow> (b, k) \<in> held w \<or> registered w k \<and> (\<exists>mq p. entry w k mq p b)"
  unfolding placed_def by blast

lemma pull_inv_placed:
  assumes "pull_inv L w" "same_core w v" "mset (places w) = add_mset a (mset (places v))" "set (u_tasks v) = set (u_tasks w)" "held v \<subseteq> held w"
    and "u_popping v \<longrightarrow> m_pullRequestQueue v \<noteq> []" "placed a v w'"
  shows "pull_inv L w'"
proof (rule pull_inv_move [OF assms(1)])
  show "same_core w w'" using assms(2,7) by (auto simp: placed_def intro: same_core_trans)
  show "mset (places w') = mset (places w)" using assms(3,6,7) by (auto simp: placed_def places_def)
  show "u_popping w' \<longrightarrow> m_pullRequestQueue w' \<noteq> []" "set (u_tasks w') = set (u_tasks w)"
    using assms(4,6,7) by (auto simp: placed_def)
  show "\<forall>(a, k) \<in> held w'. registered w k \<and> (\<exists>mq p. entry w k mq p a)"
    using placed_held [OF assms(7)] pull_inv_held [OF assms(1)] assms(5) unfolding same_coreD [OF assms(2)] by blast
qed

lemma pull_inv_pulled:
  assumes "pull_inv L w" "m_pullRequestQueue w = a # q" "\<not> u_popping w" "placed a w w'"
  shows "pull_inv L (w'\<lparr>u_popping := True\<rparr>)"
proof (rule pull_inv_move [OF assms(1)])
  show "same_core w (w'\<lparr>u_popping := True\<rparr>)"
    using assms(4) by (auto simp: placed_def intro: same_core_trans [OF _ same_core_fields])
  show "mset (places (w'\<lparr>u_popping := True\<rparr>)) = mset (places w)" using assms(2-4) by (auto simp: placed_def places_def)
  show "u_popping (w'\<lparr>u_popping := True\<rparr>) \<longrightarrow> m_pullRequestQueue (w'\<lparr>u_popping := True\<rparr>) \<noteq> []"
    "set (u_tasks (w'\<lparr>u_popping := True\<rparr>)) = set (u_tasks w)" using assms(2,4) by (auto simp: placed_def)
  have "held (w'\<lparr>u_popping := True\<rparr>) = held w'" by (simp add: held_def)
  then show "\<forall>(a, k) \<in> held (w'\<lparr>u_popping := True\<rparr>). registered w k \<and> (\<exists>mq p. entry w k mq p a)"
    using placed_held [OF assms(4)] pull_inv_held [OF assms(1)] by blast
qed

subsection \<open>Pulling\<close>

lemma send_pull_placed:
  assumes "send_pull env how k a r sd w = Some w'" "how \<noteq> NoConnection" "registered w k" "entry w k mq p a"
  shows "placed a w w'"
proof -
  obtain en c st where co: "commit_offset env k (pr_messageQueue r) (rb_of k w) = (en, c, st)"
    by (cases "commit_offset env k (pr_messageQueue r) (rb_of k w)")
  define v where "v = set_store k st w"
  have v: "same_core w v" "u_popping v = u_popping w" "u_tasks v = u_tasks w" "m_pullRequestQueue v = m_pullRequestQueue w"
    "u_later v = u_later w" "u_calls v = u_calls w" by (simp_all add: v_def) (simp_all add: set_store_def)
  from assms(1) obtain x f where ker: "pullKernelImpl (v_ns env) (u_push v k) (m_consumerGroup (rb_of k v)) (pr_messageQueue r) '''' (sd_subVersion sd)
      (pr_nextOffset r) (h_pullBatchSize (u_push v k)) (buildSysFlag en True False) c s_BrokerSuspendMaxTimeMillis (u_factory v) = Some (x, f)"
    by (auto simp: send_pull_def co v_def [symmetric] Let_def split: option.splits)
  define u where "u = v\<lparr>u_factory := f\<rparr>"
  have sc: "same_core v u" unfolding u_def by (rule same_core_factory) (simp_all add: pullKernelImpl_core [OF ker])
  have u: "same_core w u" "u_popping u = u_popping w" "u_tasks u = u_tasks w" "m_pullRequestQueue u = m_pullRequestQueue w"
    "u_later u = u_later w" "u_calls u = u_calls w" using v sc by (auto simp: u_def intro: same_core_trans)
  have ru: "registered u k" "entry u k mq p a" using assms(3,4) by (simp_all add: same_coreD [OF u(1)])
  have "placed a u w'"
  proof (cases x)
    case (Inl e)
    with assms(1) ker have "w' = executePullRequestLater a s_PullTimeDelayMillsWhenException u"
      by (simp add: send_pull_def co v_def [symmetric] u_def [symmetric] Let_def)
    then show ?thesis by (simp add: placed_later)
  next
    case (Inr y)
    obtain addr header where y: "y = (addr, header)" by (cases y)
    define cb where "cb = \<lparr>cb_request = a, cb_consumer = k, cb_subscriptionData = sd, cb_beginTimestamp = v_now env, cb_addr = addr, cb_header = header\<rparr>"
    from assms(1,2) ker Inr y have "w' = (if how = SendFailed then onException a u else u\<lparr>u_calls := u_calls u @ [cb]\<rparr>)"
      by (cases how) (simp_all add: send_pull_def co v_def [symmetric] u_def [symmetric] cb_def Let_def v(6) u(6))
    then show ?thesis using placed_exception [of a u] placed_call [of u cb mq p] ru by (simp add: cb_def)
  qed
  then show ?thesis by (rule placed_after [OF u])
qed

lemma push_pullMessage_cases:
  assumes "push_pullMessage env how k a w = Some w'" "how \<noteq> NoConnection" "registered w k" "entry w k mq p a" "u_requests w a = Some r"
  shows "placed a w w' \<or> w' = delete_pullRequest k a r w \<and> flag w k (pr_processQueue r) = Some True"
proof -
  from assms(1,5) obtain pq where pq: "w_pqs (rb_of k w) (pr_processQueue r) = Some pq"
    by (auto simp: push_pullMessage_def split: option.splits)
  have fl: "placed a w (set_push k h (executePullRequestLater a d w))" for h d
    by (rule placed_before [OF placed_later]) (simp_all add: set_push_def same_core_fields)
  show ?thesis using assms(1) placed_later [of a w] fl send_pull_placed [OF _ assms(2-4)]
    unfolding push_pullMessage_def assms(5) by (auto simp: pq flag_def Let_def split: if_splits option.splits)
qed

lemma pull_inv_place:
  "pull_inv L w \<Longrightarrow> a \<in> set (places w) \<Longrightarrow> a < u_nextRequest w \<and> (\<exists>k mq p. registered w k \<and> entry w k mq p a \<and> flag w k p \<noteq> None \<and> mq_ok mq)"
  unfolding pull_inv_def by blast

lemma pull_inv_reg: "pull_inv L w \<Longrightarrow> registered w k \<Longrightarrow> rb_wf (rb_of k w) \<and> w_dispatched (rb_of k w) = []"
  unfolding pull_inv_def by blast

lemma pull_inv_tab: "pull_inv L w \<Longrightarrow> registered w k \<Longrightarrow> (mq, p) \<in> tab (rb_of k w) \<Longrightarrow> (k, mq, p) \<in> L \<or> (\<exists>a \<in> set (places w). entry w k mq p a)"
  unfolding pull_inv_def by blast

lemma pull_inv_lost: "pull_inv L w \<Longrightarrow> (k, mq, p) \<in> L \<Longrightarrow> registered w k \<and> p < w_next (rb_of k w) \<and> (\<forall>m. \<forall>a \<in> set (places w). \<not> entry w k m p a)"
  unfolding pull_inv_def by blast

lemma pull_inv_one:
  "pull_inv L w \<Longrightarrow> registered w k \<Longrightarrow> a \<in> set (places w) \<Longrightarrow> b \<in> set (places w) \<Longrightarrow> entry w k mq p a \<Longrightarrow> entry w k mq' p b \<Longrightarrow> a = b"
  unfolding pull_inv_def by blast

lemma pull_inv_dropped:
  "pull_inv L w \<Longrightarrow> registered w k \<Longrightarrow> (mq, p) \<in> tab (rb_of k w) \<Longrightarrow> flag w k p = Some True \<Longrightarrow> \<exists>a \<in> fst ` set (u_tasks w). entry w k mq p a"
  unfolding pull_inv_def by blast

lemma pull_inv_group: "pull_inv L w \<Longrightarrow> selectConsumer g (u_factory w) = Some k \<Longrightarrow> m_consumerGroup (rb_of k w) = g"
  unfolding pull_inv_def by blast

lemma pull_inv_distinct: "pull_inv L w \<Longrightarrow> distinct (places w) \<and> (u_popping w \<longrightarrow> m_pullRequestQueue w \<noteq> [])"
  unfolding pull_inv_def by blast

lemma pull_invI:
  assumes "distinct (places w)" "u_popping w \<Longrightarrow> m_pullRequestQueue w \<noteq> []"
    and "\<And>a. a \<in> set (places w) \<Longrightarrow> a < u_nextRequest w \<and> (\<exists>k mq p. registered w k \<and> entry w k mq p a \<and> flag w k p \<noteq> None \<and> mq_ok mq)"
    and "\<And>a k. (a, k) \<in> held w \<Longrightarrow> registered w k \<and> (\<exists>mq p. entry w k mq p a)"
    and "\<And>k. registered w k \<Longrightarrow> rb_wf (rb_of k w) \<and> w_dispatched (rb_of k w) = []"
    and "\<And>k mq p. registered w k \<Longrightarrow> (mq, p) \<in> tab (rb_of k w) \<Longrightarrow> (k, mq, p) \<in> L \<or> (\<exists>a \<in> set (places w). entry w k mq p a)"
    and "\<And>k mq mq' p a b. registered w k \<Longrightarrow> a \<in> set (places w) \<Longrightarrow> b \<in> set (places w) \<Longrightarrow> entry w k mq p a \<Longrightarrow> entry w k mq' p b \<Longrightarrow> a = b"
    and "\<And>k mq p. registered w k \<Longrightarrow> (mq, p) \<in> tab (rb_of k w) \<Longrightarrow> flag w k p = Some True \<Longrightarrow> \<exists>a \<in> fst ` set (u_tasks w). entry w k mq p a"
    and "\<And>g k. selectConsumer g (u_factory w) = Some k \<Longrightarrow> m_consumerGroup (rb_of k w) = g"
    and "\<And>k mq p. (k, mq, p) \<in> L \<Longrightarrow> registered w k \<and> p < w_next (rb_of k w) \<and> (\<forall>m. \<forall>a \<in> set (places w). \<not> entry w k m p a)"
  shows "pull_inv L w"
  unfolding pull_inv_def
proof (intro conjI)
  show "\<forall>k. registered w k \<longrightarrow> rb_wf (rb_of k w) \<and> w_dispatched (rb_of k w) = [] \<and>
      (\<forall>(mq, p) \<in> tab (rb_of k w). (k, mq, p) \<in> L \<or> (\<exists>a \<in> set (places w). entry w k mq p a))" using assms(5,6) by blast
  show "\<forall>(k, mq, p) \<in> L. registered w k \<and> p < w_next (rb_of k w) \<and> (\<forall>m. \<forall>a \<in> set (places w). \<not> entry w k m p a)" using assms(10) by blast
  show "\<forall>k mq mq' p a b. a \<in> set (places w) \<and> b \<in> set (places w) \<and> registered w k \<and> entry w k mq p a \<and> entry w k mq' p b \<longrightarrow> a = b"
    by (intro allI impI, elim conjE) (rule assms(7))
  show "\<forall>(a, k) \<in> held w. registered w k \<and> (\<exists>mq p. entry w k mq p a)" using assms(4) by blast
qed (use assms(1-3,8,9) in simp_all)

lemmas pull_inv_facts = pull_inv_distinct pull_inv_place pull_inv_held pull_inv_reg pull_inv_tab pull_inv_one pull_inv_dropped pull_inv_group

lemma request_entry_unique: "entry w k mq p a \<Longrightarrow> entry w j mq' p' a \<Longrightarrow> registered w k \<Longrightarrow> registered w j \<Longrightarrow> k = j \<and> mq = mq' \<and> p = p'"
  by (auto simp: entry_def registered_def)

lemma pull_inv_deleted:
  assumes inv: "pull_inv L w" and q: "m_pullRequestQueue w = a # q" "\<not> u_popping w"
    and k: "registered w k" "entry w k mq p a" "u_requests w a = Some r" "flag w k p = Some True"
  shows "pull_inv L ((delete_pullRequest k a r w)\<lparr>u_popping := True\<rparr>)" (is "pull_inv L ?w")
proof -
  have p: "p = pr_processQueue r" using k(2,3) by (simp add: entry_def entry_at_def)
  have rb: "rb_of j ?w = (if j = k then delete_request r (rb_of k w) else rb_of j w)" for j
  proof -
    have "rb_of j ?w = rb_of j (delete_pullRequest k a r w)" by (simp add: rb_of_def)
    then show ?thesis by (simp add: delete_pullRequest_def) (simp add: rb_of_def)
  qed
  have sel: "selectConsumer g (u_factory ?w) = selectConsumer g (u_factory w)" for g
    by (simp add: delete_pullRequest_def set_rb_def selectConsumer_def)
  have grp: "m_consumerGroup (rb_of j ?w) = m_consumerGroup (rb_of j w)" and tab: "tab (rb_of j ?w) = tab (rb_of j w)"
    and disp: "w_dispatched (rb_of j ?w) = w_dispatched (rb_of j w)" and nx: "w_next (rb_of j ?w) = w_next (rb_of j w)" for j
    by (simp_all add: rb delete_request_def)
  have reg: "registered ?w j = registered w j" for j unfolding registered_def grp sel ..
  have en: "entry ?w j m x b \<longleftrightarrow> b \<noteq> a \<and> entry w j m x b" for j m x b
    unfolding entry_def grp by (simp add: entry_at_def delete_pullRequest_def)
  have fl: "flag ?w j x = (if j = k \<and> x = p then None else flag w j x)" for j x
    unfolding flag_def rb p by (simp add: delete_request_def)
  have pl: "places w = a # places ?w" using q by (simp add: places_def delete_pullRequest_def)
  have tasks: "u_tasks ?w = u_tasks w" "held ?w = held w" by (simp_all add: delete_pullRequest_def held_def)
  have dist: "a \<notin> set (places ?w)" "distinct (places ?w)" using pull_inv_distinct [OF inv] unfolding pl by auto
  then have nt: "a \<notin> fst ` set (u_tasks w)" "a \<notin> fst ` held w" by (auto simp: places_def delete_pullRequest_def held_def)
  have notab: "(m, p) \<notin> tab (rb_of k w)" for m
  proof
    assume "(m, p) \<in> tab (rb_of k w)"
    then obtain b where b: "b \<in> fst ` set (u_tasks w)" "entry w k m p b" using pull_inv_dropped [OF inv k(1)] k(4) by blast
    then have "b \<in> set (places w)" by (auto simp: places_def)
    then have "a = b" using pull_inv_one [OF inv k(1) _ _ k(2) b(2)] pl by simp
    with b(1) nt(1) show False by blast
  qed
  show ?thesis
  proof (rule pull_invI)
    show "distinct (places ?w)" "m_pullRequestQueue ?w \<noteq> []" using dist q by (simp_all add: delete_pullRequest_def)
    fix b assume b: "b \<in> set (places ?w)"
    then have bw: "b \<in> set (places w)" and ba: "b \<noteq> a" using pl dist(1) by auto
    obtain j m x where j: "registered w j" "entry w j m x b" "flag w j x \<noteq> None" "mq_ok m" and n: "b < u_nextRequest w"
      using pull_inv_place [OF inv bw] by blast
    have "\<not> (j = k \<and> x = p)" using pull_inv_one [OF inv k(1) bw _ _ k(2)] pl ba j(2) by auto
    then show "b < u_nextRequest ?w \<and> (\<exists>k mq p. registered ?w k \<and> entry ?w k mq p b \<and> flag ?w k p \<noteq> None \<and> mq_ok mq)"
      unfolding reg en fl using n j ba by (intro conjI exI [of _ j] exI [of _ m] exI [of _ x]) (auto simp: delete_pullRequest_def)
  next
    fix b j assume "(b, j) \<in> held ?w"
    then show "registered ?w j \<and> (\<exists>mq p. entry ?w j mq p b)" unfolding reg en tasks using pull_inv_held [OF inv] nt(2) by force
  next
    fix j assume j: "registered ?w j"
    then have "rb_wf (rb_of j w)" "w_dispatched (rb_of j w) = []" using pull_inv_reg [OF inv] by (simp_all add: reg)
    moreover from this have "rb_wf (rb_of j ?w)" using notab p by (auto simp: rb rb_wf_def delete_request_def)
    ultimately show "rb_wf (rb_of j ?w) \<and> w_dispatched (rb_of j ?w) = []" by (simp add: disp)
  next
    fix j m x assume *: "registered ?w j" "(m, x) \<in> tab (rb_of j ?w)"
    have "b \<noteq> a" if "entry w j m x b" for b using request_entry_unique [OF k(2) _ k(1), of j m x] that * notab by (auto simp: reg tab)
    then show "(j, m, x) \<in> L \<or> (\<exists>b \<in> set (places ?w). entry ?w j m x b)"
      using pull_inv_tab [OF inv, of j m x] * unfolding reg tab en pl by force
  next
    fix j m x assume "(j, m, x) \<in> L"
    from pull_inv_lost [OF inv this] show "registered ?w j \<and> x < w_next (rb_of j ?w) \<and> (\<forall>m. \<forall>b \<in> set (places ?w). \<not> entry ?w j m x b)"
      unfolding reg nx en using pl by simp
  next
    fix j m m' x b c assume "registered ?w j" "b \<in> set (places ?w)" "c \<in> set (places ?w)" "entry ?w j m x b" "entry ?w j m' x c"
    then show "b = c" using pull_inv_one [OF inv, of j b c] pl by (auto simp: reg en)
  next
    fix j m x assume *: "registered ?w j" "(m, x) \<in> tab (rb_of j ?w)" "flag ?w j x = Some True"
    then obtain b where "b \<in> fst ` set (u_tasks w)" "entry w j m x b"
      using pull_inv_dropped [OF inv, of j m x] by (auto simp: reg tab fl split: if_splits)
    then show "\<exists>b \<in> fst ` set (u_tasks ?w). entry ?w j m x b" using nt(1) by (auto simp: tasks en)
  next
    fix g j assume "selectConsumer g (u_factory ?w) = Some j"
    then show "m_consumerGroup (rb_of j ?w) = g" unfolding sel grp by (rule pull_inv_group [OF inv])
  qed
qed

lemma Run_pull_inv:
  assumes inv: "pull_inv L w" and how: "how \<noteq> NoConnection" and run: "Run_pull env how w = Some w'"
  shows "pull_inv L w'"
proof (cases "m_pullRequestQueue w = [] \<or> u_popping w")
  case True
  then show ?thesis using run inv by (auto simp: Run_pull_def split: list.splits)
next
  case False
  then obtain a q where q: "m_pullRequestQueue w = a # q" "\<not> u_popping w" by (cases "m_pullRequestQueue w") auto
  then have "a \<in> set (places w)" by (simp add: places_def)
  then obtain k mq p where k: "registered w k" "entry w k mq p a" using pull_inv_place [OF inv] by blast
  then obtain r where r: "u_requests w a = Some r" "pr_consumerGroup r = m_consumerGroup (rb_of k w)" "p = pr_processQueue r"
    by (auto simp: entry_def entry_at_def)
  from run q obtain v where v: "service_pullMessage env how a w = Some v" "w' = v\<lparr>u_popping := True\<rparr>"
    by (auto simp: Run_pull_def)
  have "push_pullMessage env how k a w = Some v" using v(1) r k(1) by (simp add: service_pullMessage_def registered_def)
  from push_pullMessage_cases [OF this how k r(1)] show ?thesis
    using pull_inv_pulled [OF inv q] pull_inv_deleted [OF inv q k r(1)] r(3) v(2) by auto
qed

subsection \<open>Answers\<close>

definition unmoved :: "'s pulling \<Rightarrow> 's pulling \<Rightarrow> bool" where
  "unmoved w v \<longleftrightarrow> same_core w v \<and> u_popping v = u_popping w \<and> u_tasks v = u_tasks w \<and> m_pullRequestQueue v = m_pullRequestQueue w \<and>
     u_later v = u_later w \<and> u_calls v = u_calls w"

lemma unmoved_trans [trans]: "unmoved w v \<Longrightarrow> unmoved v u \<Longrightarrow> unmoved w u"
  by (auto simp: unmoved_def intro: same_core_trans)

lemma placed_unmoved: "unmoved w v \<Longrightarrow> placed a v w' \<Longrightarrow> placed a w w'"
  unfolding unmoved_def by (elim conjE) (rule placed_after)

lemma unmoved_set [simp]: "unmoved w (set_push k h w)" "unmoved w (set_store k st w)"
  by (simp_all add: unmoved_def) (simp_all add: set_push_def set_store_def)

lemma unmoved_set_request: "entry_at w a = Some (pr_consumerGroup r, pr_messageQueue r, pr_processQueue r) \<Longrightarrow> unmoved w (set_request a r w)"
  using same_core_set_request [of w a r] by (simp add: unmoved_def) (simp add: set_request_def)

lemma unmoved_set_pq: "flag w k p = Some (m_droped pq) \<Longrightarrow> unmoved w (set_pq k p pq w)"
  using same_core_set_pq [of k w p pq] by (simp add: unmoved_def flag_def) (simp add: set_pq_def)

lemma unmoved_alloc: "alloc_msgs ms w = (ps, w') \<Longrightarrow> unmoved w w'"
  using alloc_core(1) [of ms w ps w'] by (auto simp: unmoved_def alloc_msgs_def Let_def)

lemma unmoved_submit: "submitConsumeRequest h k a ps d w = Some w' \<Longrightarrow> unmoved w w'"
  using submit_core(1) [of h k a ps d w w'] by (auto simp: unmoved_def submitConsumeRequest_def split: if_splits)

lemma unmoved_flag: "unmoved w v \<Longrightarrow> flag v k p = flag w k p"
  unfolding unmoved_def by (elim conjE) (rule same_coreD)

lemma putMessage_droped: "putMessage h ps pq = Some (d, pq') \<Longrightarrow> m_droped pq' = m_droped pq"
  by (auto simp: putMessage_def Let_def split: option.splits if_splits)

lemma processPullResult_mq: "isBlank prefix \<Longrightarrow> processPullResult dz prefix mq res sd h = Some (mq', sd', ms, h') \<Longrightarrow> mq' = mq"
  by (auto simp: processPullResult_def Let_def split: if_splits option.splits)

lemma on_found_placed:
  assumes "on_found env cb r pq ms w = Some w'" "flag w (cb_consumer cb) (pr_processQueue r) = Some (m_droped pq)"
  shows "placed (cb_request cb) w w'"
proof -
  define w1 where "w1 = set_push (cb_consumer cb) (pull_stat (s64 (v_now env - cb_beginTimestamp cb)) (u_push w (cb_consumer cb))) w"
  obtain ps w2 where al: "alloc_msgs ms w1 = (ps, w2)" by (cases "alloc_msgs ms w1")
  from assms(1) obtain d pq' w4 where put: "putMessage (u_heap w2) ps pq = Some (d, pq')"
    and sub: "submitConsumeRequest (u_push w2 (cb_consumer cb)) (cb_consumer cb) (cb_request cb) ps d (set_pq (cb_consumer cb) (pr_processQueue r) pq' w2) = Some w4"
    and w': "w' = executePullRequestLater (cb_request cb) (h_pullInterval (u_push w2 (cb_consumer cb))) w4 \<or> w' = executePullRequestImmediately (cb_request cb) w4"
    by (auto simp: on_found_def w1_def [symmetric] al Let_def split: option.splits if_splits)
  have "unmoved w w1" by (simp add: w1_def)
  also have "unmoved w1 w2" by (rule unmoved_alloc [OF al])
  finally have u: "unmoved w w2" .
  have "unmoved w2 (set_pq (cb_consumer cb) (pr_processQueue r) pq' w2)"
    by (rule unmoved_set_pq) (simp add: unmoved_flag [OF u] assms(2) putMessage_droped [OF put])
  with u unmoved_submit [OF sub] have "unmoved w w4" by (blast intro: unmoved_trans)
  moreover have "placed (cb_request cb) w4 w'" using w' placed_later placed_now by auto
  ultimately show ?thesis by (rule placed_unmoved)
qed

lemma onSuccess_cases:
  assumes "onSuccess env cb res w = Some w'" "isBlank (n_projectGroupPrefix (v_ns env))" "x_pullStatus res \<noteq> BROKER_TIMEOUT"
    and k: "entry w (cb_consumer cb) mq p (cb_request cb)"
  shows "placed (cb_request cb) w w' \<or> (\<exists>pq v. flag w (cb_consumer cb) p = Some (m_droped pq) \<and> unmoved w v \<and>
    w' = executeTaskLater (cb_consumer cb) (cb_request cb) (set_pq (cb_consumer cb) p (setDroped True pq) v))"
proof -
  let ?a = "cb_request cb" and ?k = "cb_consumer cb"
  from assms(1) obtain r pq mq' sd ms h where r: "u_requests w ?a = Some r" and pq: "w_pqs (rb_of ?k w) (pr_processQueue r) = Some pq"
    and res: "processPullResult (v_decompress env) (n_projectGroupPrefix (v_ns env)) (pr_messageQueue r) res (cb_subscriptionData cb) (u_push w ?k)
      = Some (mq', sd, ms, h)" by (auto simp: onSuccess_def Let_def split: option.splits)
  have mq': "mq' = pr_messageQueue r" by (rule processPullResult_mq [OF assms(2) res])
  define r' where "r' = r\<lparr>pr_nextOffset := x_nextBeginOffset res\<rparr>"
  define v where "v = set_request ?a r' (set_push ?k h w)"
  have "unmoved w (set_push ?k h w)" by simp
  also have "unmoved (set_push ?k h w) v"
    unfolding v_def by (rule unmoved_set_request) (use r in \<open>simp add: entry_at_def set_push_def r'_def\<close>)
  finally have u: "unmoved w v" .
  have p: "p = pr_processQueue r'" using k r by (simp add: entry_def entry_at_def r'_def)
  have fl: "flag w ?k p = Some (m_droped pq)" using pq p by (simp add: flag_def r'_def)
  have tags: "unmoved v (correctTagsOffset env ?k r' pq v)" by (simp add: correctTagsOffset_def) (simp add: unmoved_def)
  note s = assms(1) [unfolded onSuccess_def Let_def r, simplified, unfolded pq res, simplified, unfolded mq', simplified]
  show ?thesis
  proof (cases "x_pullStatus res")
    case FOUND
    then have "on_found env cb r' pq ms v = Some w'" using s by (simp add: r'_def v_def)
    from on_found_placed [OF this] fl p have "placed ?a v w'" by (simp add: unmoved_flag [OF u])
    then show ?thesis using placed_unmoved [OF u] by blast
  next
    case OFFSET_ILLEGAL
    then have "w' = executeTaskLater ?k ?a (set_pq ?k p (setDroped True pq) v)" using s by (simp add: p r'_def v_def)
    with fl u show ?thesis by blast
  qed (use s assms(3) placed_unmoved [OF unmoved_trans [OF u tags] placed_now] in \<open>auto simp: r'_def v_def\<close>)
qed

lemma pull_inv_illegal:
  assumes inv: "pull_inv L w" and w1: "same_core w w1" "mset (places w) = add_mset a (mset (places w1))" "u_tasks w1 = u_tasks w" "held w1 \<subseteq> held w"
    "u_popping w1 \<longrightarrow> m_pullRequestQueue w1 \<noteq> []"
    and k: "registered w k" "entry w k mq p a" "flag w k p = Some (m_droped pq)" and v: "unmoved w1 v"
  shows "pull_inv L (executeTaskLater k a (set_pq k p (setDroped True pq) v))" (is "pull_inv L ?w")
proof -
  have c: "same_core w v" using w1(1) v by (auto simp: unmoved_def intro: same_core_trans)
  note cd = same_coreD [OF c]
  have rb: "rb_of j ?w = (if j = k then (rb_of k v)\<lparr>w_pqs := (w_pqs (rb_of k v))(p \<mapsto> setDroped True pq)\<rparr> else rb_of j v)" for j
  proof -
    have "rb_of j ?w = rb_of j (set_pq k p (setDroped True pq) v)" by (simp add: rb_of_def executeTaskLater_def)
    then show ?thesis by (simp add: set_pq_def)
  qed
  have sel: "selectConsumer g (u_factory ?w) = selectConsumer g (u_factory w)" for g
    using cd(8) by (simp add: executeTaskLater_def set_pq_def)
  have grp: "m_consumerGroup (rb_of j ?w) = m_consumerGroup (rb_of j w)" and tab: "tab (rb_of j ?w) = tab (rb_of j w)"
    and disp: "w_dispatched (rb_of j ?w) = w_dispatched (rb_of j w)" and nx: "w_next (rb_of j ?w) = w_next (rb_of j w)" for j
    using cd(4,6,7,10) by (simp_all add: rb)
  have reg: "registered ?w j = registered w j" for j unfolding registered_def grp sel ..
  have en: "entry ?w j m x b = entry w j m x b" for j m x b
    using cd(2,7) unfolding entry_def grp by (simp add: entry_at_def executeTaskLater_def set_pq_def)
  have fl: "flag ?w j x = (if j = k \<and> x = p then Some True else flag w j x)" for j x
    using cd(3) [of j x] unfolding flag_def rb by (auto simp: setDroped_def)
  have "rb_wf (rb_of j ?w) = rb_wf (rb_of j v)" if "rb_wf (rb_of j v)" for j
    using cd(3) [of k p] k(3) that by (auto simp: rb rb_wf_def flag_def)
  then have wf: "rb_wf (rb_of j ?w)" if "rb_wf (rb_of j w)" for j using that cd(5) by blast
  have pm: "mset (places ?w) = mset (places w)" using w1(2) v
    by (simp add: places_def unmoved_def executeTaskLater_def set_pq_def)
  then have pl: "set (places ?w) = set (places w)" "distinct (places ?w) = distinct (places w)"
    by (metis set_mset_mset, metis mset_eq_imp_distinct_iff)
  have tasks: "u_tasks ?w = u_tasks w @ [(a, k)]" "held ?w \<subseteq> insert (a, k) (held w)"
    using w1(3,4) v by (auto simp: unmoved_def held_def executeTaskLater_def set_pq_def)
  have a: "a \<in> set (places w)" using w1(2) by (metis set_mset_mset union_single_eq_member add_mset_add_single union_commute)
  show ?thesis
  proof (rule pull_invI)
    show "distinct (places ?w)" using pull_inv_distinct [OF inv] pl(2) by simp
    show "m_pullRequestQueue ?w \<noteq> []" if "u_popping ?w"
      using w1(5) v that by (simp add: unmoved_def executeTaskLater_def set_pq_def)
  next
    fix b assume "b \<in> set (places ?w)"
    then obtain j m x where "registered w j" "entry w j m x b" "flag w j x \<noteq> None" "mq_ok m" "b < u_nextRequest w"
      using pull_inv_place [OF inv] pl by metis
    then show "b < u_nextRequest ?w \<and> (\<exists>k mq p. registered ?w k \<and> entry ?w k mq p b \<and> flag ?w k p \<noteq> None \<and> mq_ok mq)"
      unfolding reg en fl using cd(9) by (intro conjI exI [of _ j] exI [of _ m] exI [of _ x]) (auto simp: executeTaskLater_def set_pq_def)
  next
    fix b j assume "(b, j) \<in> held ?w"
    then show "registered ?w j \<and> (\<exists>mq p. entry ?w j mq p b)" unfolding reg en using tasks(2) pull_inv_held [OF inv] k(1,2) by blast
  next
    fix j assume "registered ?w j"
    then show "rb_wf (rb_of j ?w) \<and> w_dispatched (rb_of j ?w) = []" using pull_inv_reg [OF inv] wf by (simp add: reg disp)
  next
    fix j m x assume "registered ?w j" "(m, x) \<in> tab (rb_of j ?w)"
    then show "(j, m, x) \<in> L \<or> (\<exists>b \<in> set (places ?w). entry ?w j m x b)" unfolding reg tab pl(1) en by (rule pull_inv_tab [OF inv])
  next
    fix j m x assume "(j, m, x) \<in> L"
    then show "registered ?w j \<and> x < w_next (rb_of j ?w) \<and> (\<forall>m. \<forall>b \<in> set (places ?w). \<not> entry ?w j m x b)"
      unfolding reg nx en pl(1) by (rule pull_inv_lost [OF inv])
  next
    fix j m m' x b c assume "registered ?w j" "b \<in> set (places ?w)" "c \<in> set (places ?w)" "entry ?w j m x b" "entry ?w j m' x c"
    then show "b = c" unfolding reg en pl(1) by (rule pull_inv_one [OF inv])
  next
    fix j m x assume *: "registered ?w j" "(m, x) \<in> tab (rb_of j ?w)" "flag ?w j x = Some True"
    show "\<exists>b \<in> fst ` set (u_tasks ?w). entry ?w j m x b"
    proof (cases "j = k \<and> x = p")
      case True
      have "(k, m, p) \<notin> L" using pull_inv_lost [OF inv, of k m p] a k(2) by blast
      then obtain b where "b \<in> set (places w)" "entry w k m p b" using pull_inv_tab [OF inv, of k m p] * True by (auto simp: reg tab)
      then have "entry w k m p a" using pull_inv_one [OF inv k(1) a _ k(2)] by metis
      then show ?thesis using True by (auto simp: tasks en)
    next
      case False
      then show ?thesis using pull_inv_dropped [OF inv, of j m x] * by (auto simp: reg tab fl tasks en)
    qed
  next
    fix g j assume "selectConsumer g (u_factory ?w) = Some j"
    then show "m_consumerGroup (rb_of j ?w) = g" unfolding sel grp by (rule pull_inv_group [OF inv])
  qed
qed

lemma mset_remove_nth: "i < length xs \<Longrightarrow> mset xs = add_mset (xs ! i) (mset (remove_nth i xs))"
  by (metis id_take_nth_drop mset_append mset.simps(2) remove_nth_def union_mset_add_mset_right)

lemma set_remove_nth: "set (remove_nth i xs) \<subseteq> set xs"
  by (auto simp: remove_nth_def dest: in_set_takeD in_set_dropD)

lemma mset_map_remove_nth: "i < length xs \<Longrightarrow> mset (map f xs) = add_mset (f (xs ! i)) (mset (map f (remove_nth i xs)))"
  using mset_remove_nth [of i xs] by simp

lemma operationComplete_inv:
  assumes inv: "pull_inv L w" and i: "i < length (u_calls w)" and blank: "isBlank (n_projectGroupPrefix (v_ns env))"
    and run: "operationComplete env (u_calls w ! i) response (w\<lparr>u_calls := remove_nth i (u_calls w)\<rparr>) = Some w'"
  shows "pull_inv L w'"
proof -
  let ?cb = "u_calls w ! i" and ?w1 = "w\<lparr>u_calls := remove_nth i (u_calls w)\<rparr>"
  have c: "same_core w ?w1" by (rule same_core_fields) simp_all
  have w1: "mset (places w) = add_mset (cb_request ?cb) (mset (places ?w1))" "u_tasks ?w1 = u_tasks w"
    "u_popping ?w1 \<longrightarrow> m_pullRequestQueue ?w1 \<noteq> []"
    using mset_map_remove_nth [OF i, of cb_request] pull_inv_distinct [OF inv] by (simp_all add: places_def)
  have h: "held ?w1 \<subseteq> held w" using set_remove_nth [of i "u_calls w"] by (auto simp: held_def)
  have "(cb_request ?cb, cb_consumer ?cb) \<in> held w" using i by (auto simp: held_def)
  then obtain mq p where k: "registered w (cb_consumer ?cb)" "entry w (cb_consumer ?cb) mq p (cb_request ?cb)"
    using pull_inv_held [OF inv] by blast
  have fin: "pull_inv L w'" if "placed (cb_request ?cb) ?w1 w'"
    by (rule pull_inv_placed [OF inv c w1(1) _ h w1(3) that]) simp
  have ex: "placed (cb_request ?cb) ?w1 (onException (cb_request ?cb) ?w1)" by (rule placed_exception)
  show ?thesis
  proof (cases "\<exists>cmd res. response = Some cmd \<and> processPullResponse cmd = Some (Inr res)")
    case False
    then have "w' = onException (cb_request ?cb) ?w1" using run by (auto simp: operationComplete_def split: option.splits sum.splits)
    with ex fin show ?thesis by blast
  next
    case True
    then obtain cmd res where r: "response = Some cmd" "processPullResponse cmd = Some (Inr res)" by blast
    then have ok: "onSuccess env ?cb res ?w1 = Some w'" using run by (simp add: operationComplete_def)
    have st: "x_pullStatus res \<noteq> BROKER_TIMEOUT"
      using r(2) by (auto simp: processPullResponse_def Let_def split: option.splits CommandCustomHeader.splits if_splits)
    have k1: "entry ?w1 (cb_consumer ?cb) mq p (cb_request ?cb)" using k(2) by (simp add: same_coreD [OF c])
    from onSuccess_cases [OF ok blank st k1] show ?thesis
    proof (elim disjE exE conjE)
      fix pq v assume "flag ?w1 (cb_consumer ?cb) p = Some (m_droped pq)" "unmoved ?w1 v"
        and w': "w' = executeTaskLater (cb_consumer ?cb) (cb_request ?cb) (set_pq (cb_consumer ?cb) p (setDroped True pq) v)"
      then show ?thesis using pull_inv_illegal [OF inv c w1(1,2) h w1(3) k] by (simp add: same_coreD [OF c])
    qed (rule fin)
  qed
qed

subsection \<open>Dropping a queue whose offset was illegal\<close>

lemma removeProcessQueue_drops:
  assumes "rb_wf rb" "mq_ok mq" "removeProcessQueue env mq rb = Some rb'"
  shows "\<exists>D. dropped_by D rb rb' \<and> (\<forall>e \<in> tab rb. fst e = mq \<longleftrightarrow> e \<in> D)"
proof (cases "map_find mq_lt mq (m_processQueueTable rb)")
  case None
  then have "mq \<notin> fst ` tab rb" using rb_find(2) [OF assms(1,2)] by simp
  then show ?thesis using None assms(3) dropped_by_refl [OF assms(1)] by (intro exI [of _ "{}"]) (auto simp: removeProcessQueue_def)
next
  case (Some p)
  have "removeProcessQueue env mq rb = drop_queue env mq p rb"
    using Some by (auto simp: removeProcessQueue_def drop_queue_def upd_pq_def removeUnnecessaryMessageQueue_def rb_unlock_def Let_def
        split: option.splits rb_kind.splits)
  moreover have tab: "e \<in> tab rb \<and> fst e = mq \<longleftrightarrow> e = (mq, p)" for e
    using rb_find(1) [OF assms(1,2), of "snd e"] rb_find(1) [OF assms(1,2), of p] Some by (cases e) auto
  then have "(mq, p) \<in> tab rb" by blast
  ultimately have "dropped_by {(mq, p)} rb rb'" using drop_queue_spec [OF assms(1), of mq p env] assms(3) by auto
  then show ?thesis using tab by (intro exI [of _ "{(mq, p)}"]) blast
qed

lemma in_remove_nth: "x \<in> set xs \<Longrightarrow> x \<noteq> xs ! i \<Longrightarrow> x \<in> set (remove_nth i xs)"
  by (metis drop_all id_take_nth_drop leI mset_remove_nth remove_nth_def set_mset_mset set_mset_add_mset_insert insert_iff set_append
      append_Nil2 take_all le_SucI)

lemma held_places: "(a, k) \<in> held w \<Longrightarrow> a \<in> set (places w)"
  by (force simp: held_def places_def)

lemma task_cases:
  assumes "ExecutePullTaskLater_OnTimeOut env a k w = Some w'" "u_requests w a = Some r"
  shows "\<exists>v rb'. unmoved w v \<and> removeProcessQueue (v_rb env k) (pr_messageQueue r) (rb_of k v) = Some rb' \<and> w' = set_rb k rb' v"
proof -
  have "unmoved w (set_store k s (set_store k t w))" for s t by (rule unmoved_trans [OF unmoved_set(2) unmoved_set(2)])
  then show ?thesis using assms unfolding ExecutePullTaskLater_OnTimeOut_def assms(2) option.case Let_def map_option_eq_Some by blast
qed

lemma pull_inv_task:
  assumes inv: "pull_inv L w" and i: "i < length (u_tasks w)" "u_tasks w ! i = (a, k)"
    and run: "ExecutePullTaskLater_OnTimeOut env a k (w\<lparr>u_tasks := remove_nth i (u_tasks w)\<rparr>) = Some w'"
  shows "pull_inv L w'"
proof -
  let ?w1 = "w\<lparr>u_tasks := remove_nth i (u_tasks w)\<rparr>"
  have ak: "(a, k) \<in> held w" "(a, k) \<in> set (u_tasks w)" using nth_mem [OF i(1)] i(2) by (auto simp: held_def)
  have c1: "same_core w ?w1" by (rule same_core_fields) simp_all
  have k: "registered w k" using pull_inv_held [OF inv ak(1)] by blast
  obtain mq p where e: "entry w k mq p a" "mq_ok mq"
    using pull_inv_place [OF inv held_places [OF ak(1)]] pull_inv_held [OF inv ak(1)] request_entry_unique by metis
  from run obtain r where r: "u_requests w a = Some r" by (auto simp: ExecutePullTaskLater_OnTimeOut_def split: option.splits)
  then have mq: "pr_messageQueue r = mq" using e by (simp add: entry_def entry_at_def)
  obtain v rb' where v: "unmoved ?w1 v" and rb': "removeProcessQueue (v_rb env k) mq (rb_of k v) = Some rb'" and w': "w' = set_rb k rb' v"
    using task_cases [OF run, of r] r mq by auto
  have c: "same_core w v" using c1 v by (auto simp: unmoved_def intro: same_core_trans)
  note cd = same_coreD [OF c]
  have "rb_wf (rb_of k v)" using pull_inv_reg [OF inv k] cd(5) by blast
  from removeProcessQueue_drops [OF this e(2) rb'] obtain D where D: "dropped_by D (rb_of k v) rb'" "\<And>x. x \<in> tab (rb_of k w) \<Longrightarrow> fst x = mq \<longleftrightarrow> x \<in> D"
    using cd(4) by blast
  have rb: "rb_of j w' = (if j = k then rb' else rb_of j v)" for j by (simp add: w')
  have sel: "selectConsumer g (u_factory w') = selectConsumer g (u_factory w)" for g using cd(8) by (simp add: w')
  have grp: "m_consumerGroup (rb_of j w') = m_consumerGroup (rb_of j w)" and disp: "w_dispatched (rb_of j w') = w_dispatched (rb_of j w)"
    and nx: "w_next (rb_of j w') = w_next (rb_of j w)" for j
    using cd(6,7,10) D(1) by (auto simp: rb dropped_by_def)
  have tab: "tab (rb_of j w') = (if j = k then tab (rb_of k w) - D else tab (rb_of j w))" for j using cd(4) D(1) by (auto simp: rb dropped_by_def)
  have reg: "registered w' j = registered w j" for j unfolding registered_def grp sel ..
  have en: "entry w' j m x b = entry w j m x b" for j m x b using cd(2,7) unfolding entry_def grp by (simp add: entry_at_def w')
  have fl: "flag w' j x = (if j = k \<and> x \<in> snd ` D then map_option (\<lambda>_. True) (flag w j x) else flag w j x)" for j x
  proof -
    have "flag w' j x = (if j = k \<and> x \<in> snd ` D then map_option (\<lambda>_. True) (flag v j x) else flag v j x)"
      using D(1) by (cases "w_pqs (rb_of k v) x") (auto simp: flag_def rb dropped_by_def mark_dropped_def setDroped_def)
    then show ?thesis by (simp only: cd(3))
  qed
  have wf: "rb_wf (rb_of j w')" if "rb_wf (rb_of j w)" for j using that cd(5) D(1) by (auto simp: rb dropped_by_def)
  have pl: "mset (places w) = add_mset a (mset (places w'))" and tasks: "u_tasks w' = remove_nth i (u_tasks w)" and held: "held w' \<subseteq> held w"
    and pop: "u_popping w' = u_popping w" "m_pullRequestQueue w' = m_pullRequestQueue w"
    using mset_map_remove_nth [OF i(1), of fst] i(2) v set_remove_nth [of i "u_tasks w"] by (auto simp: places_def w' unmoved_def held_def)
  then have ps: "set (places w) = insert a (set (places w'))" "a \<notin> set (places w')" "distinct (places w')"
    using pull_inv_distinct [OF inv] by (metis set_mset_mset set_mset_add_mset_insert, metis distinct.simps(2) mset.simps(2) mset_eq_imp_distinct_iff,
        metis distinct.simps(2) mset.simps(2) mset_eq_imp_distinct_iff)
  have gone: "b \<noteq> a" if "registered w j" "(m, x) \<in> tab (rb_of j w')" "entry w j m x b" for j m x b
  proof
    assume "b = a"
    then have "j = k" "m = mq" using request_entry_unique [OF that(3) _ that(1) k] e(1) by auto
    with that(2) D(2) [of "(m, x)"] show False by (simp add: tab)
  qed
  show ?thesis
  proof (rule pull_invI)
    show "distinct (places w')" by (rule ps)
    show "m_pullRequestQueue w' \<noteq> []" if "u_popping w'" using pull_inv_distinct [OF inv] that by (simp add: pop)
  next
    fix b assume "b \<in> set (places w')"
    then obtain j m x where "registered w j" "entry w j m x b" "flag w j x \<noteq> None" "mq_ok m" "b < u_nextRequest w"
      using pull_inv_place [OF inv] ps by blast
    then show "b < u_nextRequest w' \<and> (\<exists>k mq p. registered w' k \<and> entry w' k mq p b \<and> flag w' k p \<noteq> None \<and> mq_ok mq)"
      unfolding reg en fl using cd(9) by (intro conjI exI [of _ j] exI [of _ m] exI [of _ x]) (auto simp: w')
  next
    fix b j assume "(b, j) \<in> held w'"
    then show "registered w' j \<and> (\<exists>mq p. entry w' j mq p b)" unfolding reg en using held pull_inv_held [OF inv] by blast
  next
    fix j assume "registered w' j"
    then show "rb_wf (rb_of j w') \<and> w_dispatched (rb_of j w') = []" using pull_inv_reg [OF inv] wf by (simp add: reg disp)
  next
    fix j m x assume *: "registered w' j" "(m, x) \<in> tab (rb_of j w')"
    then have "(j, m, x) \<in> L \<or> (\<exists>b \<in> set (places w). entry w j m x b)" using pull_inv_tab [OF inv, of j m x] by (auto simp: reg tab split: if_splits)
    then show "(j, m, x) \<in> L \<or> (\<exists>b \<in> set (places w'). entry w' j m x b)" using gone * ps(1) by (auto simp: reg en)
  next
    fix j m x assume "(j, m, x) \<in> L"
    from pull_inv_lost [OF inv this] show "registered w' j \<and> x < w_next (rb_of j w') \<and> (\<forall>m. \<forall>b \<in> set (places w'). \<not> entry w' j m x b)"
      unfolding reg nx en using ps(1) by simp
  next
    fix j m m' x b c assume "registered w' j" "b \<in> set (places w')" "c \<in> set (places w')" "entry w' j m x b" "entry w' j m' x c"
    then show "b = c" unfolding reg en using pull_inv_one [OF inv, of j b c] ps(1) by blast
  next
    fix j m x assume *: "registered w' j" "(m, x) \<in> tab (rb_of j w')" "flag w' j x = Some True"
    have "\<not> (j = k \<and> x \<in> snd ` D)"
    proof
      assume jx: "j = k \<and> x \<in> snd ` D"
      then obtain d where d: "d \<in> D" "snd d = x" by blast
      have "(m, x) \<in> tab (rb_of k w)" "(m, x) \<notin> D" using * jx by (auto simp: tab)
      moreover have "d \<in> tab (rb_of k w)" using d D(1) cd(4) by (auto simp: dropped_by_def)
      moreover have "inj_on snd (tab (rb_of k w))" using pull_inv_reg [OF inv k] by (simp add: rb_wf_def)
      ultimately show False using d by (metis inj_onD snd_conv)
    qed
    then obtain b where "b \<in> fst ` set (u_tasks w)" "entry w j m x b"
      using pull_inv_dropped [OF inv, of j m x] * by (auto simp: reg tab fl split: if_splits)
    moreover from this have "b \<noteq> a" using gone * by (auto simp: reg)
    ultimately show "\<exists>b \<in> fst ` set (u_tasks w'). entry w' j m x b" using in_remove_nth [of _ "u_tasks w" i] i(2) by (force simp: tasks en)
  next
    fix g j assume "selectConsumer g (u_factory w') = Some j"
    then show "m_consumerGroup (rb_of j w') = g" unfolding sel grp by (rule pull_inv_group [OF inv])
  qed
qed

subsection \<open>Rebalancing\<close>

lemma enqueue_requests:
  "fold enqueue_request rs w = w\<lparr>m_pullRequestQueue := m_pullRequestQueue w @ [u_nextRequest w ..< u_nextRequest w + length rs],
     u_requests := (\<lambda>a. if u_nextRequest w \<le> a \<and> a < u_nextRequest w + length rs then Some (rs ! (a - u_nextRequest w)) else u_requests w a),
     u_nextRequest := u_nextRequest w + length rs\<rparr>"
proof (induction rs arbitrary: w)
  case Nil
  have "(\<lambda>a. if u_nextRequest w \<le> a \<and> a < u_nextRequest w then Some ([] ! (a - u_nextRequest w)) else u_requests w a) = u_requests w" by (rule ext) auto
  then show ?case by simp
next
  case (Cons r rs)
  have "(\<lambda>a. if Suc (u_nextRequest w) \<le> a \<and> a < Suc (u_nextRequest w) + length rs then Some (rs ! (a - Suc (u_nextRequest w)))
      else ((u_requests w)(u_nextRequest w \<mapsto> r)) a)
    = (\<lambda>a. if u_nextRequest w \<le> a \<and> a < u_nextRequest w + length (r # rs) then Some ((r # rs) ! (a - u_nextRequest w)) else u_requests w a)"
    by (rule ext) (auto simp: nth_Cons diff_Suc split: nat.splits)
  note rq = this
  let ?v = "enqueue_request r w"
  have v: "m_pullRequestQueue ?v = m_pullRequestQueue w @ [u_nextRequest w]" "u_requests ?v = (u_requests w)(u_nextRequest w \<mapsto> r)"
    "u_nextRequest ?v = Suc (u_nextRequest w)"
    and upd: "?v\<lparr>m_pullRequestQueue := q, u_requests := f, u_nextRequest := n\<rparr> = w\<lparr>m_pullRequestQueue := q, u_requests := f, u_nextRequest := n\<rparr>" for q f n
    by (simp_all add: enqueue_request_def executePullRequestImmediately_def set_request_def)
  have "[u_nextRequest w ..< u_nextRequest w + length (r # rs)] = u_nextRequest w # [Suc (u_nextRequest w) ..< Suc (u_nextRequest w) + length rs]"
    by (subst upt_conv_Cons) simp_all
  then show ?case unfolding fold_Cons o_apply Cons.IH v upd rq by simp
qed

definition offsets_answered :: "'s rb_env \<Rightarrow> bool" where
  \<comment> \<open>no exception leaves \<open>computePullFromWhere\<close>\<close>
  "offsets_answered env \<longleftrightarrow> (\<forall>mq st. \<exists>off. fst (computePullFromWhere env mq st) = Inr off)"

lemma add_loop_answered:
  assumes "offsets_answered env" "add_loop env mqs rs c w = (ex, rs', c', w')" "distinct (map pr_processQueue rs)" "\<forall>r \<in> set rs. pr_processQueue r < w_next w"
  shows "ex = None \<and> distinct (map pr_processQueue rs')"
  using assms(2-4)
proof (induction mqs arbitrary: rs c w)
  case (Cons mq mqs)
  obtain r v where n: "new_request env mq w = (r, v)" by (cases "new_request env mq w")
  obtain off st where o: "computePullFromWhere env mq (w_store v) = (Inr off, st)"
    using assms(1) by (metis offsets_answered_def prod.collapse)
  have nx: "pr_processQueue r = w_next w" "w_next v = Suc (w_next w)" using n by (auto simp: new_request_def)
  have d: "distinct (map pr_processQueue (rs @ [r\<lparr>pr_nextOffset := off\<rparr>]))" using Cons.prems(2,3) nx by auto
  show ?case
  proof (cases "map_find mq_lt mq (m_processQueueTable w)")
    case None
    show ?thesis
    proof (cases "off \<ge> 0")
      case True
      with None Cons.prems(1) n o show ?thesis
        by (simp add: Let_def) (erule Cons.IH, use d Cons.prems(3) nx in \<open>auto simp: note_master_def Let_def\<close>)
    next
      case False
      with None Cons.prems(1) n o show ?thesis
        by (simp add: Let_def) (erule Cons.IH, use Cons.prems(2,3) nx in \<open>auto simp: delete_request_def\<close>)
    qed
  qed (use Cons in simp)
qed simp

text \<open>What one topic's rebalance does to a consumer's state, when every start offset is answered.\<close>

lemma rebalance_outcome:
  assumes "rb_wf rb" "w_dispatched rb = []" "e_kind env = Push" "offsets_answered env" "set_wf mq_lt mq_ok mqSet"
  obtains c D u rs where "updateProcessQueueTableInRebalance env topic mqSet rb = Ret (c, u\<lparr>w_dispatched := rs\<rparr>)"
    "rb_wf u" "D \<subseteq> tab rb" "tab u = tab rb - D \<union> req_entry ` set rs" "m_consumerGroup u = m_consumerGroup rb" "w_next rb \<le> w_next u" "distinct (map pr_processQueue rs)"
    "\<And>x. x < w_next rb \<Longrightarrow> w_pqs u x = mark_dropped (snd ` D) (w_pqs rb) x"
    "\<And>r. r \<in> set rs \<Longrightarrow> w_next rb \<le> pr_processQueue r \<and> pr_consumerGroup r = m_consumerGroup rb \<and>
       map_option m_droped (w_pqs u (pr_processQueue r)) = Some False"
proof (rule update_loops [OF assms(1,5), of env topic])
  fix c v D ex rs c' u
  assume rm: "removes topic mqSet (tab rb) rb v D" and al: "add_loop env mqSet [] c v = (ex, rs, c', u)" and ad: "added env v rs u"
    and up: "updateProcessQueueTableInRebalance env topic mqSet rb = (case ex of Some e \<Rightarrow> Threw e (c', u) | None \<Rightarrow> Ret (c', dispatchPullRequest env rs u))"
  have ex: "ex = None" "distinct (map pr_processQueue rs)" using add_loop_answered [OF assms(4) al] by simp_all
  have d: "dropped_by D rb v" using rm by (simp add: removes_def)
  have "w_dispatched u = []" using ad d assms(2) by (simp add: added_def dropped_by_def)
  then have r: "updateProcessQueueTableInRebalance env topic mqSet rb = Ret (c', u\<lparr>w_dispatched := rs\<rparr>)"
    using up ex(1) assms(3) by (simp add: dispatchPullRequest_def)
  have u: "rb_wf u" "D \<subseteq> tab rb" "m_consumerGroup u = m_consumerGroup rb" "w_next rb \<le> w_next u" using ad d by (simp_all add: added_def dropped_by_def)
  have old: "w_pqs u x = mark_dropped (snd ` D) (w_pqs rb) x" if "x < w_next rb" for x
    using ad d that by (simp add: added_def dropped_by_def)
  have new: "w_next rb \<le> pr_processQueue r \<and> pr_consumerGroup r = m_consumerGroup rb \<and> map_option m_droped (w_pqs u (pr_processQueue r)) = Some False"
    if "r \<in> set rs" for r
    using ad d that by (auto simp: added_def dropped_by_def list_all_iff good_request_def ProcessQueue_new_def)
  show thesis by (rule that [OF r u(1,2) update_entries(3) [OF assms(1) rm ad] u(3,4) ex(2) old new])
qed

lemma pull_inv_rebalanced:
  assumes inv: "pull_inv L w" and k: "selectConsumer grp (u_factory w) = Some k"
    and env: "e_kind (v_rb env k) = Push" "offsets_answered (v_rb env k)" "set_wf mq_lt mq_ok mqSet"
    and run: "rebalance_topic env k topic mqSet w = Some w'"
  shows "pull_inv L w'"
proof -
  have kr: "registered w k" using k pull_inv_group [OF inv k] by (simp add: registered_def)
  let ?rb = "rb_of k w" and ?n = "u_nextRequest w"
  obtain c D u rs where up: "updateProcessQueueTableInRebalance (v_rb env k) topic mqSet ?rb = Ret (c, u\<lparr>w_dispatched := rs\<rparr>)"
    and u: "rb_wf u" "D \<subseteq> tab ?rb" "tab u = tab ?rb - D \<union> req_entry ` set rs" "m_consumerGroup u = m_consumerGroup ?rb" "distinct (map pr_processQueue rs)" "w_next ?rb \<le> w_next u"
    and old: "\<And>x. x < w_next ?rb \<Longrightarrow> w_pqs u x = mark_dropped (snd ` D) (w_pqs ?rb) x"
    and new: "\<And>r. r \<in> set rs \<Longrightarrow> w_next ?rb \<le> pr_processQueue r \<and> pr_consumerGroup r = m_consumerGroup ?rb \<and>
       map_option m_droped (w_pqs u (pr_processQueue r)) = Some False"
    using rebalance_outcome [OF _ _ env] pull_inv_reg [OF inv kr] by metis
  define v where "v = set_rb k (u\<lparr>w_dispatched := []\<rparr>) w"
  have w': "w' = v\<lparr>m_pullRequestQueue := m_pullRequestQueue w @ [?n ..< ?n + length rs],
     u_requests := (\<lambda>a. if ?n \<le> a \<and> a < ?n + length rs then Some (rs ! (a - ?n)) else u_requests w a), u_nextRequest := ?n + length rs\<rparr>"
    using run up by (simp add: rebalance_topic_def enqueue_requests v_def cong: if_cong)
  have rb: "rb_of j w' = (if j = k then u\<lparr>w_dispatched := []\<rparr> else rb_of j w)" for j
  proof -
    have "rb_of j w' = rb_of j v" by (simp add: rb_of_def w')
    then show ?thesis by (simp add: v_def)
  qed
  have sel: "selectConsumer g (u_factory w') = selectConsumer g (u_factory w)" for g by (simp add: w' v_def)
  have grp: "m_consumerGroup (rb_of j w') = m_consumerGroup (rb_of j w)" for j by (simp add: rb u(4))
  have reg: "registered w' j = registered w j" for j unfolding registered_def grp sel ..
  have en: "entry w' j m x b = entry w j m x b" if "b < ?n" for j m x b using that unfolding entry_def grp by (simp add: entry_at_def w')
  have ne: "entry w' j m x (?n + i) \<longleftrightarrow> m_consumerGroup (rb_of j w) = pr_consumerGroup (rs ! i) \<and> (m, x) = req_entry (rs ! i)" if "i < length rs" for j m x i
    using that unfolding entry_def grp by (auto simp: entry_at_def w' req_entry_def)
  have low: "x < w_next ?rb" if "flag w k x \<noteq> None" for x
  proof (rule ccontr)
    assume "\<not> x < w_next ?rb"
    then show False using pull_inv_reg [OF inv kr] that by (simp add: rb_wf_def flag_def)
  qed
  have fl: "flag w' k x = (if x \<in> snd ` D then map_option (\<lambda>_. True) (flag w k x) else flag w k x)" if "x < w_next ?rb" for x
    using old [OF that] by (cases "w_pqs ?rb x") (auto simp: flag_def rb mark_dropped_def setDroped_def)
  have nn: "u_nextRequest w' = ?n + length rs" by (simp add: w')
  have nx: "w_next (rb_of j w) \<le> w_next (rb_of j w')" for j using u(6) by (simp add: rb)
  have fj: "flag w' j x = flag w j x" if "j \<noteq> k" for j x using that by (simp add: flag_def rb)
  have pl: "mset (places w') = mset (places w) + mset [?n ..< ?n + length rs]" and tasks: "u_tasks w' = u_tasks w" "held w' = held w"
    and pop: "u_popping w' = u_popping w"
    using pull_inv_distinct [OF inv] by (auto simp: places_def w' v_def held_def)
  then have ps: "set (places w') = set (places w) \<union> {?n ..< ?n + length rs}" by (metis set_mset_mset set_mset_union set_upt)
  have lt: "b < ?n" if "b \<in> set (places w)" for b using pull_inv_place [OF inv that] by blast
  have pick: "\<exists>i < length rs. b = ?n + i" if "b \<in> set (places w')" "\<not> b < ?n" for b
    using that lt ps by (intro exI [of _ "b - ?n"]) auto
  have same: "registered w j \<Longrightarrow> m_consumerGroup (rb_of j w) = m_consumerGroup ?rb \<longleftrightarrow> j = k" for j
    using kr unfolding registered_def by (metis option.inject)
  show ?thesis
  proof (rule pull_invI)
    have "distinct (places w @ [?n ..< ?n + length rs])" using pull_inv_distinct [OF inv] lt by fastforce
    then show "distinct (places w')" using pl by (metis mset_append mset_eq_imp_distinct_iff)
    show "m_pullRequestQueue w' \<noteq> []" if "u_popping w'" using pull_inv_distinct [OF inv] that pop by (simp add: w')
  next
    fix b assume b: "b \<in> set (places w')"
    show "b < u_nextRequest w' \<and> (\<exists>k mq p. registered w' k \<and> entry w' k mq p b \<and> flag w' k p \<noteq> None \<and> mq_ok mq)"
    proof (cases "b < ?n")
      case True
      then have "b \<in> set (places w)" using b ps by auto
      then obtain j m x where j: "registered w j" "entry w j m x b" "flag w j x \<noteq> None" "mq_ok m" using pull_inv_place [OF inv] by blast
      then have "flag w' j x \<noteq> None" using fl low fj by (cases "j = k") auto
      then show ?thesis using True j en reg by (auto simp: w')
    next
      case False
      then obtain i where i: "i < length rs" "b = ?n + i" using pick [OF b] by blast
      let ?r = "rs ! i"
      have r: "?r \<in> set rs" using i by simp
      then have "mq_ok (pr_messageQueue ?r)" using rb_wf_ok [OF u(1), of "pr_messageQueue ?r" "pr_processQueue ?r"] u(3) by (auto simp: req_entry_def)
      then show ?thesis using i new [OF r] kr
        by (auto simp: nn reg ne req_entry_def flag_def rb intro!: exI [of _ k])
    qed
  next
    fix b j assume "(b, j) \<in> held w'"
    then show "registered w' j \<and> (\<exists>mq p. entry w' j mq p b)"
      using pull_inv_held [OF inv, of b j] lt [OF held_places, of b j] by (simp add: tasks reg en)
  next
    fix j assume "registered w' j"
    then show "rb_wf (rb_of j w') \<and> w_dispatched (rb_of j w') = []" using pull_inv_reg [OF inv] u(1) by (simp add: reg rb rb_wf_def)
  next
    fix j m x assume j: "registered w' j" "(m, x) \<in> tab (rb_of j w')"
    show "(j, m, x) \<in> L \<or> (\<exists>b \<in> set (places w'). entry w' j m x b)"
    proof (cases "(m, x) \<in> tab (rb_of j w)")
      case True
      then have "(j, m, x) \<in> L \<or> (\<exists>b \<in> set (places w). entry w j m x b)" using pull_inv_tab [OF inv _ True] j(1) reg by blast
      then show ?thesis using lt ps en by blast
    next
      case False
      with j have jk: "j = k" "(m, x) \<in> req_entry ` set rs" using u(3) by (auto simp: rb split: if_splits)
      then obtain i where "i < length rs" "(m, x) = req_entry (rs ! i)" by (auto simp: in_set_conv_nth)
      then show ?thesis using jk ps new [of "rs ! i"] by (intro disjI2 bexI [of _ "?n + i"]) (auto simp: ne)
    qed
  next
    fix j m m' x b c' assume *: "registered w' j" "b \<in> set (places w')" "c' \<in> set (places w')" "entry w' j m x b" "entry w' j m' x c'"
    then have j: "registered w j" by (simp add: reg)
    have oldx: "d \<in> set (places w) \<and> entry w j m x d \<and> (j = k \<longrightarrow> x < w_next ?rb)" if "d < ?n" "d \<in> set (places w')" "entry w' j m x d" for d m
    proof -
      have d: "d \<in> set (places w)" "entry w j m x d" using that ps en by auto
      moreover have "flag w j x \<noteq> None" using pull_inv_place [OF inv d(1)] request_entry_unique [OF d(2) _ j] by blast
      ultimately show ?thesis using low by blast
    qed
    have newx: "\<exists>i < length rs. d = ?n + i \<and> pr_processQueue (rs ! i) = x \<and> j = k \<and> w_next ?rb \<le> x" if nd: "\<not> d < ?n" "d \<in> set (places w')" "entry w' j m x d" for d m
    proof -
      obtain i where i: "i < length rs" "d = ?n + i" using pick [OF nd(2,1)] by blast
      then show ?thesis using nd(3) ne new [of "rs ! i"] same [OF j] by (auto simp: req_entry_def)
    qed
    show "b = c'"
    proof (cases "b < ?n"; cases "c' < ?n")
      assume "b < ?n" "c' < ?n"
      then show ?thesis using oldx [of b m] oldx [of c' m'] * pull_inv_one [OF inv j] by blast
    next
      assume "\<not> b < ?n" "\<not> c' < ?n"
      then obtain i i' where "i < length rs" "b = ?n + i" "i' < length rs" "c' = ?n + i'" "pr_processQueue (rs ! i) = pr_processQueue (rs ! i')"
        using newx [of b m] newx [of c' m'] * by metis
      then show ?thesis using u(5) by (auto simp: distinct_conv_nth)
    qed (use oldx newx * in fastforce)+
  next
    fix j m x assume *: "registered w' j" "(m, x) \<in> tab (rb_of j w')" "flag w' j x = Some True"
    have "(m, x) \<in> tab (rb_of j w) \<and> flag w j x = Some True"
    proof (cases "j = k")
      case True
      have "(m, x) \<notin> req_entry ` set rs" using new * True by (fastforce simp: req_entry_def flag_def rb)
      then have t: "(m, x) \<in> tab ?rb" "(m, x) \<notin> D" using * True u(3) by (auto simp: rb)
      then have "x \<notin> snd ` D" using u(2) pull_inv_reg [OF inv kr] by (force simp: rb_wf_def inj_on_def)
      moreover have "x < w_next ?rb" using rb_wf_fresh [OF _ t(1)] pull_inv_reg [OF inv kr] by simp
      ultimately show ?thesis using fl * True t(1) by simp
    qed (use * fj in \<open>simp add: rb\<close>)
    then obtain b where b: "b \<in> fst ` set (u_tasks w)" "entry w j m x b" using pull_inv_dropped [OF inv, of j m x] * by (auto simp: reg)
    then have "b < ?n" using lt by (auto simp: places_def)
    then show "\<exists>b \<in> fst ` set (u_tasks w'). entry w' j m x b" unfolding tasks(1) using b en [of b j m x] by blast
  next
    fix j m x assume "(j, m, x) \<in> L"
    note l = pull_inv_lost [OF inv this]
    show "registered w' j \<and> x < w_next (rb_of j w') \<and> (\<forall>m. \<forall>b \<in> set (places w'). \<not> entry w' j m x b)"
    proof (intro conjI allI ballI notI)
      show "registered w' j" "x < w_next (rb_of j w')" using l reg nx [of j] by auto
      fix m b assume b: "b \<in> set (places w')" "entry w' j m x b"
      show False
      proof (cases "b < ?n")
        case True
        then show False using b l en ps by auto
      next
        case False
        then obtain i where "i < length rs" "b = ?n + i" using pick [OF b(1)] by blast
        then show False using b(2) ne new [of "rs ! i"] same [of j] l by (auto simp: req_entry_def)
      qed
    qed
  next
    fix g j assume "selectConsumer g (u_factory w') = Some j"
    then show "m_consumerGroup (rb_of j w') = g" unfolding sel grp by (rule pull_inv_group [OF inv])
  qed
qed

section \<open>A broker that cannot be reached\<close>

text \<open>When no connection can be made, \<open>invokeAsync\<close> returns -1 and \<open>pullMessageAsync\<close> ignores it. What \<open>pullMessage\<close> does then is what
  it does on a working connection, up to the call that would carry the request to the broker; there the request is put nowhere.\<close>

lemma send_pull_NoConnection:
  assumes "send_pull env NoConnection k a r sd w = Some v"
  shows "send_pull env Sent k a r sd w = Some v \<or>
    unmoved w v \<and> (\<exists>v'. send_pull env Sent k a r sd w = Some v' \<and> u_calls v' \<noteq> u_calls w)"
proof -
  obtain en c st where co: "commit_offset env k (pr_messageQueue r) (rb_of k w) = (en, c, st)"
    by (cases "commit_offset env k (pr_messageQueue r) (rb_of k w)")
  define w1 where "w1 = set_store k st w"
  have u: "unmoved w w1" by (simp add: w1_def)
  obtain x f where ker: "pullKernelImpl (v_ns env) (u_push w1 k) (m_consumerGroup (rb_of k w1)) (pr_messageQueue r) '''' (sd_subVersion sd)
      (pr_nextOffset r) (h_pullBatchSize (u_push w1 k)) (buildSysFlag en True False) c s_BrokerSuspendMaxTimeMillis (u_factory w1) = Some (x, f)"
    using assms by (auto simp: send_pull_def co w1_def [symmetric] Let_def split: option.splits)
  have "same_core w1 (w1\<lparr>u_factory := f\<rparr>)" by (rule same_core_factory) (simp_all add: pullKernelImpl_core [OF ker])
  then have "unmoved w1 (w1\<lparr>u_factory := f\<rparr>)" by (simp add: unmoved_def)
  with u have "unmoved w (w1\<lparr>u_factory := f\<rparr>)" by (rule unmoved_trans)
  moreover have "u_calls w1 = u_calls w" using u by (simp add: unmoved_def)
  ultimately show ?thesis using assms ker
    by (cases x) (auto simp: send_pull_def co w1_def [symmetric] Let_def split: prod.splits)
qed

lemma push_pullMessage_NoConnection:
  assumes "push_pullMessage env NoConnection k a w = Some v"
  shows "push_pullMessage env Sent k a w = Some v \<or>
    unmoved w v \<and> (\<exists>v'. push_pullMessage env Sent k a w = Some v' \<and> u_calls v' \<noteq> u_calls w)"
proof -
  from assms obtain r pq where r: "u_requests w a = Some r" "w_pqs (rb_of k w) (pr_processQueue r) = Some pq"
    by (auto simp: push_pullMessage_def split: option.splits)
  let ?h = "u_push w k" and ?sd = "snd (hasSubscribe (m_topic (pr_messageQueue r)) (rb_of k w))"
  let ?early = "m_droped pq \<or> k_serviceState (f_consumers (u_factory w) k) \<noteq> RUNNING \<or> h_pause ?h \<or> m_msgCount pq > h_pullThresholdForQueue ?h
    \<or> (\<not> h_consumeOrderly ?h \<and> getMaxSpan pq > h_consumeConcurrentlyMaxSpan ?h) \<or> ?sd = None"
  show ?thesis
  proof (cases ?early)
    case True
    then have "push_pullMessage env Sent k a w = push_pullMessage env NoConnection k a w"
      by (elim disjE) (simp_all add: push_pullMessage_def r Let_def)
    with assms show ?thesis by simp
  next
    case False
    then obtain sd where "push_pullMessage env how k a w = send_pull env how k a r sd w" for how
      by (auto simp: push_pullMessage_def r Let_def)
    with assms show ?thesis using send_pull_NoConnection [of env k a r sd w v] by simp
  qed
qed

lemma send_pull_Sent:
  assumes "send_pull env Sent k a r sd w = Some v" "u_calls v \<noteq> u_calls w"
  shows "\<exists>w'. send_pull env NoConnection k a r sd w = Some w' \<and> unmoved w w'"
proof -
  obtain en c st where co: "commit_offset env k (pr_messageQueue r) (rb_of k w) = (en, c, st)"
    by (cases "commit_offset env k (pr_messageQueue r) (rb_of k w)")
  define w1 where "w1 = set_store k st w"
  have u: "unmoved w w1" by (simp add: w1_def)
  from assms obtain addr header f where ker: "pullKernelImpl (v_ns env) (u_push w1 k) (m_consumerGroup (rb_of k w1)) (pr_messageQueue r) '''' (sd_subVersion sd)
      (pr_nextOffset r) (h_pullBatchSize (u_push w1 k)) (buildSysFlag en True False) c s_BrokerSuspendMaxTimeMillis (u_factory w1) = Some (Inr (addr, header), f)"
    using u by (auto simp: send_pull_def co w1_def [symmetric] Let_def executePullRequestLater_def unmoved_def split: option.splits sum.splits)
  then have "send_pull env NoConnection k a r sd w = Some (w1\<lparr>u_factory := f\<rparr>)"
    by (simp add: send_pull_def co w1_def [symmetric] Let_def)
  moreover have "same_core w1 (w1\<lparr>u_factory := f\<rparr>)" by (rule same_core_factory) (simp_all add: pullKernelImpl_core [OF ker])
  then have "unmoved w1 (w1\<lparr>u_factory := f\<rparr>)" by (simp add: unmoved_def)
  ultimately show ?thesis using unmoved_trans [OF u] by blast
qed

lemma push_pullMessage_Sent:
  assumes "push_pullMessage env Sent k a w = Some v" "u_calls v \<noteq> u_calls w"
  shows "\<exists>w'. push_pullMessage env NoConnection k a w = Some w' \<and> unmoved w w'"
proof -
  from assms(1) obtain r pq where r: "u_requests w a = Some r" "w_pqs (rb_of k w) (pr_processQueue r) = Some pq"
    by (auto simp: push_pullMessage_def split: option.splits)
  have "\<exists>sd. send_pull env Sent k a r sd w = Some v \<and> push_pullMessage env NoConnection k a w = send_pull env NoConnection k a r sd w"
    using assms r by (auto simp: push_pullMessage_def Let_def delete_pullRequest_def executePullRequestLater_def set_push_def
        split: option.splits if_splits)
  then show ?thesis using send_pull_Sent assms(2) by metis
qed

lemma pull_inv_stranded:
  assumes inv: "pull_inv L w" and q: "m_pullRequestQueue w = a # q" "\<not> u_popping w" and k: "registered w k" "entry w k mq p a"
    and v: "unmoved w v"
  shows "pull_inv (insert (k, mq, p) L) (v\<lparr>u_popping := True\<rparr>)" (is "pull_inv ?L ?w")
proof -
  have c: "same_core w ?w" using v by (auto simp: unmoved_def intro: same_core_trans [OF _ same_core_fields])
  note cd = same_coreD [OF c]
  have pl: "places w = a # places ?w" and tasks: "u_tasks ?w = u_tasks w" "held ?w = held w"
    using q v by (simp_all add: places_def unmoved_def held_def)
  have dist: "a \<notin> set (places ?w)" "distinct (places ?w)" using pull_inv_distinct [OF inv] unfolding pl by auto
  have aw: "a \<in> set (places w)" and sub: "b \<in> set (places ?w) \<Longrightarrow> b \<in> set (places w)" for b by (simp_all add: pl)
  have p: "p < w_next (rb_of k w)"
  proof (rule ccontr)
    assume "\<not> p < w_next (rb_of k w)"
    then have "flag w k p = None" using pull_inv_reg [OF inv k(1)] by (simp add: rb_wf_def flag_def)
    moreover obtain j m x where "registered w j" "entry w j m x a" "flag w j x \<noteq> None" using pull_inv_place [OF inv aw] by blast
    ultimately show False using request_entry_unique [OF k(2) _ k(1), of j m x] by auto
  qed
  have no: "\<not> entry w k m p b" if "b \<in> set (places ?w)" for m b
  proof
    assume "entry w k m p b"
    then have "b = a" by (rule pull_inv_one [OF inv k(1) sub [OF that] aw _ k(2)])
    then show False using that dist(1) by blast
  qed
  show ?thesis
  proof (rule pull_invI, goal_cases)
    case 1
    then show ?case by (rule dist)
  next
    case 2
    then show ?case using q v by (simp add: unmoved_def)
  next
    case (3 b)
    then show ?case unfolding cd using pull_inv_place [OF inv sub] by blast
  next
    case (4 b j)
    then show ?case unfolding cd tasks by (rule pull_inv_held [OF inv])
  next
    case (5 j)
    then show ?case unfolding cd by (rule pull_inv_reg [OF inv])
  next
    case (6 j m x)
    then have "(j, m, x) \<in> L \<or> (\<exists>b \<in> set (places w). entry w j m x b)" and j: "registered w j" unfolding cd using pull_inv_tab [OF inv] by blast+
    then consider "(j, m, x) \<in> L" | b where "b \<in> set (places ?w)" "entry w j m x b" | "entry w j m x a" unfolding pl by auto
    then show ?case unfolding cd using request_entry_unique [OF k(2) _ k(1) j] by cases blast+
  next
    case (7 j m m' x b c)
    then show ?case unfolding cd using pull_inv_one [OF inv] sub by blast
  next
    case (8 j m x)
    then show ?case unfolding cd tasks by (rule pull_inv_dropped [OF inv])
  next
    case (9 g j)
    then show ?case unfolding cd by (rule pull_inv_group [OF inv])
  next
    case (10 j m x)
    show ?case
    proof (cases "(j, m, x) = (k, mq, p)")
      case True
      then show ?thesis unfolding cd using k(1) p no by simp
    next
      case False
      then show ?thesis unfolding cd using 10 pull_inv_lost [OF inv, of j m x] sub by blast
    qed
  qed
qed

section \<open>Every assigned queue is being pulled\<close>

text \<open>Start offsets: \<open>computePullFromWhere\<close> catches \<open>MQClientException\<close>, and \<open>MQAdminImpl\<close> throws nothing else, whatever the broker answers.\<close>

definition client_exceptions :: "'s rb_env \<Rightarrow> bool" where
  "client_exceptions env \<longleftrightarrow>
     (\<forall>mq t e. e_maxOffset env mq = Inl e \<or> e_searchOffset env mq t = Inl e \<longrightarrow> (\<exists>m c. e = MQClientException m c))"

lemma admin_exceptions:
  assumes "admin_maxOffset transport pre addr mq = Some (Inl e) \<or> admin_searchOffset transport pre addr mq t = Some (Inl e)"
  shows "\<exists>m c. e = MQClientException m c"
proof -
  have call: "\<exists>m c. x = MQClientException m c"
    if "getMaxOffset transport pre addr mq = Some (Inl x) \<or> searchOffset transport pre addr mq t = Some (Inl x)" for x
    using that by (auto simp: getMaxOffset_def searchOffset_def Option.bind_eq_Some_conv split: option.splits if_splits)
  have "\<exists>m c. e = MQClientException m c" if "admin_wrap addr mq y = Some (Inl e)" "\<And>x. y = Some (Inl x) \<Longrightarrow> \<exists>m c. x = MQClientException m c" for y
    using that by (cases y; cases "the y") (force simp: admin_wrap_def split: if_splits)+
  then show ?thesis using assms call unfolding admin_maxOffset_def admin_searchOffset_def by blast
qed

lemma admin_client_exceptions:
  assumes "\<And>mq. admin_maxOffset transport pre (addrs mq) mq = Some (e_maxOffset env mq)"
    and "\<And>mq t. admin_searchOffset transport pre (addrs mq) mq t = Some (e_searchOffset env mq t)"
  shows "client_exceptions env"
  unfolding client_exceptions_def using admin_exceptions [of transport pre] assms by metis

lemma offsets_are_answered: "e_kind env = Push \<Longrightarrow> client_exceptions env \<Longrightarrow> offsets_answered env"
  by (force simp: offsets_answered_def client_exceptions_def computePullFromWhere_def push_computePullFromWhere_def catch_client_def Let_def
      split: prod.splits ConsumeFromWhere.splits sum.splits mq_exception.splits)

text \<open>Steps of a push consumer: a rebalance installs a set of queues, and only \<open>MQClientException\<close> leaves the admin calls. In a
  \<open>calm\<close> step the broker can be connected too.\<close>

fun push_action_ok :: "'s pull_env \<Rightarrow> pull_action \<Rightarrow> bool" where
  "push_action_ok env (Rebalanced grp topic mqSet) =
     ((\<forall>k. e_kind (v_rb env k) = Push \<and> client_exceptions (v_rb env k)) \<and> set_wf mq_lt mq_ok mqSet)"
| "push_action_ok env _ = True"

fun calm :: "'s pull_env \<Rightarrow> pull_action \<Rightarrow> bool" where
  "calm env (RunPull how) = (how \<noteq> NoConnection)"
| "calm env (Rebalanced grp topic mqSet) =
     ((\<forall>k. e_kind (v_rb env k) = Push \<and> offsets_answered (v_rb env k)) \<and> set_wf mq_lt mq_ok mqSet)"
| "calm env _ = True"

lemma Run_pop_inv: "pull_inv L w \<Longrightarrow> pull_inv L (Run_pop w)"
proof (cases "u_popping w")
  case True
  assume inv: "pull_inv L w"
  show ?thesis
    by (rule pull_inv_move [OF inv]) (use True pull_inv_held [OF inv] in \<open>auto simp: Run_pop_def places_def held_def intro!: same_core_fields\<close>)
qed (simp add: Run_pop_def)

lemma later_inv:
  assumes inv: "pull_inv L w"
  shows "pull_inv L (PullMessageLater_OnTimeOut i w)"
proof (cases "i < length (u_later w)")
  case True
  let ?v = "w\<lparr>u_later := remove_nth i (u_later w)\<rparr>"
  have "pull_inv L (executePullRequestImmediately (fst (u_later w ! i)) ?v)"
  proof (rule pull_inv_placed [OF inv _ _ _ _ _ placed_now])
    show "same_core w ?v" by (rule same_core_fields) simp_all
    show "mset (places w) = add_mset (fst (u_later w ! i)) (mset (places ?v))"
      using mset_map_remove_nth [OF True, of fst] by (simp add: places_def)
  qed (use pull_inv_distinct [OF inv] in \<open>simp_all add: held_def\<close>)
  with True show ?thesis by (simp add: PullMessageLater_OnTimeOut_def)
qed (simp add: PullMessageLater_OnTimeOut_def inv)

lemma pull_step_inv:
  assumes "pull_inv L w" "calm env act" "isBlank (n_projectGroupPrefix (v_ns env))" "pull_step env act w = Some w'"
  shows "pull_inv L w'"
proof (cases act)
  case (RunPull how)
  then show ?thesis using assms Run_pull_inv by (auto simp: pull_step_def)
next
  case RunPop
  then show ?thesis using assms Run_pop_inv by (auto simp: pull_step_def)
next
  case (LaterFires i)
  then show ?thesis using assms later_inv by (auto simp: pull_step_def)
next
  case (TaskFires i)
  then show ?thesis using assms pull_inv_task [OF assms(1), of i "fst (u_tasks w ! i)" "snd (u_tasks w ! i)" env w']
    by (auto simp: pull_step_def split: if_splits)
next
  case (Completes i response)
  then show ?thesis using assms operationComplete_inv [OF assms(1) _ assms(3)] by (auto simp: pull_step_def split: if_splits)
next
  case (Rebalanced grp topic mqSet)
  show ?thesis
  proof (cases "selectConsumer grp (u_factory w)")
    case (Some k)
    then show ?thesis using assms(2,4) Rebalanced by (intro pull_inv_rebalanced [OF assms(1) Some, of env mqSet topic]) (simp_all add: pull_step_def)
  qed (use assms Rebalanced in \<open>simp add: pull_step_def\<close>)
qed

lemma pull_run_inv:
  assumes "pull_inv L w" "list_all (calm env) acts" "isBlank (n_projectGroupPrefix (v_ns env))" "pull_run env acts w = Some w'"
  shows "pull_inv L w'"
  using assms
proof (induction acts arbitrary: w)
  case (Cons act acts)
  then obtain v where "pull_step env act w = Some v" "pull_run env acts v = Some w'" by (auto simp: Option.bind_eq_Some_conv)
  with Cons pull_step_inv show ?case by fastforce
qed simp

text \<open>The queues whose request a step loses: the service thread has taken the request, would have sent it, and there is no connection.\<close>

definition lost_by :: "'s pull_env \<Rightarrow> pull_action \<Rightarrow> 's pulling \<Rightarrow> (nat \<times> MessageQueue \<times> nat) set" where
  "lost_by env act w = {(k, mq, p). act = RunPull NoConnection \<and> (\<exists>a q v. m_pullRequestQueue w = a # q \<and> \<not> u_popping w \<and> registered w k \<and>
     entry w k mq p a \<and> Run_pull env Sent w = Some v \<and> u_calls v \<noteq> u_calls w)}"

fun stranded :: "'s pull_env \<Rightarrow> pull_action list \<Rightarrow> 's pulling \<Rightarrow> (nat \<times> MessageQueue \<times> nat) set" where
  "stranded env [] w = {}"
| "stranded env (act # acts) w =
     lost_by env act w \<union> (case pull_step env act w of None \<Rightarrow> {} | Some v \<Rightarrow> stranded env acts v)"

lemma Run_pull_lossy:
  assumes inv: "pull_inv L w" and run: "Run_pull env NoConnection w = Some w'"
  shows "\<exists>L'. pull_inv L' w' \<and> L' \<subseteq> L \<union> lost_by env (RunPull NoConnection) w"
proof (cases "m_pullRequestQueue w = [] \<or> u_popping w")
  case True
  then show ?thesis using run inv by (intro exI [of _ L]) (auto simp: Run_pull_def split: list.splits)
next
  case False
  then obtain a q where q: "m_pullRequestQueue w = a # q" "\<not> u_popping w" by (cases "m_pullRequestQueue w") auto
  then have "a \<in> set (places w)" by (simp add: places_def)
  then obtain k mq p where k: "registered w k" "entry w k mq p a" using pull_inv_place [OF inv] by blast
  then obtain r where r: "u_requests w a = Some r" "pr_consumerGroup r = m_consumerGroup (rb_of k w)" by (auto simp: entry_def entry_at_def)
  have run_as: "Run_pull env how w = map_option (\<lambda>w. w\<lparr>u_popping := True\<rparr>) (push_pullMessage env how k a w)" for how
    using q r k(1) by (simp add: Run_pull_def service_pullMessage_def registered_def)
  from run obtain v where v: "push_pullMessage env NoConnection k a w = Some v" "w' = v\<lparr>u_popping := True\<rparr>" by (auto simp: run_as)
  from push_pullMessage_NoConnection [OF v(1)] show ?thesis
  proof
    assume "push_pullMessage env Sent k a w = Some v"
    then have "Run_pull env Sent w = Some w'" by (simp add: run_as v(2))
    from Run_pull_inv [OF inv _ this] show ?thesis by blast
  next
    assume s: "unmoved w v \<and> (\<exists>v'. push_pullMessage env Sent k a w = Some v' \<and> u_calls v' \<noteq> u_calls w)"
    then obtain v' where v': "push_pullMessage env Sent k a w = Some v'" "u_calls v' \<noteq> u_calls w" by blast
    then have "Run_pull env Sent w = Some (v'\<lparr>u_popping := True\<rparr>)" "u_calls (v'\<lparr>u_popping := True\<rparr>) \<noteq> u_calls w" by (simp_all add: run_as)
    then have "(k, mq, p) \<in> lost_by env (RunPull NoConnection) w" unfolding lost_by_def using q k by blast
    moreover have "pull_inv (insert (k, mq, p) L) w'" unfolding v(2) using pull_inv_stranded [OF inv q k] s by blast
    ultimately show ?thesis by blast
  qed
qed

lemma push_action_calm: "push_action_ok env act \<Longrightarrow> act \<noteq> RunPull NoConnection \<Longrightarrow> calm env act"
  by (cases act) (auto simp: offsets_are_answered)

lemma pull_step_lossy:
  assumes "pull_inv L w" "push_action_ok env act" "isBlank (n_projectGroupPrefix (v_ns env))" "pull_step env act w = Some w'"
  shows "\<exists>L'. pull_inv L' w' \<and> L' \<subseteq> L \<union> lost_by env act w"
proof (cases "act = RunPull NoConnection")
  case True
  then show ?thesis using Run_pull_lossy [OF assms(1)] assms(4) by (simp add: pull_step_def)
next
  case False
  from pull_step_inv [OF assms(1) push_action_calm [OF assms(2) False] assms(3,4)] show ?thesis by blast
qed

lemma pull_run_lossy:
  assumes "pull_inv L w" "list_all (push_action_ok env) acts" "isBlank (n_projectGroupPrefix (v_ns env))" "pull_run env acts w = Some w'"
  shows "\<exists>L'. pull_inv L' w' \<and> L' \<subseteq> L \<union> stranded env acts w"
  using assms
proof (induction acts arbitrary: w L)
  case Nil
  then show ?case by auto
next
  case (Cons act acts)
  then obtain v where v: "pull_step env act w = Some v" "pull_run env acts v = Some w'" by (auto simp: Option.bind_eq_Some_conv)
  obtain M where M: "pull_inv M v" "M \<subseteq> L \<union> lost_by env act w" using pull_step_lossy [OF Cons.prems(1) _ Cons.prems(3) v(1)] Cons.prems(2) by auto
  obtain N where "pull_inv N w'" "N \<subseteq> M \<union> stranded env acts v" using Cons.IH [OF M(1) _ Cons.prems(3) v(2)] Cons.prems(2) by auto
  then show ?case using M(2) v(1) by (intro exI [of _ N]) auto
qed

text \<open>The invariant holds when the client starts: no request exists and the consumers have no queues.\<close>

lemma pull_inv_start:
  assumes "places w = []" "\<not> u_popping w"
    and "\<And>k. registered w k \<Longrightarrow> rb_wf (rb_of k w) \<and> w_dispatched (rb_of k w) = [] \<and> m_processQueueTable (rb_of k w) = []"
    and "\<And>g k. selectConsumer g (u_factory w) = Some k \<Longrightarrow> m_consumerGroup (rb_of k w) = g"
  shows "pull_inv {} w"
proof (rule pull_invI)
  have "u_tasks w = []" "u_calls w = []" using assms(1) by (auto simp: places_def)
  then show "registered w k \<and> (\<exists>mq p. entry w k mq p a)" if "(a, k) \<in> held w" for a k using that by (simp add: held_def)
qed (use assms in auto)

text \<open>
  C8. What becomes of an assigned queue, for a client without project prefix whose consumers push. From a state that satisfies the invariant (a
  starting client does), through any sequence of steps of the service thread, the timers, the callbacks and the rebalancing threads, connections that fail
  included: for every queue in the table of a registered consumer exactly one pull request is in the queue of the service thread,
  in a timer, in a ten second task or in a callback waiting for the broker, it is there once, and its process queue is alive; the only
  exceptions are the queues whose request the service thread had in its hand when no connection to the broker could be made.
\<close>

theorem assigned_queue_keeps_pulling:
  assumes "pull_inv {} w" "list_all (push_action_ok env) acts" "isBlank (n_projectGroupPrefix (v_ns env))" "pull_run env acts w = Some w'"
    and "registered w' k" "(mq, p) \<in> tab (rb_of k w')" "(k, mq, p) \<notin> stranded env acts w"
  shows "\<exists>!a. a \<in> set (places w') \<and> entry w' k mq p a \<and> count (mset (places w')) a = 1 \<and> flag w' k p \<noteq> None"
proof -
  obtain L where inv: "pull_inv L w'" and L: "L \<subseteq> stranded env acts w" using pull_run_lossy [OF assms(1-4)] by auto
  then obtain a where a: "a \<in> set (places w')" "entry w' k mq p a" using pull_inv_tab [OF inv assms(5,6)] assms(7) by blast
  moreover have "count (mset (places w')) a = 1" using pull_inv_distinct [OF inv] a(1) by (simp add: distinct_count_atmost_1)
  moreover have "flag w' k p \<noteq> None" using pull_inv_place [OF inv a(1)] request_entry_unique [OF a(2) _ assms(5)] by blast
  moreover have "b = a" if "b \<in> set (places w')" "entry w' k mq p b" for b using pull_inv_one [OF inv assms(5)] a that by blast
  ultimately show ?thesis by blast
qed

text \<open>A consumer of group \<open>g\<close> with two queues of one broker, both waiting to be pulled.\<close>

definition sample_push :: push where
  "sample_push = \<lparr>h_pause = False, h_consumeOrderly = False, h_pullThresholdForQueue = 1000, h_consumeConcurrentlyMaxSpan = 2000, h_pullInterval = 0,
     h_pullBatchSize = 32, h_consumeMessageBatchMaxSize = 1, h_flowControlTimes1 = 0, h_flowControlTimes2 = 0, h_stat = sample_stat,
     m_pullFromWhichNodeTable = []\<rparr>"

definition sample_request :: "int \<Rightarrow> PullRequest" where
  "sample_request i = \<lparr>pr_consumerGroup = ''g'', pr_messageQueue = sample_mq i, pr_processQueue = nat i, pr_nextOffset = 5\<rparr>"

definition sample_pulling :: "(RemoteStore \<times> offset_send list) pulling" where
  "sample_pulling = \<lparr>u_factory = sample_factory\<lparr>m_consumerTable := [(''g'', 0)], m_brokerAddrTable := [(''b'', [(0, ''h:1'')])]\<rparr>,
     u_push = (\<lambda>_. sample_push), u_requests = [0 \<mapsto> sample_request 0, 1 \<mapsto> sample_request 1], u_nextRequest = 2, u_heap = (\<lambda>_. None), u_nextMsg = 0,
     m_pullRequestQueue = [0, 1], u_popping = False, u_later = [], u_tasks = [], u_calls = [], u_works = []\<rparr>"

definition sample_pull_env :: "(RemoteStore \<times> offset_send list) pull_env" where
  "sample_pull_env = \<lparr>v_rb = (\<lambda>_. sample_rb_env Push), v_upd = (\<lambda>_ mq off inc (s, l). (remote_updateOffset mq off inc s, l)), v_ns = sample_ns,
     v_decompress = (\<lambda>_. None), v_now = 7\<rparr>"

definition no_new_message :: RemotingCommand where
  "no_new_message = command_make 19 ''JAVA'' 0 0 1 '''' None \<lparr>cmd_header := Some (PullMessageResponseHeader 0 9 0 9)\<rparr>"

lemma sample_rb_of: "rb_of k sample_pulling = sample_rb"
  by (simp add: rb_of_def sample_pulling_def sample_factory_def sample_consumer_def)

lemma sample_select: "selectConsumer grp (u_factory sample_pulling) = Some k \<longleftrightarrow> grp = ''g'' \<and> k = 0"
  using str.find_Some_iff [of "[(''g'', 0)]" grp k] by (auto simp: selectConsumer_def sample_pulling_def)

lemma sample_registered: "registered sample_pulling k \<longleftrightarrow> k = 0"
  unfolding registered_def sample_rb_of sample_select by (simp add: sample_rb_def)

lemma sample_entry: "entry sample_pulling k mq p a \<longleftrightarrow> (a = 0 \<or> a = 1) \<and> mq = sample_mq (int a) \<and> p = a"
  unfolding entry_def sample_rb_of by (auto simp: entry_at_def sample_pulling_def sample_request_def sample_rb_def)

lemma sample_pull_inv: "pull_inv {} sample_pulling"
proof (rule pull_invI)
  have pl: "places sample_pulling = [0, 1]" "held sample_pulling = {}" by (simp_all add: places_def held_def sample_pulling_def)
  show "distinct (places sample_pulling)" "u_popping sample_pulling \<Longrightarrow> m_pullRequestQueue sample_pulling \<noteq> []"
    by (simp_all add: pl) (simp add: sample_pulling_def)
  fix k mq mq' p a b grp
  show "(k, mq, p) \<in> {} \<or> (\<exists>a \<in> set (places sample_pulling). entry sample_pulling k mq p a)" if "(mq, p) \<in> tab (rb_of k sample_pulling)"
    using that unfolding sample_rb_of pl sample_entry by (auto simp: sample_rb_def)
  show "a < u_nextRequest sample_pulling \<and>
      (\<exists>k mq p. registered sample_pulling k \<and> entry sample_pulling k mq p a \<and> flag sample_pulling k p \<noteq> None \<and> mq_ok mq)"
    if "a \<in> set (places sample_pulling)"
    using that sample_mq_ok [of "int a"] unfolding pl sample_entry sample_registered flag_def sample_rb_of
    by (auto simp: sample_pulling_def sample_rb_def)
  show "\<exists>a \<in> fst ` set (u_tasks sample_pulling). entry sample_pulling k mq p a"
    if "(mq, p) \<in> tab (rb_of k sample_pulling)" "flag sample_pulling k p = Some True"
    using that unfolding flag_def sample_rb_of by (auto simp: sample_rb_def ProcessQueue_new_def split: if_splits)
  show "m_consumerGroup (rb_of k sample_pulling) = grp" if "selectConsumer grp (u_factory sample_pulling) = Some k"
    using that unfolding sample_select sample_rb_of by (simp add: sample_rb_def)
  show "rb_wf (rb_of k sample_pulling) \<and> w_dispatched (rb_of k sample_pulling) = []"
    using sample_rb_wf unfolding sample_rb_of by (simp add: sample_rb_def)
  show "registered sample_pulling k \<and> (\<exists>mq p. entry sample_pulling k mq p a)" if "(a, k) \<in> held sample_pulling" using that pl by simp
  show "a = b" if "entry sample_pulling k mq p a" "entry sample_pulling k mq' p b" using that by (simp add: sample_entry)
qed simp

lemma sample_answered: "offsets_answered (sample_rb_env Push)"
  by (auto simp: offsets_answered_def computePullFromWhere_def push_computePullFromWhere_def sample_rb_env_def Let_def split: prod.splits)

text \<open>The pull of the first queue finds no connection; the second queue is pulled, answered, and pulled again.\<close>

lemma sample_pull_run:
  "case pull_run sample_pull_env [RunPull NoConnection, RunPop, RunPull Sent, Completes 0 (Some no_new_message), RunPop] sample_pulling of
     None \<Rightarrow> False | Some w \<Rightarrow> m_pullRequestQueue w = [1] \<and> m_processQueueTable (rb_of 0 w) = m_processQueueTable sample_rb
       \<and> selectConsumer (m_consumerGroup (rb_of 0 w)) (u_factory w) = Some 0"
  by code_simp

lemma lost_by_calm: "act \<noteq> RunPull NoConnection \<Longrightarrow> lost_by env act w = {}"
  by (simp add: lost_by_def)

lemma sample_stranded:
  "stranded sample_pull_env [RunPull NoConnection, RunPop, RunPull Sent, Completes 0 (Some no_new_message), RunPop] sample_pulling
   \<subseteq> {(0, sample_mq 0, 0)}"
proof -
  have "m_pullRequestQueue sample_pulling = [0, 1]" by (simp add: sample_pulling_def)
  then have "lost_by sample_pull_env (RunPull NoConnection) sample_pulling \<subseteq> {(0, sample_mq 0, 0)}"
    by (auto simp: lost_by_def sample_registered sample_entry)
  then show ?thesis by (simp add: lost_by_calm split: option.split)
qed

theorem assigned_queue_keeps_pulling_witness:
  "\<exists>w'. pull_run sample_pull_env [RunPull NoConnection, RunPop, RunPull Sent, Completes 0 (Some no_new_message), RunPop] sample_pulling = Some w'
    \<and> (\<exists>!a. a \<in> set (places w') \<and> entry w' 0 (sample_mq 1) 1 a \<and> count (mset (places w')) a = 1 \<and> flag w' 0 1 \<noteq> None)"
proof -
  let ?acts = "[RunPull NoConnection, RunPop, RunPull Sent, Completes 0 (Some no_new_message), RunPop]"
  obtain w' where w': "pull_run sample_pull_env ?acts sample_pulling = Some w'" "m_processQueueTable (rb_of 0 w') = m_processQueueTable sample_rb"
    "registered w' 0" using sample_pull_run by (auto simp: registered_def split: option.splits)
  have t: "(sample_mq 1, 1) \<in> tab (rb_of 0 w')" unfolding w'(2) by (simp add: sample_rb_def)
  have n: "(0, sample_mq 1, 1) \<notin> stranded sample_pull_env ?acts sample_pulling" using sample_stranded by auto
  from assigned_queue_keeps_pulling [OF sample_pull_inv _ _ w'(1,3) t n] w'(1) show ?thesis
    by (simp add: sample_pull_env_def sample_ns_def isBlank_def)
qed

section \<open>A queue that is lost\<close>

text \<open>
  C27. A broker that cannot be reached once strands its queues for good. When no connection can be made at the moment a pull is
  sent, no callback is run and the request is put nowhere: the queue stays in the consumer's table, so no rebalance replaces the request, and in
  every later state, even when all connections succeed from then on, no request for this process queue is anywhere.
\<close>

theorem unreachable_broker_strands_queue:
  assumes "pull_inv {} w" "isBlank (n_projectGroupPrefix (v_ns env))" "m_pullRequestQueue w = a # q" "registered w k" "entry w k mq p a"
    and "Run_pull env Sent w = Some v" "u_calls v \<noteq> u_calls w"
  shows "\<exists>w'. Run_pull env NoConnection w = Some w' \<and> tab (rb_of k w') = tab (rb_of k w) \<and>
    (\<forall>acts w''. list_all (calm env) acts \<and> pull_run env acts w' = Some w'' \<longrightarrow> (\<forall>m. \<forall>b \<in> set (places w''). \<not> entry w'' k m p b))"
proof -
  have pop: "\<not> u_popping w" using assms(3,6,7) by (auto simp: Run_pull_def)
  obtain r where r: "u_requests w a = Some r" "pr_consumerGroup r = m_consumerGroup (rb_of k w)"
    using assms(5) by (auto simp: entry_def entry_at_def)
  have sv: "service_pullMessage env how a w = push_pullMessage env how k a w" for how
    using assms(4) r by (simp add: service_pullMessage_def registered_def)
  obtain v0 where "push_pullMessage env Sent k a w = Some v0" "u_calls v0 \<noteq> u_calls w"
    using assms(3,6,7) pop by (auto simp: Run_pull_def sv)
  then obtain w1 where w1: "push_pullMessage env NoConnection k a w = Some w1" "unmoved w w1" using push_pullMessage_Sent by blast
  let ?w' = "w1\<lparr>u_popping := True\<rparr>"
  have "Run_pull env NoConnection w = Some ?w'" using assms(3) pop w1(1) by (simp add: Run_pull_def sv)
  moreover have inv: "pull_inv {(k, mq, p)} ?w'" by (rule pull_inv_stranded [OF assms(1,3) pop assms(4,5) w1(2)])
  have "same_core w ?w'" using w1(2) by (auto simp: unmoved_def intro: same_core_trans [OF _ same_core_fields])
  then have "tab (rb_of k ?w') = tab (rb_of k w)" by (rule same_coreD)
  moreover have "\<not> entry w'' k m p b" if "list_all (calm env) acts" "pull_run env acts ?w' = Some w''" "b \<in> set (places w'')" for acts w'' m b
    using pull_inv_lost [OF pull_run_inv [OF inv that(1) assms(2) that(2)]] that(3) by blast
  ultimately show ?thesis by blast
qed

lemma sample_first_pull: "case Run_pull sample_pull_env Sent sample_pulling of None \<Rightarrow> False | Some w \<Rightarrow> length (u_calls w) = 1"
  by code_simp

theorem unreachable_broker_strands_queue_witness:
  "\<exists>w'. Run_pull sample_pull_env NoConnection sample_pulling = Some w' \<and> (sample_mq 0, 0) \<in> tab (rb_of 0 w') \<and>
    (\<forall>b \<in> set (places w'). \<not> entry w' 0 (sample_mq 0) 0 b)"
proof -
  obtain v where v: "Run_pull sample_pull_env Sent sample_pulling = Some v" "length (u_calls v) = 1"
    using sample_first_pull by (auto split: option.splits)
  have ne: "u_calls v \<noteq> u_calls sample_pulling" using v(2) by (auto simp: sample_pulling_def)
  have s: "isBlank (n_projectGroupPrefix (v_ns sample_pull_env))" "m_pullRequestQueue sample_pulling = [0, 1]" "registered sample_pulling 0"
    "entry sample_pulling 0 (sample_mq 0) 0 0"
    by (simp_all add: sample_registered sample_entry) (simp_all add: sample_pull_env_def sample_ns_def isBlank_def sample_pulling_def)
  obtain w' where w': "Run_pull sample_pull_env NoConnection sample_pulling = Some w'" "tab (rb_of 0 w') = tab (rb_of 0 sample_pulling)"
    "\<And>acts w''. list_all (calm sample_pull_env) acts \<Longrightarrow> pull_run sample_pull_env acts w' = Some w'' \<Longrightarrow> (\<forall>m. \<forall>b \<in> set (places w''). \<not> entry w'' 0 m 0 b)"
    using unreachable_broker_strands_queue [OF sample_pull_inv s v(1) ne] by blast
  have "(sample_mq 0, 0) \<in> tab (rb_of 0 w')" unfolding w'(2) sample_rb_of by (simp add: sample_rb_def)
  then show ?thesis using w'(1) w'(3) [of "[]" w'] by auto
qed

end
