(* ===== verification/Thread_Pool.thy ===== *)
theory Thread_Pool
  imports Prelude "HOL-Library.Multiset"
begin

text \<open>
  \<open>kpr::ThreadPool\<close> and \<open>ThreadPoolWorker\<close> (\<open>src/src/kpr/ThreadPool.cpp\<close>), the pool that runs the callbacks of
  the remoting client and the requests of the consume services, as a state machine.

  The operations of the pool hold its monitor from beginning to end and are one step each. They touch the workers through the
  monitor of each worker; what a worker can do meanwhile commutes with that, since it needs the pool's monitor to get or give up work.
  A worker runs \<open>Run\<close>; its program counter is at the points where another thread can come in. A worker in
  \<open>Wait\<close> goes on when \<open>m_canWork\<close> is set, a wake-up without it only makes it wait again. Workers and works are numbers. The lists
  \<open>p_submitted\<close>, \<open>p_taken\<close> and \<open>p_done\<close> record what happened: the works \<open>AddWork\<close> accepted, the works \<open>GetWork\<close> handed out, and
  the works whose \<open>Do\<close> returned.
\<close>

section \<open>Workers\<close>

record worker =
  t_canWork :: bool
  t_isWaiting :: bool
  t_stop :: bool
  t_idleTime :: int
  t_idle :: bool

datatype worker_pc =
    WTop         \<comment> \<open>the condition of the outer loop\<close>
  | WEnter       \<comment> \<open>before the monitor, to test \<open>m_canWork\<close>\<close>
  | WWait
  | WGet         \<comment> \<open>the condition of the inner loop\<close>
  | WGot nat
  | WRunning nat
  | WCheck       \<comment> \<open>after the inner loop\<close>
  | WLeave
  | WEnded

definition ThreadPoolWorker_new :: worker where
  "ThreadPoolWorker_new = \<lparr>t_canWork = False, t_isWaiting = False, t_stop = False, t_idleTime = 0, t_idle = True\<rparr>"

definition SetIdle :: "bool \<Rightarrow> worker \<Rightarrow> worker" where
  "SetIdle idle t = t\<lparr>t_idle := idle, t_idleTime := 0\<rparr>"

definition IdleTime :: "int \<Rightarrow> worker \<Rightarrow> int \<times> worker" where
  "IdleTime idleTime t =
     (let time = (if t_idle t then s32 (t_idleTime t + idleTime) else 0) in (time, t\<lparr>t_idleTime := time\<rparr>))"

definition WakeUp :: "worker \<Rightarrow> worker" where
  "WakeUp t = (SetIdle False t)\<lparr>t_canWork := True\<rparr>"

definition Stop :: "worker \<Rightarrow> worker" where
  "Stop t = t\<lparr>t_canWork := True, t_stop := True\<rparr>"

section \<open>The pool\<close>

definition MAX_THREAD_COUNT :: int where "MAX_THREAD_COUNT = 300"
definition MIN_THREAD_COUNT :: int where "MIN_THREAD_COUNT = 5"
definition MAX_IDLE_THREAD_TIME :: int where "MAX_IDLE_THREAD_TIME = 300000"

record pool =
  m_destroy :: bool
  m_minCount :: int
  m_maxCount :: int
  m_maxIdleTime :: int
  m_count :: int
  m_step :: int
  m_lastRemoveIdleThreadsTime :: int
  m_works :: "nat list"
  m_workers :: "nat list"
  p_worker :: "nat \<Rightarrow> worker"
  p_pc :: "nat \<Rightarrow> worker_pc"
  p_next :: nat
  p_submitted :: "nat list"
  p_taken :: "nat list"
  p_done :: "nat list"

definition upd_worker :: "nat \<Rightarrow> (worker \<Rightarrow> worker) \<Rightarrow> pool \<Rightarrow> pool" where
  "upd_worker i f p = p\<lparr>p_worker := (p_worker p)(i := f (p_worker p i))\<rparr>"

definition goto :: "nat \<Rightarrow> worker_pc \<Rightarrow> pool \<Rightarrow> pool" where
  "goto i pc p = p\<lparr>p_pc := (p_pc p)(i := pc)\<rparr>"

text \<open>One turn of the loop of \<open>AddThreads\<close>, which ends when the new worker waits. \<open>starts\<close> tells whether the system makes the
  thread; when it does not, the exception is swallowed.\<close>

definition add_thread :: "bool \<Rightarrow> pool \<Rightarrow> pool" where
  "add_thread starts p =
     (if starts
      then let i = p_next p in
        p\<lparr>p_next := Suc i, p_worker := (p_worker p)(i := ThreadPoolWorker_new\<lparr>t_isWaiting := True\<rparr>), p_pc := (p_pc p)(i := WWait),
          m_workers := m_workers p @ [i], m_count := s32 (m_count p + 1)\<rparr>
      else p)"

definition AddThreads :: "(nat \<Rightarrow> bool) \<Rightarrow> int \<Rightarrow> pool \<Rightarrow> pool" where
  "AddThreads starts n p = fold (\<lambda>i. add_thread (starts i)) [0..<nat n] p"

definition ThreadPool_new :: "(nat \<Rightarrow> bool) \<Rightarrow> int \<Rightarrow> int \<Rightarrow> int \<Rightarrow> int \<Rightarrow> int \<Rightarrow> int \<Rightarrow> pool" where
  "ThreadPool_new starts initCount minCount maxCount step maxIdleTime now =
     (let minC = (if minCount \<le> 0 then MIN_THREAD_COUNT else minCount);
          maxC = (if maxCount < 0 then MAX_THREAD_COUNT else maxCount);
          idle = (if maxIdleTime < 0 then MAX_IDLE_THREAD_TIME else maxIdleTime);
          minC = (if maxC \<noteq> 0 \<and> maxC < minC then MIN_THREAD_COUNT else minC);
          initCount = (if maxC \<noteq> 0 \<and> initCount > maxC \<or> initCount < minC then minC else initCount)
      in AddThreads starts initCount
           \<lparr>m_destroy = False, m_minCount = minC, m_maxCount = maxC, m_maxIdleTime = idle, m_count = 0, m_step = step,
            m_lastRemoveIdleThreadsTime = now, m_works = [], m_workers = [], p_worker = (\<lambda>_. ThreadPoolWorker_new), p_pc = (\<lambda>_. WEnded),
            p_next = 0, p_submitted = [], p_taken = [], p_done = []\<rparr>)"

definition WakeOneThread :: "pool \<Rightarrow> bool \<times> pool" where
  "WakeOneThread p =
     (case find (\<lambda>i. t_idle (p_worker p i)) (m_workers p) of
        Some i \<Rightarrow> (True, upd_worker i WakeUp p)
      | None \<Rightarrow> (False, p))"

definition AddWork :: "(nat \<Rightarrow> bool) \<Rightarrow> nat \<Rightarrow> pool \<Rightarrow> int \<times> pool" where
  "AddWork starts work p =
     (if m_destroy p then (-1, p)
      else
        let p = p\<lparr>m_works := m_works p @ [work], p_submitted := p_submitted p @ [work]\<rparr>;
            (woken, p) = WakeOneThread p
        in if \<not> woken \<and> (m_maxCount p = 0 \<or> m_count p < m_maxCount p)
           then let step = (if 0 < m_maxCount p \<and> s32 (m_count p + m_step p) > m_maxCount p then s32 (m_maxCount p - m_count p) else m_step p)
                in (0, snd (WakeOneThread (AddThreads starts step p)))
           else (0, p))"

definition GetWork :: "pool \<Rightarrow> nat option \<times> pool" where
  "GetWork p =
     (if \<not> m_destroy p \<and> m_works p \<noteq> []
      then (Some (hd (m_works p)), p\<lparr>m_works := tl (m_works p), p_taken := p_taken p @ [hd (m_works p)]\<rparr>)
      else (None, p))"

definition RemoveThread :: "nat \<Rightarrow> pool \<Rightarrow> pool" where
  "RemoveThread i p =
     (if i \<in> set (m_workers p) then p\<lparr>m_workers := remove1 i (m_workers p), m_count := s32 (m_count p - 1)\<rparr> else p)"

fun idle_loop :: "int \<Rightarrow> int \<Rightarrow> nat list \<Rightarrow> pool \<Rightarrow> pool" where
  "idle_loop interval sz [] p = p"
| "idle_loop interval sz (i # is) p =
     (if sz > m_minCount p
      then let (time, t) = IdleTime interval (p_worker p i); p = upd_worker i (\<lambda>_. t) p
           in if time > m_maxIdleTime p then idle_loop interval (s32 (sz - 1)) is (upd_worker i Stop p) else idle_loop interval sz is p
      else p)"

definition RemoveIdleThreads :: "int \<Rightarrow> pool \<Rightarrow> pool" where
  "RemoveIdleThreads now p =
     (if m_maxIdleTime p = 0 then p
      else idle_loop (s32 (u64 (now - m_lastRemoveIdleThreadsTime p))) (s32 (int (length (m_workers p)))) (m_workers p)
             (p\<lparr>m_lastRemoveIdleThreadsTime := now\<rparr>))"

text \<open>\<open>Destroy\<close>: the part under the monitor, and what happens once all workers were joined.\<close>

definition Destroy_begin :: "pool \<Rightarrow> pool" where
  "Destroy_begin p = (if m_destroy p then p else fold (\<lambda>i. upd_worker i Stop) (m_workers p) (p\<lparr>m_destroy := True\<rparr>))"

definition Destroy_end :: "pool \<Rightarrow> pool" where
  "Destroy_end p = p\<lparr>m_works := []\<rparr>"

section \<open>ThreadPoolWorker::Run\<close>

definition worker_step :: "nat \<Rightarrow> pool \<Rightarrow> pool" where
  "worker_step i p =
     (let t = p_worker p i in
      case p_pc p i of
        WTop \<Rightarrow> if t_stop t then goto i WLeave p else goto i WEnter (upd_worker i (SetIdle True) p)
      | WEnter \<Rightarrow>
          if t_canWork t then goto i WGet (upd_worker i (t_canWork_update (\<lambda>_. False)) p)
          else goto i WWait (upd_worker i (t_isWaiting_update (\<lambda>_. True)) p)
      | WWait \<Rightarrow>
          if t_canWork t then goto i WGet (upd_worker i (t_isWaiting_update (\<lambda>_. False) \<circ> t_canWork_update (\<lambda>_. False)) p) else p
      | WGet \<Rightarrow>
          if t_stop t then goto i WCheck p
          else (case GetWork p of (None, p) \<Rightarrow> goto i WCheck p | (Some w, p) \<Rightarrow> goto i (WGot w) p)
      | WGot w \<Rightarrow> goto i (WRunning w) (upd_worker i (SetIdle False) p)
      | WRunning w \<Rightarrow> goto i WGet (p\<lparr>p_done := p_done p @ [w]\<rparr>)
      | WCheck \<Rightarrow> goto i (if t_stop t \<or> m_destroy p then WLeave else WTop) p
      | WLeave \<Rightarrow> goto i WEnded (RemoveThread i p)
      | WEnded \<Rightarrow> p)"

inductive pool_step :: "pool \<Rightarrow> pool \<Rightarrow> bool" where
  add: "pool_step p (snd (AddWork starts w p))"
| idle: "pool_step p (RemoveIdleThreads now p)"
| destroy: "pool_step p (Destroy_begin p)"
| joined: "m_destroy p \<Longrightarrow> m_workers p = [] \<Longrightarrow> pool_step p (Destroy_end p)"
| work: "pool_step p (worker_step i p)"

inductive pool_reachable :: "pool \<Rightarrow> bool" where
  init: "pool_reachable (ThreadPool_new starts initCount minCount maxCount step maxIdleTime now)"
| step: "pool_reachable p \<Longrightarrow> pool_step p q \<Longrightarrow> pool_reachable q"

section \<open>Works\<close>

fun held_work :: "worker_pc \<Rightarrow> nat multiset" where
  "held_work (WGot w) = {#w#}"
| "held_work (WRunning w) = {#w#}"
| "held_work _ = {#}"

definition works_inv :: "pool \<Rightarrow> bool" where
  "works_inv p \<longleftrightarrow> (\<exists>rest. p_submitted p = p_taken p @ rest \<and> (m_works p = rest \<or> m_destroy p \<and> m_works p = [])) \<and>
     (\<forall>i \<ge> p_next p. p_pc p i = WEnded) \<and> mset (p_taken p) = mset (p_done p) + (\<Sum>i<p_next p. held_work (p_pc p i))"

lemma upd_worker_simps [simp]:
  "m_destroy (upd_worker i f p) = m_destroy p" "m_minCount (upd_worker i f p) = m_minCount p" "m_maxCount (upd_worker i f p) = m_maxCount p"
  "m_step (upd_worker i f p) = m_step p" "m_count (upd_worker i f p) = m_count p" "m_works (upd_worker i f p) = m_works p"
  "m_workers (upd_worker i f p) = m_workers p" "p_pc (upd_worker i f p) = p_pc p" "p_next (upd_worker i f p) = p_next p"
  "p_submitted (upd_worker i f p) = p_submitted p" "p_taken (upd_worker i f p) = p_taken p" "p_done (upd_worker i f p) = p_done p"
  "m_maxIdleTime (upd_worker i f p) = m_maxIdleTime p" "p_worker (upd_worker i f p) = (p_worker p)(i := f (p_worker p i))"
  by (simp_all add: upd_worker_def)

lemma goto_simps [simp]:
  "m_destroy (goto i c p) = m_destroy p" "m_minCount (goto i c p) = m_minCount p" "m_maxCount (goto i c p) = m_maxCount p"
  "m_step (goto i c p) = m_step p" "m_count (goto i c p) = m_count p" "m_works (goto i c p) = m_works p"
  "m_workers (goto i c p) = m_workers p" "p_pc (goto i c p) = (p_pc p)(i := c)" "p_next (goto i c p) = p_next p"
  "p_submitted (goto i c p) = p_submitted p" "p_taken (goto i c p) = p_taken p" "p_done (goto i c p) = p_done p" "p_worker (goto i c p) = p_worker p"
  by (simp_all add: goto_def)

text \<open>What two states agree on when only workers' flags changed.\<close>

definition same_pool :: "pool \<Rightarrow> pool \<Rightarrow> bool" where
  "same_pool p q \<longleftrightarrow> m_destroy q = m_destroy p \<and> m_minCount q = m_minCount p \<and> m_maxCount q = m_maxCount p \<and> m_step q = m_step p \<and>
     m_count q = m_count p \<and> m_works q = m_works p \<and> m_workers q = m_workers p \<and> p_pc q = p_pc p \<and> p_next q = p_next p \<and>
     p_submitted q = p_submitted p \<and> p_taken q = p_taken p \<and> p_done q = p_done p"

lemma same_pool_refl [simp]: "same_pool p p"
  by (simp add: same_pool_def)

lemma same_pool_trans: "same_pool p q \<Longrightarrow> same_pool q r \<Longrightarrow> same_pool p r"
  by (simp add: same_pool_def)

lemma same_pool_upd [simp]: "same_pool p (upd_worker i f p)"
  by (simp add: same_pool_def)

lemma same_pool_wake: "same_pool p (snd (WakeOneThread p))"
  by (simp add: WakeOneThread_def split: option.split)

lemma same_pool_idle_loop: "same_pool p (idle_loop interval sz is p)"
proof (induction "is" arbitrary: sz p)
  case (Cons i "is")
  obtain time t where t: "IdleTime interval (p_worker p i) = (time, t)" by (cases "IdleTime interval (p_worker p i)")
  have "same_pool p (idle_loop interval z is (upd_worker i Stop (upd_worker i (\<lambda>_. t) p)))" "same_pool p (idle_loop interval z is (upd_worker i (\<lambda>_. t) p))" for z
    by (rule same_pool_trans [OF same_pool_trans [OF same_pool_upd same_pool_upd] Cons.IH], rule same_pool_trans [OF same_pool_upd Cons.IH])
  then show ?case by (simp add: t Let_def)
qed simp

lemma same_pool_idle: "same_pool p (RemoveIdleThreads now p)"
proof -
  have "same_pool p (p\<lparr>m_lastRemoveIdleThreadsTime := now\<rparr>)" by (simp add: same_pool_def)
  then show ?thesis using same_pool_trans [OF _ same_pool_idle_loop] by (simp add: RemoveIdleThreads_def)
qed

lemma same_pool_stop: "same_pool p (fold (\<lambda>i. upd_worker i Stop) is p)"
proof (induction "is" arbitrary: p)
  case (Cons i "is")
  show ?case using same_pool_trans [OF same_pool_upd Cons.IH] by simp
qed simp

lemma works_inv_same: "same_pool p q \<Longrightarrow> works_inv p \<Longrightarrow> works_inv q"
  by (simp add: works_inv_def same_pool_def)

text \<open>New workers get the next numbers and wait.\<close>

lemma add_threads:
  "\<exists>k \<le> length xs. p_next (fold (\<lambda>i. add_thread (starts i)) xs p) = p_next p + k \<and>
     m_workers (fold (\<lambda>i. add_thread (starts i)) xs p) = m_workers p @ [p_next p..<p_next p + k] \<and>
     p_pc (fold (\<lambda>i. add_thread (starts i)) xs p) = (\<lambda>i. if p_next p \<le> i \<and> i < p_next p + k then WWait else p_pc p i) \<and>
     (m_count p + int k < 2 ^ 31 \<and> 0 \<le> m_count p \<longrightarrow> m_count (fold (\<lambda>i. add_thread (starts i)) xs p) = m_count p + int k)"
proof (induction xs arbitrary: p)
  case (Cons x xs)
  let ?q = "add_thread (starts x) p"
  obtain k where k: "k \<le> length xs" "p_next (fold (\<lambda>i. add_thread (starts i)) xs ?q) = p_next ?q + k"
    "m_workers (fold (\<lambda>i. add_thread (starts i)) xs ?q) = m_workers ?q @ [p_next ?q..<p_next ?q + k]"
    "p_pc (fold (\<lambda>i. add_thread (starts i)) xs ?q) = (\<lambda>i. if p_next ?q \<le> i \<and> i < p_next ?q + k then WWait else p_pc ?q i)"
    "m_count ?q + int k < 2 ^ 31 \<and> 0 \<le> m_count ?q \<longrightarrow> m_count (fold (\<lambda>i. add_thread (starts i)) xs ?q) = m_count ?q + int k"
    using Cons.IH by blast
  show ?case
  proof (cases "starts x")
    case True
    then have q: "p_next ?q = Suc (p_next p)" "m_workers ?q = m_workers p @ [p_next p]" "p_pc ?q = (p_pc p)(p_next p := WWait)"
      "m_count ?q = s32 (m_count p + 1)" by (simp_all add: add_thread_def Let_def)
    have c: "m_count p + int (Suc k) < 2 ^ 31 \<and> 0 \<le> m_count p \<Longrightarrow> m_count ?q = m_count p + 1" by (simp add: q s32_id)
    have "[p_next p..<p_next p + Suc k] = p_next p # [Suc (p_next p)..<Suc (p_next p) + k]" by (simp add: upt_rec)
    then show ?thesis using k c by (intro exI [of _ "Suc k"]) (auto simp: q fun_eq_iff)
  next
    case False
    then have "?q = p" by (simp add: add_thread_def)
    then show ?thesis using k by (intro exI [of _ k]) auto
  qed
qed (auto simp: fun_eq_iff)

lemma add_thread_frame:
  "m_destroy (fold (\<lambda>i. add_thread (starts i)) xs p) = m_destroy p \<and> m_minCount (fold (\<lambda>i. add_thread (starts i)) xs p) = m_minCount p \<and>
   m_maxCount (fold (\<lambda>i. add_thread (starts i)) xs p) = m_maxCount p \<and> m_step (fold (\<lambda>i. add_thread (starts i)) xs p) = m_step p \<and>
   m_works (fold (\<lambda>i. add_thread (starts i)) xs p) = m_works p \<and> p_submitted (fold (\<lambda>i. add_thread (starts i)) xs p) = p_submitted p \<and>
   p_taken (fold (\<lambda>i. add_thread (starts i)) xs p) = p_taken p \<and> p_done (fold (\<lambda>i. add_thread (starts i)) xs p) = p_done p"
  by (induction xs arbitrary: p) (simp_all add: add_thread_def Let_def)

lemma held_extend:
  fixes n m :: nat
  assumes "\<forall>i \<ge> n. pc i = WEnded" "\<forall>i \<ge> n. held_work (pc' i) = {#}" "\<forall>i < n. pc' i = pc i" "n \<le> m"
  shows "(\<Sum>i<m. held_work (pc' i)) = (\<Sum>i<n. held_work (pc i))"
proof -
  have "(\<Sum>i<m. held_work (pc' i)) = (\<Sum>i<n. held_work (pc' i)) + (\<Sum>i\<in>{n..<m}. held_work (pc' i))"
    using assms(4) sum.atLeastLessThan_concat [of 0 n m "\<lambda>i. held_work (pc' i)"] by (simp add: lessThan_atLeast0)
  also have "(\<Sum>i\<in>{n..<m}. held_work (pc' i)) = {#}" using assms(2) by simp
  finally show ?thesis using assms(3) by simp
qed

lemma works_inv_add_threads:
  assumes "works_inv p" shows "works_inv (AddThreads starts n p)"
proof -
  obtain k where k: "p_next (AddThreads starts n p) = p_next p + k"
    "p_pc (AddThreads starts n p) = (\<lambda>i. if p_next p \<le> i \<and> i < p_next p + k then WWait else p_pc p i)"
    using add_threads [where xs = "[0..<nat n]" and starts = starts and p = p] unfolding AddThreads_def by blast
  have ended: "\<forall>i \<ge> p_next p. p_pc p i = WEnded" using assms by (simp add: works_inv_def)
  then have "(\<Sum>i<p_next p + k. held_work (if p_next p \<le> i \<and> i < p_next p + k then WWait else p_pc p i)) = (\<Sum>i<p_next p. held_work (p_pc p i))"
    by (intro held_extend) auto
  then show ?thesis using assms ended add_thread_frame [where xs = "[0..<nat n]" and starts = starts and p = p]
    unfolding works_inv_def k unfolding AddThreads_def by auto
qed

lemma works_inv_AddWork:
  assumes "works_inv p" shows "works_inv (snd (AddWork starts w p))"
proof (cases "m_destroy p")
  case False
  define q where "q = p\<lparr>m_works := m_works p @ [w], p_submitted := p_submitted p @ [w]\<rparr>"
  have "works_inv q" using assms False by (auto simp: works_inv_def q_def)
  then have r: "works_inv (snd (WakeOneThread q))" by (rule works_inv_same [OF same_pool_wake])
  then have "works_inv (snd (WakeOneThread (AddThreads starts n (snd (WakeOneThread q)))))" for n
    by (rule works_inv_same [OF same_pool_wake works_inv_add_threads])
  with r False show ?thesis by (cases "WakeOneThread q") (simp add: AddWork_def q_def [symmetric] Let_def)
qed (simp add: AddWork_def assms)

text \<open>A worker that does not exist does nothing; one that does changes its own share of the works.\<close>

lemma sum_held_upd:
  fixes n :: nat
  assumes "i < n" shows "(\<Sum>j<n. held_work ((pc(i := c)) j)) + held_work (pc i) = (\<Sum>j<n. held_work (pc j)) + held_work c"
proof -
  have "(\<Sum>j<n. held_work (f j)) = held_work (f i) + (\<Sum>j\<in>{..<n} - {i}. held_work (f j))" for f
    using assms by (intro sum.remove) auto
  from this [of "pc(i := c)"] this [of pc] show ?thesis by simp
qed

lemma works_inv_goto:
  assumes "works_inv p" "i < p_next p" "held_work (p_pc p i) = {#}" "held_work c = {#}" "same_pool p q"
  shows "works_inv (goto i c q)"
  using works_inv_same [OF assms(5,1)] sum_held_upd [of i "p_next p" "p_pc p" c] assms by (auto simp: works_inv_def same_pool_def)

lemma works_inv_worker:
  assumes "works_inv p" shows "works_inv (worker_step i p)"
proof (cases "i < p_next p")
  case i: True
  note g = works_inv_goto [OF assms i]
  show ?thesis
  proof (cases "p_pc p i")
    case WGet
    consider "t_stop (p_worker p i) \<or> m_destroy p \<or> m_works p = []" | w ws where "\<not> t_stop (p_worker p i)" "\<not> m_destroy p" "m_works p = w # ws"
      by (cases "m_works p") auto
    then show ?thesis
    proof cases
      case 1
      then show ?thesis using g [of WCheck p] WGet by (auto simp: worker_step_def GetWork_def Let_def)
    next
      case 2
      then have "worker_step i p = goto i (WGot w) (p\<lparr>m_works := ws, p_taken := p_taken p @ [w]\<rparr>)"
        by (simp add: worker_step_def GetWork_def WGet)
      then show ?thesis using assms 2 WGet sum_held_upd [OF i, of "p_pc p" "WGot w"] i by (auto simp: works_inv_def)
    qed
  next
    case (WGot w)
    then show ?thesis using assms i sum_held_upd [OF i, of "p_pc p" "WRunning w"] by (auto simp: works_inv_def worker_step_def)
  next
    case (WRunning w)
    then show ?thesis using assms i sum_held_upd [OF i, of "p_pc p" WGet] by (auto simp: works_inv_def worker_step_def)
  next
    case WLeave
    have "works_inv (RemoveThread i p)" "p_pc (RemoveThread i p) = p_pc p" "p_next (RemoveThread i p) = p_next p"
      using assms by (auto simp: RemoveThread_def works_inv_def)
    then show ?thesis using WLeave i works_inv_goto [of "RemoveThread i p" i WEnded "RemoveThread i p"] by (simp add: worker_step_def)
  qed (use g assms in \<open>auto simp: worker_step_def Let_def\<close>)
next
  case False
  then show ?thesis using assms by (simp add: works_inv_def worker_step_def)
qed

lemma works_inv_reachable: "pool_reachable p \<Longrightarrow> works_inv p"
proof (induction rule: pool_reachable.induct)
  case (init starts initCount minCount maxCount step maxIdleTime now)
  show ?case unfolding ThreadPool_new_def Let_def by (rule works_inv_add_threads) (simp add: works_inv_def)
next
  case (step p q)
  from step.hyps(2) show ?case
  proof cases
    case destroy
    have "works_inv (p\<lparr>m_destroy := True\<rparr>)" using step.IH by (auto simp: works_inv_def)
    then show ?thesis using destroy step.IH works_inv_same [OF same_pool_stop] by (simp add: Destroy_begin_def)
  next
    case joined
    then show ?thesis using step.IH by (auto simp: works_inv_def Destroy_end_def)
  qed (simp_all add: step.IH works_inv_AddWork works_inv_worker works_inv_same [OF same_pool_idle])
qed

text \<open>
  C10. Every work the pool accepted is, until the pool is destroyed, waiting, in the hands of one worker, or done, and each of that exactly
  once; works are handed out in the order in which they were submitted.
\<close>

theorem pool_works_once:
  assumes "pool_reachable p" "\<not> m_destroy p"
  shows "p_submitted p = p_taken p @ m_works p \<and>
    mset (p_submitted p) = mset (p_done p) + (\<Sum>i<p_next p. held_work (p_pc p i)) + mset (m_works p)"
  using works_inv_reachable [OF assms(1)] assms(2) by (auto simp: works_inv_def)


section \<open>Number of threads\<close>

definition pool_limits :: "pool \<Rightarrow> bool" where
  "pool_limits p \<longleftrightarrow> 0 < m_maxCount p \<and> m_maxCount p \<le> 2 ^ 30 \<and> m_minCount p \<le> 2 ^ 30 \<and> m_step p \<le> 2 ^ 30"

definition counts_inv :: "pool \<Rightarrow> bool" where
  "counts_inv p \<longleftrightarrow> distinct (m_workers p) \<and> (\<forall>i \<in> set (m_workers p). i < p_next p) \<and> m_count p = int (length (m_workers p)) \<and>
     m_count p \<le> max (m_maxCount p) (m_minCount p)"

lemma counts_inv_same: "same_pool p q \<Longrightarrow> counts_inv p \<Longrightarrow> counts_inv q"
  by (simp add: counts_inv_def same_pool_def)

lemma counts_inv_add_threads:
  assumes "counts_inv p" "pool_limits p" "m_count p + n \<le> max (m_maxCount p) (m_minCount p) \<or> n \<le> 0"
  shows "counts_inv (AddThreads starts n p)"
proof -
  obtain k where k: "k \<le> nat n" "p_next (AddThreads starts n p) = p_next p + k"
    "m_workers (AddThreads starts n p) = m_workers p @ [p_next p..<p_next p + k]"
    "m_count p + int k < 2 ^ 31 \<and> 0 \<le> m_count p \<longrightarrow> m_count (AddThreads starts n p) = m_count p + int k"
    using add_threads [where xs = "[0..<nat n]" and starts = starts and p = p] unfolding AddThreads_def by auto
  have le: "m_count p + int k \<le> max (m_maxCount p) (m_minCount p)" using assms(1,3) k(1) by (auto simp: counts_inv_def)
  then have "m_count (AddThreads starts n p) = m_count p + int k" using k(4) assms(1,2) by (auto simp: counts_inv_def pool_limits_def)
  moreover have "m_maxCount (AddThreads starts n p) = m_maxCount p" "m_minCount (AddThreads starts n p) = m_minCount p"
    using add_thread_frame [where xs = "[0..<nat n]" and starts = starts and p = p] by (simp_all add: AddThreads_def)
  ultimately show ?thesis using assms(1) k(2,3) le by (auto simp: counts_inv_def)
qed

lemma step_config: "pool_step p q \<Longrightarrow> m_maxCount q = m_maxCount p \<and> m_minCount q = m_minCount p \<and> m_step q = m_step p"
proof (induction rule: pool_step.induct)
  case (add p starts w)
  have f: "m_maxCount (AddThreads starts n r) = m_maxCount r \<and> m_minCount (AddThreads starts n r) = m_minCount r \<and> m_step (AddThreads starts n r) = m_step r"
    for n r using add_thread_frame [where xs = "[0..<nat n]" and starts = starts and p = r] by (simp add: AddThreads_def)
  have w: "m_maxCount (snd (WakeOneThread r)) = m_maxCount r \<and> m_minCount (snd (WakeOneThread r)) = m_minCount r \<and> m_step (snd (WakeOneThread r)) = m_step r"
    for r using same_pool_wake [of r] by (simp add: same_pool_def)
  define q where "q = p\<lparr>m_works := m_works p @ [w], p_submitted := p_submitted p @ [w]\<rparr>"
  obtain b r where br: "WakeOneThread q = (b, r)" by (cases "WakeOneThread q")
  have "m_maxCount r = m_maxCount p" "m_minCount r = m_minCount p" "m_step r = m_step p" using w [of q] unfolding br by (simp_all add: q_def)
  then show ?case by (simp add: AddWork_def q_def [symmetric] br Let_def f w)
next
  case (idle p now)
  then show ?case using same_pool_idle [of p now] by (simp add: same_pool_def)
next
  case (destroy p)
  then show ?case using same_pool_stop [of "p\<lparr>m_destroy := True\<rparr>" "m_workers p"] by (simp add: Destroy_begin_def same_pool_def)
next
  case (work p i)
  then show ?case by (auto simp: worker_step_def GetWork_def RemoveThread_def Let_def split: worker_pc.split)
qed (simp add: Destroy_end_def)

lemma step_limits: "pool_step p q \<Longrightarrow> pool_limits q \<longleftrightarrow> pool_limits p"
  using step_config [of p q] by (simp add: pool_limits_def)

lemma counts_inv_worker:
  assumes "counts_inv p" "pool_limits p" shows "counts_inv (worker_step i p)"
proof -
  have c: "0 \<le> m_count p" "m_count p \<le> 2 ^ 30" using assms by (auto simp: counts_inv_def pool_limits_def)
  have "counts_inv (RemoveThread i p)"
  proof (cases "i \<in> set (m_workers p)")
    case True
    then have l: "int (length (remove1 i (m_workers p))) = m_count p - 1"
    proof -
      have "Suc (length (m_workers p) - 1) = length (m_workers p)" using length_pos_if_in_set [OF True] by (simp only: Suc_pred' [symmetric])
      then show ?thesis using assms(1) True by (simp add: counts_inv_def length_remove1)
    qed
    have "s32 (m_count p - 1) = m_count p - 1" using c by (simp add: s32_id)
    moreover have "j < p_next p" if "j \<in> set (remove1 i (m_workers p))" for j
      using assms(1) notin_set_remove1 [of j "m_workers p" i] that by (auto simp: counts_inv_def)
    ultimately show ?thesis using assms(1) l True by (simp add: RemoveThread_def counts_inv_def)
  qed (simp add: RemoveThread_def assms)
  then show ?thesis using assms(1)
    by (auto simp: worker_step_def counts_inv_def GetWork_def Let_def split: worker_pc.split)
qed

lemma counts_inv_AddWork:
  assumes "counts_inv p" "pool_limits p" shows "counts_inv (snd (AddWork starts w p))"
proof (cases "m_destroy p")
  case False
  define q where "q = p\<lparr>m_works := m_works p @ [w], p_submitted := p_submitted p @ [w]\<rparr>"
  obtain b r where br: "WakeOneThread q = (b, r)" by (cases "WakeOneThread q")
  have sr: "same_pool q r" using same_pool_wake [of q] by (simp add: br)
  have q: "counts_inv q" "pool_limits q" using assms by (simp_all add: counts_inv_def pool_limits_def q_def)
  have r: "counts_inv r" "pool_limits r" using counts_inv_same [OF sr q(1)] q(2) sr by (auto simp: same_pool_def pool_limits_def)
  define step where "step = (if 0 < m_maxCount r \<and> s32 (m_count r + m_step r) > m_maxCount r then s32 (m_maxCount r - m_count r) else m_step r)"
  have "m_count r + step \<le> max (m_maxCount r) (m_minCount r) \<or> step \<le> 0" if "m_count r < m_maxCount r"
  proof (cases "m_step r \<le> 0")
    case True
    then show ?thesis using that r by (auto simp: step_def s32_id counts_inv_def pool_limits_def)
  next
    case False
    then have "s32 (m_count r + m_step r) = m_count r + m_step r" "s32 (m_maxCount r - m_count r) = m_maxCount r - m_count r"
      using that r by (auto intro!: s32_id simp: counts_inv_def pool_limits_def)
    then show ?thesis using r(2) by (auto simp: step_def pool_limits_def)
  qed
  then have "m_count r < m_maxCount r \<Longrightarrow> counts_inv (snd (WakeOneThread (AddThreads starts step r)))"
    by (intro counts_inv_same [OF same_pool_wake counts_inv_add_threads] r) auto
  moreover have "m_maxCount r \<noteq> 0" using r(2) by (simp add: pool_limits_def)
  ultimately show ?thesis using False r(1) by (simp add: AddWork_def q_def [symmetric] br step_def [symmetric] Let_def)
qed (simp add: AddWork_def assms)

lemma counts_inv_reachable: "pool_reachable p \<Longrightarrow> pool_limits p \<Longrightarrow> counts_inv p"
proof (induction rule: pool_reachable.induct)
  case (init starts initCount minCount maxCount step maxIdleTime now)
  define minC where "minC = (let m = (if minCount \<le> 0 then MIN_THREAD_COUNT else minCount); x = (if maxCount < 0 then MAX_THREAD_COUNT else maxCount)
     in if x \<noteq> 0 \<and> x < m then MIN_THREAD_COUNT else m)"
  define maxC where "maxC = (if maxCount < 0 then MAX_THREAD_COUNT else maxCount)"
  define n where "n = (if maxC \<noteq> 0 \<and> initCount > maxC \<or> initCount < minC then minC else initCount)"
  define z where "z = \<lparr>m_destroy = False, m_minCount = minC, m_maxCount = maxC, m_maxIdleTime = (if maxIdleTime < 0 then MAX_IDLE_THREAD_TIME else maxIdleTime),
     m_count = 0, m_step = step, m_lastRemoveIdleThreadsTime = now, m_works = [], m_workers = [], p_worker = (\<lambda>_. ThreadPoolWorker_new),
     p_pc = (\<lambda>_. WEnded), p_next = 0, p_submitted = [], p_taken = [], p_done = []\<rparr>"
  have new: "ThreadPool_new starts initCount minCount maxCount step maxIdleTime now = AddThreads starts n z"
    by (simp add: ThreadPool_new_def Let_def n_def z_def minC_def maxC_def)
  have "pool_limits z" using init add_thread_frame [where xs = "[0..<nat n]" and starts = starts and p = z]
    by (simp add: new AddThreads_def pool_limits_def)
  moreover have "minC > 0" by (auto simp: minC_def MIN_THREAD_COUNT_def Let_def)
  moreover from calculation have "n \<le> max maxC minC" by (auto simp: n_def pool_limits_def z_def)
  ultimately show ?case unfolding new by (intro counts_inv_add_threads) (auto simp: counts_inv_def z_def)
next
  case (step p q)
  then have p: "counts_inv p" "pool_limits p" using step_limits by auto
  from step.hyps(2) show ?case
  proof cases
    case destroy
    have "counts_inv (p\<lparr>m_destroy := True\<rparr>)" using p(1) by (simp add: counts_inv_def)
    then show ?thesis using destroy p counts_inv_same [OF same_pool_stop] by (simp add: Destroy_begin_def)
  next
    case joined
    then show ?thesis using p by (simp add: counts_inv_def Destroy_end_def)
  qed (simp_all add: p counts_inv_AddWork counts_inv_worker counts_inv_same [OF same_pool_idle])
qed

text \<open>
  C39. The counter of the pool is the number of its workers, no worker is listed twice, and there are never more than the larger of the maximum and the minimum
  count. The minimum is the constant five when the caller's minimum exceeds the maximum, so a smaller maximum is not kept.
\<close>

theorem pool_thread_bound:
  assumes "pool_reachable p" "pool_limits p"
  shows "distinct (m_workers p) \<and> m_count p = int (length (m_workers p)) \<and> m_count p \<le> max (m_maxCount p) (m_minCount p)"
  using counts_inv_reachable [OF assms] by (simp add: counts_inv_def)


section \<open>Lost works\<close>

text \<open>Three steps take a worker that found no work back into \<open>Wait\<close>.\<close>

lemma back_to_wait:
  assumes "p_pc p i = WCheck" "\<not> t_stop (p_worker p i)" "\<not> t_canWork (p_worker p i)" "\<not> m_destroy p"
  shows "fold worker_step [i, i, i] p =
    goto i WWait (upd_worker i (t_isWaiting_update (\<lambda>_. True) \<circ> SetIdle True) p)"
  using assms by (simp add: worker_step_def Let_def goto_def upd_worker_def SetIdle_def)

lemma all_back_to_wait:
  assumes "distinct is" "\<not> m_destroy p"
    and "\<forall>i \<in> set is. p_pc p i = WCheck \<and> \<not> t_stop (p_worker p i) \<and> \<not> t_canWork (p_worker p i)"
  shows "let q = fold worker_step (concat (map (\<lambda>i. [i, i, i]) is)) p in
    m_works q = m_works p \<and> p_pc q = (\<lambda>i. if i \<in> set is then WWait else p_pc p i) \<and> (\<forall>i. t_canWork (p_worker q i) = t_canWork (p_worker p i))"
  using assms
proof (induction "is" arbitrary: p)
  case (Cons i "is")
  define r where "r = goto i WWait (upd_worker i (t_isWaiting_update (\<lambda>_. True) \<circ> SetIdle True) p)"
  have "fold worker_step (concat (map (\<lambda>i. [i, i, i]) (i # is))) p = fold worker_step (concat (map (\<lambda>i. [i, i, i]) is)) r"
    using back_to_wait [of p i] Cons.prems by (simp add: r_def)
  moreover have r: "m_works r = m_works p" "p_pc r = (p_pc p)(i := WWait)" "t_canWork (p_worker r j) = t_canWork (p_worker p j)" "m_destroy r = m_destroy p"
    "j \<noteq> i \<Longrightarrow> p_worker r j = p_worker p j" for j by (simp_all add: r_def SetIdle_def)
  moreover have "\<forall>j \<in> set is. p_pc r j = WCheck \<and> \<not> t_stop (p_worker r j) \<and> \<not> t_canWork (p_worker r j)"
    using Cons.prems r(2,5) by auto
  ultimately show ?case using Cons.IH [of r] Cons.prems by (auto simp: Let_def fun_eq_iff)
qed simp

text \<open>
  C29. A submitted work can be left lying. When all workers of a full pool have just found the list of works empty but are not marked idle yet,
  \<open>AddWork\<close> wakes nobody and makes no thread; the workers then go to sleep without looking at the list again. The work is in the list, all workers wait, and
  none of them can do a step until something else is submitted.
\<close>

theorem submitted_work_stranded:
  assumes "pool_reachable p" "pool_limits p" "\<not> m_destroy p" "m_maxCount p \<le> m_count p"
    and "\<forall>i. if i \<in> set (m_workers p) then p_pc p i = WCheck \<and> \<not> t_idle (p_worker p i) \<and> \<not> t_stop (p_worker p i) \<and> \<not> t_canWork (p_worker p i)
             else p_pc p i = WEnded"
  shows "\<exists>is q. q = fold worker_step is (snd (AddWork starts w p)) \<and> fst (AddWork starts w p) = 0 \<and> m_works q = m_works p @ [w] \<and> (\<forall>i. worker_step i q = q)"
proof -
  define a where "a = p\<lparr>m_works := m_works p @ [w], p_submitted := p_submitted p @ [w]\<rparr>"
  have workers: "\<forall>i \<in> set (m_workers p). p_pc p i = WCheck \<and> \<not> t_idle (p_worker p i) \<and> \<not> t_stop (p_worker p i) \<and> \<not> t_canWork (p_worker p i)"
    using assms(5) by (auto split: if_splits)
  then have "find (\<lambda>i. t_idle (p_worker a i)) (m_workers a) = None" by (auto simp: find_None_iff a_def)
  then have "WakeOneThread a = (False, a)" by (simp add: WakeOneThread_def)
  then have add: "AddWork starts w p = (0, a)" using assms(2-4) by (simp add: AddWork_def a_def [symmetric] pool_limits_def) (simp add: a_def)
  define q where "q = fold worker_step (concat (map (\<lambda>i. [i, i, i]) (m_workers p))) a"
  have "distinct (m_workers p)" using counts_inv_reachable [OF assms(1,2)] by (simp add: counts_inv_def)
  then have q: "m_works q = m_works p @ [w]" "p_pc q = (\<lambda>i. if i \<in> set (m_workers p) then WWait else p_pc p i)"
    "t_canWork (p_worker q i) = t_canWork (p_worker p i)" for i
    using all_back_to_wait [of "m_workers p" a] assms(3) workers by (simp_all add: q_def [symmetric] Let_def) (simp_all add: a_def fun_eq_iff)
  have "worker_step i q = q" for i
    using assms(5) [rule_format, of i] q(2,3) by (simp add: worker_step_def Let_def split: if_splits)
  then show ?thesis using q(1) add q_def by auto
qed

text \<open>A pool of one worker that has done one work and found no other.\<close>

definition sample_pool :: pool where
  "sample_pool = fold worker_step [0, 0, 0, 0, 0] (snd (AddWork (\<lambda>_. True) 7 (ThreadPool_new (\<lambda>_. True) 1 1 1 10 300000 0)))"

lemma sample_pool_eq:
  "sample_pool = \<lparr>m_destroy = False, m_minCount = 1, m_maxCount = 1, m_maxIdleTime = 300000, m_count = 1, m_step = 10, m_lastRemoveIdleThreadsTime = 0,
     m_works = [], m_workers = [0],
     p_worker = (\<lambda>_. ThreadPoolWorker_new)(0 := \<lparr>t_canWork = False, t_isWaiting = False, t_stop = False, t_idleTime = 0, t_idle = False\<rparr>),
     p_pc = (\<lambda>_. WEnded)(0 := WCheck), p_next = 1, p_submitted = [7], p_taken = [7], p_done = [7]\<rparr>"
  by (simp add: sample_pool_def ThreadPool_new_def AddThreads_def add_thread_def AddWork_def WakeOneThread_def WakeUp_def SetIdle_def upd_worker_def
      worker_step_def goto_def GetWork_def ThreadPoolWorker_new_def Let_def s32_id)

lemma steps_reachable: "pool_reachable p \<Longrightarrow> pool_reachable (fold worker_step is p)"
  by (induction "is" arbitrary: p) (auto intro: pool_reachable.step pool_step.work)

lemma sample_pool_reachable: "pool_reachable sample_pool"
  unfolding sample_pool_def by (rule steps_reachable, rule pool_reachable.step [OF pool_reachable.init pool_step.add])

theorem pool_works_once_witness: "p_submitted sample_pool = p_taken sample_pool @ m_works sample_pool \<and> p_submitted sample_pool = [7]"
  using pool_works_once [OF sample_pool_reachable] by (simp add: sample_pool_eq)

theorem pool_thread_bound_witness: "m_count sample_pool = int (length (m_workers sample_pool)) \<and> m_count sample_pool \<le> 1"
  using pool_thread_bound [OF sample_pool_reachable] by (simp add: sample_pool_eq pool_limits_def)

theorem submitted_work_stranded_witness:
  "\<exists>is q. q = fold worker_step is (snd (AddWork (\<lambda>_. True) 8 sample_pool)) \<and> m_works q = [8] \<and> (\<forall>i. worker_step i q = q)"
proof -
  have "pool_limits sample_pool" "\<not> m_destroy sample_pool" "m_maxCount sample_pool \<le> m_count sample_pool"
    "\<forall>i. if i \<in> set (m_workers sample_pool) then p_pc sample_pool i = WCheck \<and> \<not> t_idle (p_worker sample_pool i) \<and> \<not> t_stop (p_worker sample_pool i)
       \<and> \<not> t_canWork (p_worker sample_pool i) else p_pc sample_pool i = WEnded" "m_works sample_pool = []"
    by (simp_all add: sample_pool_eq pool_limits_def)
  with submitted_work_stranded [OF sample_pool_reachable, of "\<lambda>_. True" 8] show ?thesis by auto
qed

end
