(* ===== verification/Timer_Thread.thy ===== *)
theory Timer_Thread
  imports Thread_Pool
begin

text \<open>
  \<open>kpr::TimerThread\<close> (\<open>src/src/kpr/TimerThread.cpp\<close>) and \<open>kpr::TimerTaskManager\<close> (\<open>src/src/kpr/TimerTaskManager.cpp\<close>,
  \<open>.h\<close>). Delayed pulls, delayed consume requests and the scheduled tasks of the client factory are timers. A timer does not know when it
  was registered: it counts the time between the checks the thread makes. All operations hold the mutex of the table and are single steps; the handlers
  run after the check and outside the mutex, here \<open>tm_fired\<close> records them. Handlers are numbers.
\<close>

section \<open>TimerThread\<close>

record TimerInfo =
  ti_id :: int
  ti_elapse :: int
  ti_outTime :: int
  ti_persistent :: bool
  ti_handler :: nat

record timers =
  m_timers :: "(int, TimerInfo) smap"
  s_nextTimerID :: int
  m_checkInterval :: int
  tm_lastCheckTime :: int
  tm_fired :: "(int \<times> nat) list"

definition TimerThread_new :: "int \<Rightarrow> int \<Rightarrow> int \<Rightarrow> timers" where
  "TimerThread_new nextTimerID checklnterval now =
     \<lparr>m_timers = [], s_nextTimerID = nextTimerID, m_checkInterval = checklnterval, tm_lastCheckTime = now, tm_fired = []\<rparr>"

definition GetNextTimerID :: "timers \<Rightarrow> int \<times> timers" where
  "GetNextTimerID s = (let i = u32 (s_nextTimerID s + 1) in (i, s\<lparr>s_nextTimerID := i\<rparr>))"

definition RegisterTimer :: "int \<Rightarrow> int \<Rightarrow> nat \<Rightarrow> bool \<Rightarrow> timers \<Rightarrow> int \<times> timers" where
  "RegisterTimer initialDelay elapse handler persistent s =
     (let (i, s) = GetNextTimerID s;
          info = \<lparr>ti_id = i, ti_elapse = elapse, ti_outTime = s32 (0 - initialDelay), ti_persistent = persistent, ti_handler = handler\<rparr>
      in (i, s\<lparr>m_timers := map_put ll_lt i info (m_timers s)\<rparr>))"

definition UnRegisterTimer :: "int \<Rightarrow> timers \<Rightarrow> bool \<times> timers" where
  "UnRegisterTimer i s =
     (case map_find ll_lt i (m_timers s) of
        Some _ \<Rightarrow> (True, s\<lparr>m_timers := map_erase ll_lt i (m_timers s)\<rparr>)
      | None \<Rightarrow> (False, s))"

definition ResetTimer :: "int \<Rightarrow> timers \<Rightarrow> bool \<times> timers" where
  "ResetTimer i s =
     (case map_find ll_lt i (m_timers s) of
        Some t \<Rightarrow> (True, s\<lparr>m_timers := map_put ll_lt i (t\<lparr>ti_outTime := (if ti_persistent t then s32 (ti_elapse t) else 0)\<rparr>) (m_timers s)\<rparr>)
      | None \<Rightarrow> (False, s))"

text \<open>The loop of \<open>CheckTimeOut\<close>: the timers that are due, and the table afterwards.\<close>

fun check_loop :: "int \<Rightarrow> (int, TimerInfo) smap \<Rightarrow> TimerInfo list \<times> (int, TimerInfo) smap" where
  "check_loop elapse [] = ([], [])"
| "check_loop elapse ((i, t) # ts) =
     (let t = t\<lparr>ti_outTime := s32 (ti_outTime t + elapse)\<rparr>; (due, ts) = check_loop elapse ts
      in if ti_outTime t \<ge> s32 (ti_elapse t)
         then (t # due, if ti_persistent t then (i, t\<lparr>ti_outTime := 0\<rparr>) # ts else ts)
         else (due, (i, t) # ts))"

definition CheckTimeOut :: "int \<Rightarrow> timers \<Rightarrow> TimerInfo list \<times> timers" where
  "CheckTimeOut elapse s = (let (due, ts) = check_loop elapse (m_timers s) in (due, s\<lparr>m_timers := ts\<rparr>))"

text \<open>A turn of \<open>Run\<close> at the time \<open>now\<close>, and how long it sleeps when its handlers are through at \<open>checkEnd\<close>.\<close>

definition Run_check :: "int \<Rightarrow> timers \<Rightarrow> timers" where
  "Run_check now s =
     (let (due, s) = CheckTimeOut (u32 (now - tm_lastCheckTime s)) s
      in s\<lparr>tm_lastCheckTime := now, tm_fired := tm_fired s @ map (\<lambda>t. (ti_id t, ti_handler t)) due\<rparr>)"

definition Run_sleep :: "int \<Rightarrow> int \<Rightarrow> timers \<Rightarrow> int" where
  "Run_sleep currentCheckTime checkEndTime s =
     (let sleepTime = s32 (m_checkInterval s + currentCheckTime - checkEndTime)
      in if sleepTime < 0 then 0 else if sleepTime > m_checkInterval s then m_checkInterval s else sleepTime)"

text \<open>The counter is static: \<open>Elsewhere\<close> is a registration in another timer thread.\<close>

datatype timer_action = Check int | Register int int nat bool | UnRegister int | Reset int | Elsewhere

fun timer_step :: "timer_action \<Rightarrow> timers \<Rightarrow> timers" where
  "timer_step (Check now) s = Run_check now s"
| "timer_step (Register initialDelay elapse handler persistent) s = snd (RegisterTimer initialDelay elapse handler persistent s)"
| "timer_step (UnRegister i) s = snd (UnRegisterTimer i s)"
| "timer_step (Reset i) s = snd (ResetTimer i s)"
| "timer_step Elsewhere s = snd (GetNextTimerID s)"

section \<open>TimerTaskManager\<close>

record taskmanager =
  m_timerThread :: timers
  m_pThreadPool :: pool
  m_timerTasks :: "(int, nat) smap"
  m_isProcessing :: "nat \<Rightarrow> bool"

text \<open>The timer is registered before the task is entered, under different mutexes.\<close>

definition task_timer :: "int \<Rightarrow> int \<Rightarrow> taskmanager \<Rightarrow> int \<times> taskmanager" where
  "task_timer initialDelay elapse m =
     (let (i, tt) = RegisterTimer initialDelay elapse 0 True (m_timerThread m) in (i, m\<lparr>m_timerThread := tt\<rparr>))"

definition task_enter :: "int \<Rightarrow> nat \<Rightarrow> taskmanager \<Rightarrow> taskmanager" where
  "task_enter i task m = m\<lparr>m_timerTasks := map_put ll_lt i task (m_timerTasks m)\<rparr>"

definition task_UnRegisterTimer :: "int \<Rightarrow> taskmanager \<Rightarrow> bool \<times> taskmanager" where
  "task_UnRegisterTimer i m =
     (let (ret, tt) = UnRegisterTimer i (m_timerThread m)
      in (ret, m\<lparr>m_timerThread := tt, m_timerTasks := map_erase ll_lt i (m_timerTasks m)\<rparr>))"

definition task_ResetTimer :: "int \<Rightarrow> taskmanager \<Rightarrow> bool \<times> taskmanager" where
  "task_ResetTimer i m = (let (ret, tt) = ResetTimer i (m_timerThread m) in (ret, m\<lparr>m_timerThread := tt\<rparr>))"

definition OnTimeOut :: "(nat \<Rightarrow> bool) \<Rightarrow> int \<Rightarrow> taskmanager \<Rightarrow> taskmanager" where
  "OnTimeOut starts i m =
     (case map_find ll_lt i (m_timerTasks m) of
        Some task \<Rightarrow>
          if \<not> m_isProcessing m task
          then m\<lparr>m_isProcessing := (m_isProcessing m)(task := True), m_pThreadPool := snd (AddWork starts task (m_pThreadPool m))\<rparr>
          else m
      | None \<Rightarrow> m)"

text \<open>\<open>TimerTask::Do\<close> clears the mark when \<open>DoTask\<close> returned; it is the end of the step in which a worker finishes a work.\<close>

definition task_worker_step :: "nat \<Rightarrow> taskmanager \<Rightarrow> taskmanager" where
  "task_worker_step w m =
     (let m' = m\<lparr>m_pThreadPool := worker_step w (m_pThreadPool m)\<rparr>
      in case p_pc (m_pThreadPool m) w of WRunning task \<Rightarrow> m'\<lparr>m_isProcessing := (m_isProcessing m)(task := False)\<rparr> | _ \<Rightarrow> m')"

inductive task_step :: "taskmanager \<Rightarrow> taskmanager \<Rightarrow> bool" where
  timer: "task_step m (snd (task_timer d e m))"
| enter: "task_step m (task_enter i task m)"
| unregister: "task_step m (snd (task_UnRegisterTimer i m))"
| reset: "task_step m (snd (task_ResetTimer i m))"
| check: "task_step m (m\<lparr>m_timerThread := Run_check now (m_timerThread m)\<rparr>)"
| fire: "task_step m (OnTimeOut starts i m)"
| work: "task_step m (task_worker_step w m)"
| idle: "task_step m (m\<lparr>m_pThreadPool := RemoveIdleThreads now (m_pThreadPool m)\<rparr>)"
| close: "task_step m (m\<lparr>m_pThreadPool := Destroy_begin (m_pThreadPool m)\<rparr>)"

inductive task_reachable :: "taskmanager \<Rightarrow> bool" where
  init: "task_reachable \<lparr>m_timerThread = TimerThread_new n interval now, m_pThreadPool = ThreadPool_new starts 3 3 maxThreadCount 10 300000 now,
           m_timerTasks = [], m_isProcessing = (\<lambda>_. False)\<rparr>"
| step: "task_reachable m \<Longrightarrow> task_step m m' \<Longrightarrow> task_reachable m'"

section \<open>One-shot timers\<close>

definition timers_wf :: "timers \<Rightarrow> bool" where
  "timers_wf s \<longleftrightarrow> map_wf ll_lt any_key (m_timers s) \<and> 0 \<le> s_nextTimerID s \<and> (\<forall>(i, t) \<in> set (m_timers s). ti_id t = i \<and> i \<le> s_nextTimerID s)"

fun registers :: "timer_action list \<Rightarrow> nat" where
  "registers [] = 0"
| "registers (Register _ _ _ _ # as) = Suc (registers as)"
| "registers (Elsewhere # as) = Suc (registers as)"
| "registers (_ # as) = registers as"

text \<open>Actions that do not concern timer \<open>i\<close>, with checks at increasing times that are not four million seconds apart.\<close>

fun clock_ok :: "int \<Rightarrow> int \<Rightarrow> timer_action list \<Rightarrow> bool" where
  "clock_ok i lst [] = True"
| "clock_ok i lst (Check now # as) \<longleftrightarrow> lst \<le> now \<and> now - lst < 2 ^ 32 \<and> clock_ok i now as"
| "clock_ok i lst (UnRegister j # as) \<longleftrightarrow> j \<noteq> i \<and> clock_ok i lst as"
| "clock_ok i lst (Reset j # as) \<longleftrightarrow> j \<noteq> i \<and> clock_ok i lst as"
| "clock_ok i lst (Register _ _ _ _ # as) = clock_ok i lst as"
| "clock_ok i lst (Elsewhere # as) = clock_ok i lst as"

definition counted :: "int \<Rightarrow> TimerInfo \<Rightarrow> TimerInfo" where
  "counted e t = t\<lparr>ti_outTime := s32 (ti_outTime t + e)\<rparr>"

definition due :: "TimerInfo \<Rightarrow> bool" where
  "due t \<longleftrightarrow> ti_outTime t \<ge> s32 (ti_elapse t)"

lemma check_loop_spec:
  assumes "map_wf ll_lt any_key ts" "\<forall>(i, t) \<in> set ts. ti_id t = i"
  shows "map_wf ll_lt any_key (snd (check_loop e ts))" "fst ` set (snd (check_loop e ts)) \<subseteq> fst ` set ts"
    "\<forall>(i, t) \<in> set (snd (check_loop e ts)). ti_id t = i"
    "map_of (snd (check_loop e ts)) i = Option.bind (map_of ts i) (\<lambda>t. if \<not> due (counted e t) then Some (counted e t)
       else if ti_persistent t then Some (t\<lparr>ti_outTime := 0\<rparr>) else None)"
    "count_list (map ti_id (fst (check_loop e ts))) i = (case map_of ts i of None \<Rightarrow> 0 | Some t \<Rightarrow> if due (counted e t) then 1 else 0)"
proof -
  have "map_wf ll_lt any_key (snd (check_loop e ts)) \<and> fst ` set (snd (check_loop e ts)) \<subseteq> fst ` set ts \<and>
    (\<forall>(i, t) \<in> set (snd (check_loop e ts)). ti_id t = i) \<and>
    map_of (snd (check_loop e ts)) i = Option.bind (map_of ts i) (\<lambda>t. if \<not> due (counted e t) then Some (counted e t)
       else if ti_persistent t then Some (t\<lparr>ti_outTime := 0\<rparr>) else None) \<and>
    count_list (map ti_id (fst (check_loop e ts))) i = (case map_of ts i of None \<Rightarrow> 0 | Some t \<Rightarrow> if due (counted e t) then 1 else 0)"
    using assms
  proof (induction ts)
    case (Cons x ts)
    obtain j t where x: "x = (j, t)" by (cases x)
    obtain d r where dr: "check_loop e ts = (d, r)" by (cases "check_loop e ts")
    have less: "\<forall>k \<in> fst ` set ts. j < k" and wf: "map_wf ll_lt any_key ts" and ids: "\<forall>(i, t) \<in> set ts. ti_id t = i" "ti_id t = j"
      using Cons.prems x by auto
    note IH = Cons.IH [OF wf ids(1), unfolded dr, simplified]
    have j: "map_of ts j = None" using less by (intro map_of_eq_None) auto
    have lr: "\<forall>k \<in> fst ` set r. j < k" using IH less by blast
    have "map_of r j = None" using lr by (intro map_of_eq_None) auto
    moreover have "count_list (map ti_id d) j = 0 \<or> i \<noteq> j" using IH j by auto
    note jr = calculation this
    have "check_loop e (x # ts) = (if due (counted e t) then (counted e t # d, if ti_persistent t then (j, t\<lparr>ti_outTime := 0\<rparr>) # r else r) else (d, (j, counted e t) # r))"
      by (simp add: x dr due_def counted_def Let_def)
    then show ?case using IH ids jr lr j by (auto simp: x counted_def image_iff)
  qed simp
  then show "map_wf ll_lt any_key (snd (check_loop e ts))" "fst ` set (snd (check_loop e ts)) \<subseteq> fst ` set ts"
    "\<forall>(i, t) \<in> set (snd (check_loop e ts)). ti_id t = i"
    "map_of (snd (check_loop e ts)) i = Option.bind (map_of ts i) (\<lambda>t. if \<not> due (counted e t) then Some (counted e t)
       else if ti_persistent t then Some (t\<lparr>ti_outTime := 0\<rparr>) else None)"
    "count_list (map ti_id (fst (check_loop e ts))) i = (case map_of ts i of None \<Rightarrow> 0 | Some t \<Rightarrow> if due (counted e t) then 1 else 0)"
    by blast+
qed

definition fired :: "int \<Rightarrow> timers \<Rightarrow> nat" where
  "fired i s = count_list (map fst (tm_fired s)) i"

lemma Run_check_spec:
  assumes "timers_wf s"
  shows "timers_wf (Run_check now s)" "s_nextTimerID (Run_check now s) = s_nextTimerID s" "tm_lastCheckTime (Run_check now s) = now"
    "map_of (m_timers (Run_check now s)) i = Option.bind (map_of (m_timers s) i) (\<lambda>t. if \<not> due (counted (u32 (now - tm_lastCheckTime s)) t)
       then Some (counted (u32 (now - tm_lastCheckTime s)) t) else if ti_persistent t then Some (t\<lparr>ti_outTime := 0\<rparr>) else None)"
    "fired i (Run_check now s) = fired i s + (case map_of (m_timers s) i of None \<Rightarrow> 0 | Some t \<Rightarrow> if due (counted (u32 (now - tm_lastCheckTime s)) t) then 1 else 0)"
proof -
  let ?e = "u32 (now - tm_lastCheckTime s)"
  obtain d r where dr: "check_loop ?e (m_timers s) = (d, r)" by (cases "check_loop ?e (m_timers s)")
  have wf: "map_wf ll_lt any_key (m_timers s)" "\<forall>(i, t) \<in> set (m_timers s). ti_id t = i" using assms by (auto simp: timers_wf_def)
  have run: "Run_check now s = s\<lparr>m_timers := r, tm_lastCheckTime := now, tm_fired := tm_fired s @ map (\<lambda>t. (ti_id t, ti_handler t)) d\<rparr>"
    by (simp add: Run_check_def CheckTimeOut_def dr)
  note c = check_loop_spec [OF wf, of ?e, unfolded dr, simplified]
  have keys: "j \<le> s_nextTimerID s" if "j \<in> fst ` set (m_timers s)" for j using that assms by (auto simp: timers_wf_def)
  then have "j \<le> s_nextTimerID s" if "(j, t) \<in> set r" for j t using c(2) that by force
  then show "timers_wf (Run_check now s)" using c(1,3) assms by (auto simp: run timers_wf_def)
  show "s_nextTimerID (Run_check now s) = s_nextTimerID s" "tm_lastCheckTime (Run_check now s) = now" by (simp_all add: run)
  show "map_of (m_timers (Run_check now s)) i = Option.bind (map_of (m_timers s) i) (\<lambda>t. if \<not> due (counted ?e t)
       then Some (counted ?e t) else if ti_persistent t then Some (t\<lparr>ti_outTime := 0\<rparr>) else None)" using c(4) by (simp add: run)
  show "fired i (Run_check now s) = fired i s + (case map_of (m_timers s) i of None \<Rightarrow> 0 | Some t \<Rightarrow> if due (counted ?e t) then 1 else 0)"
    using c(5) by (simp add: run fired_def comp_def)
qed

lemma other_timer_spec:
  assumes "timers_wf s" "clock_ok i (tm_lastCheckTime s) (a # as)" "\<nexists>now. a = Check now" "s_nextTimerID s + int (registers [a]) < 2 ^ 32" "i \<le> s_nextTimerID s"
  shows "timers_wf (timer_step a s)" "s_nextTimerID (timer_step a s) = s_nextTimerID s + int (registers [a])"
    "tm_lastCheckTime (timer_step a s) = tm_lastCheckTime s" "map_of (m_timers (timer_step a s)) i = map_of (m_timers s) i" "fired i (timer_step a s) = fired i s"
proof -
  have wf: "map_wf ll_lt any_key (m_timers s)" and ids: "\<forall>(i, t) \<in> set (m_timers s). ti_id t = i \<and> i \<le> s_nextTimerID s" "0 \<le> s_nextTimerID s"
    using assms(1) by (auto simp: timers_wf_def)
  have put: "set (map_put ll_lt j t (m_timers s)) = insert (j, t) {x \<in> set (m_timers s). fst x \<noteq> j}" "map_wf ll_lt any_key (map_put ll_lt j t (m_timers s))"
    "map_of (map_put ll_lt j t (m_timers s)) = (map_of (m_timers s))(j \<mapsto> t)" for j t
    by (simp_all add: ll.put_set [OF wf] ll.put_wf [OF wf] ll.put_map_of [OF wf])
  have erase: "set (map_erase ll_lt j (m_timers s)) \<subseteq> set (m_timers s)" "map_wf ll_lt any_key (map_erase ll_lt j (m_timers s))"
    "map_of (map_erase ll_lt j (m_timers s)) = (map_of (m_timers s))(j := None)" for j
    by (simp_all add: ll.erase_subset ll.erase_wf [OF wf] ll.erase_map_of [OF wf])
  have "timers_wf (timer_step a s) \<and> s_nextTimerID (timer_step a s) = s_nextTimerID s + int (registers [a]) \<and>
    tm_lastCheckTime (timer_step a s) = tm_lastCheckTime s \<and> map_of (m_timers (timer_step a s)) i = map_of (m_timers s) i \<and> fired i (timer_step a s) = fired i s"
  proof (cases a)
    case (Register d e h b)
    then have "u32 (s_nextTimerID s + 1) = s_nextTimerID s + 1" using assms(4) ids(2) by (simp add: u32_def take_bit_int_eq_self)
    then show ?thesis using ids assms(5) by (auto simp: Register RegisterTimer_def GetNextTimerID_def Let_def timers_wf_def put fired_def)
  next
    case Elsewhere
    then have "u32 (s_nextTimerID s + 1) = s_nextTimerID s + 1" using assms(4) ids(2) by (simp add: u32_def take_bit_int_eq_self)
    then show ?thesis using assms(1) ids by (auto simp: Elsewhere GetNextTimerID_def Let_def timers_wf_def fired_def)
  next
    case (UnRegister j)
    then show ?thesis using assms(1,2) erase [of j] by (auto simp: UnRegisterTimer_def timers_wf_def fired_def split: option.split)
  next
    case (Reset j)
    then show ?thesis using assms(1,2) ll.find_Some_iff [OF wf, of j]
      by (auto simp: ResetTimer_def timers_wf_def fired_def put split: option.split)
  qed (use assms(3) in blast)
  then show "timers_wf (timer_step a s)" "s_nextTimerID (timer_step a s) = s_nextTimerID s + int (registers [a])"
    "tm_lastCheckTime (timer_step a s) = tm_lastCheckTime s" "map_of (m_timers (timer_step a s)) i = map_of (m_timers s) i" "fired i (timer_step a s) = fired i s"
    by blast+
qed


lemma clock_ok_rest: "clock_ok i (tm_lastCheckTime s) (a # as) \<Longrightarrow> timers_wf s \<Longrightarrow> clock_ok i (tm_lastCheckTime (timer_step a s)) as"
  by (cases a) (auto simp: Run_check_spec RegisterTimer_def GetNextTimerID_def UnRegisterTimer_def ResetTimer_def Let_def split: option.split)

lemma registers_Cons: "registers (a # as) = registers [a] + registers as"
  by (cases a) simp_all

lemma timer_step_spec:
  assumes "timers_wf s" "clock_ok i (tm_lastCheckTime s) (a # as)" "s_nextTimerID s + int (registers (a # as)) < 2 ^ 32" "i \<le> s_nextTimerID s"
  shows "timers_wf (timer_step a s)" "clock_ok i (tm_lastCheckTime (timer_step a s)) as" "s_nextTimerID (timer_step a s) + int (registers as) < 2 ^ 32"
    "i \<le> s_nextTimerID (timer_step a s)" "map_of (m_timers s) i = None \<Longrightarrow> map_of (m_timers (timer_step a s)) i = None \<and> fired i (timer_step a s) = fired i s"
    "tm_lastCheckTime s \<le> tm_lastCheckTime (timer_step a s)"
proof -
  show "clock_ok i (tm_lastCheckTime (timer_step a s)) as" by (rule clock_ok_rest [OF assms(2,1)])
  have r: "s_nextTimerID s + int (registers [a]) < 2 ^ 32" using assms(3) registers_Cons [of a as] by simp
  have "timers_wf (timer_step a s) \<and> s_nextTimerID (timer_step a s) = s_nextTimerID s + int (registers [a]) \<and>
    (map_of (m_timers s) i = None \<longrightarrow> map_of (m_timers (timer_step a s)) i = None \<and> fired i (timer_step a s) = fired i s) \<and>
    tm_lastCheckTime s \<le> tm_lastCheckTime (timer_step a s)"
  proof (cases "\<exists>now. a = Check now")
    case True
    then show ?thesis using assms(1,2) by (auto simp: Run_check_spec)
  next
    case False
    show ?thesis using other_timer_spec [OF assms(1,2) False r assms(4)] by simp
  qed
  then show "timers_wf (timer_step a s)" "s_nextTimerID (timer_step a s) + int (registers as) < 2 ^ 32" "i \<le> s_nextTimerID (timer_step a s)"
    "map_of (m_timers s) i = None \<Longrightarrow> map_of (m_timers (timer_step a s)) i = None \<and> fired i (timer_step a s) = fired i s"
    "tm_lastCheckTime s \<le> tm_lastCheckTime (timer_step a s)"
    using assms(3,4) registers_Cons [of a as] by auto
qed

lemma gone_timer:
  assumes "timers_wf s" "clock_ok i (tm_lastCheckTime s) as" "s_nextTimerID s + int (registers as) < 2 ^ 32" "i \<le> s_nextTimerID s" "map_of (m_timers s) i = None"
  shows "map_of (m_timers (fold timer_step as s)) i = None \<and> fired i (fold timer_step as s) = fired i s"
  using assms
proof (induction as arbitrary: s)
  case (Cons a as)
  note a = timer_step_spec [OF Cons.prems(1-4)]
  show ?case using Cons.IH [OF a(1-4)] a(5) [OF Cons.prems(5)] by simp
qed simp

lemma last_check_mono:
  assumes "timers_wf s" "clock_ok i (tm_lastCheckTime s) as" "s_nextTimerID s + int (registers as) < 2 ^ 32" "i \<le> s_nextTimerID s"
  shows "tm_lastCheckTime s \<le> tm_lastCheckTime (fold timer_step as s)"
  using assms
proof (induction as arbitrary: s)
  case (Cons a as)
  note a = timer_step_spec [OF Cons.prems(1-4)]
  show ?case using Cons.IH [OF a(1-4)] a(6) by simp
qed simp

text \<open>The timer has counted \<open>o\<close> so far and is due when it has counted \<open>d\<close>.\<close>

lemma one_shot_pending:
  assumes "timers_wf s" "clock_ok i (tm_lastCheckTime s) as" "s_nextTimerID s + int (registers as) < 2 ^ 32" "map_of (m_timers s) i = Some t"
    and "\<not> ti_persistent t" "0 \<le> ti_elapse t" "ti_elapse t < 2 ^ 31" "- (2 ^ 31) \<le> ti_outTime t" "ti_outTime t < ti_elapse t"
    and "ti_outTime t + (tm_lastCheckTime (fold timer_step as s) - tm_lastCheckTime s) < 2 ^ 31"
  shows "fired i (fold timer_step as s) = fired i s + (if ti_elapse t \<le> ti_outTime t + (tm_lastCheckTime (fold timer_step as s) - tm_lastCheckTime s) then 1 else 0)
    \<and> (map_of (m_timers (fold timer_step as s)) i = None \<longleftrightarrow> ti_elapse t \<le> ti_outTime t + (tm_lastCheckTime (fold timer_step as s) - tm_lastCheckTime s))"
  using assms
proof (induction as arbitrary: s t)
  case (Cons a as)
  have i: "i \<le> s_nextTimerID s" using Cons.prems(1,4) by (auto simp: timers_wf_def dest: map_of_SomeD)
  note a = timer_step_spec [OF Cons.prems(1-3) i]
  let ?s = "timer_step a s" and ?f = "fold timer_step (a # as) s"
  have mono: "tm_lastCheckTime ?s \<le> tm_lastCheckTime ?f" using last_check_mono [OF a(1-4)] by simp
  show ?case
  proof (cases "\<exists>now. a = Check now")
    case True
    then obtain now where now: "a = Check now" by blast
    define e where "e = now - tm_lastCheckTime s"
    have l: "tm_lastCheckTime ?s = now" using Run_check_spec(3) [OF Cons.prems(1)] by (simp add: now)
    have e: "0 \<le> e" "u32 (now - tm_lastCheckTime s) = e" using Cons.prems(2) by (simp_all add: now e_def u32_def take_bit_int_eq_self)
    have cnt: "s32 (ti_outTime t + e) = ti_outTime t + e" "s32 (ti_elapse t) = ti_elapse t"
      using Cons.prems(6-10) e(1) mono l by (auto intro!: s32_id simp: e_def)
    have d: "due (counted e t) \<longleftrightarrow> ti_elapse t \<le> ti_outTime t + e" by (simp add: due_def counted_def cnt)
    note r = Run_check_spec(4) [OF Cons.prems(1), of now i, unfolded e(2) Cons.prems(4), simplified]
      Run_check_spec(5) [OF Cons.prems(1), of i now, unfolded e(2) Cons.prems(4), simplified]
    show ?thesis
    proof (cases "due (counted e t)")
      case True
      then have "map_of (m_timers ?s) i = None" "fired i ?s = fired i s + 1" using r Cons.prems(5) by (simp_all add: now)
      then show ?thesis using gone_timer [OF a(1-4)] True d mono l by (simp add: e_def)
    next
      case False
      then have "map_of (m_timers ?s) i = Some (counted e t)" "fired i ?s = fired i s" using r by (simp_all add: now)
      moreover have "ti_outTime (counted e t) = ti_outTime t + e" "ti_elapse (counted e t) = ti_elapse t" "ti_persistent (counted e t) = ti_persistent t"
        by (simp_all add: counted_def cnt)
      moreover from this have "\<not> ti_persistent (counted e t)" "0 \<le> ti_elapse (counted e t)" "ti_elapse (counted e t) < 2 ^ 31"
        "- (2 ^ 31) \<le> ti_outTime (counted e t)" "ti_outTime (counted e t) < ti_elapse (counted e t)"
        "ti_outTime (counted e t) + (tm_lastCheckTime (fold timer_step as ?s) - tm_lastCheckTime ?s) < 2 ^ 31"
        using False d Cons.prems(5-10) e(1) l by (auto simp: e_def)
      ultimately show ?thesis using Cons.IH [OF a(1-3), of "counted e t"] l by (simp add: e_def)
    qed
  next
    case False
    have "s_nextTimerID s + int (registers [a]) < 2 ^ 32" using Cons.prems(3) registers_Cons [of a as] by simp
    note o = other_timer_spec [OF Cons.prems(1,2) False this i]
    have "map_of (m_timers ?s) i = Some t" using o(4) Cons.prems(4) by simp
    then show ?thesis using Cons.IH [OF a(1-3) _ Cons.prems(5-9)] Cons.prems(10) o(3,5) by simp
  qed
qed simp

text \<open>
  C11. A one-shot timer fires exactly once, and it has fired exactly when the time between the last check before its registration and the last check so
  far has reached its delay, whatever other timers are registered, removed or reset meanwhile. The time is counted from the check before the
  registration: a timer registered at the time \<open>r\<close> may fire at any check, also at once, when the check before lies far enough back.
\<close>

theorem one_shot_fires_once:
  assumes "timers_wf s" "s_nextTimerID s + 1 + int (registers as) < 2 ^ 32" "0 < elapse" "elapse < 2 ^ 31" "0 \<le> initialDelay" "initialDelay < 2 ^ 31"
    and "RegisterTimer initialDelay elapse handler False s = (i, s')" "clock_ok i (tm_lastCheckTime s) as" "s'' = fold timer_step as s'"
    and "tm_lastCheckTime s'' - tm_lastCheckTime s < 2 ^ 31"
  shows "fired i s'' = fired i s + (if initialDelay + elapse \<le> tm_lastCheckTime s'' - tm_lastCheckTime s then 1 else 0)"
proof -
  have nx: "0 \<le> s_nextTimerID s" using assms(1) by (simp add: timers_wf_def)
  then have i: "i = s_nextTimerID s + 1" using assms(2,7)
    by (auto simp: RegisterTimer_def GetNextTimerID_def Let_def u32_def take_bit_int_eq_self)
  have step: "timer_step (Register initialDelay elapse handler False) s = s'" using assms(7) by simp
  let ?t = "\<lparr>ti_id = i, ti_elapse = elapse, ti_outTime = s32 (0 - initialDelay), ti_persistent = False, ti_handler = handler\<rparr>"
  have s': "m_timers s' = map_put ll_lt i ?t (m_timers s)" "tm_fired s' = tm_fired s" "tm_lastCheckTime s' = tm_lastCheckTime s" "s_nextTimerID s' = i"
    using assms(7) by (auto simp: RegisterTimer_def GetNextTimerID_def Let_def)
  have o: "s32 (0 - initialDelay) = - initialDelay" using assms(5,6) by (simp add: s32_id)
  have "clock_ok 0 (tm_lastCheckTime s) [Register initialDelay elapse handler False]" by simp
  from other_timer_spec(1) [OF assms(1) this] nx assms(2) have wf: "timers_wf s'" unfolding step by simp
  have m: "map_of (m_timers s') i = Some ?t" using ll.put_map_of [of "m_timers s" i ?t] assms(1) s'(1) by (simp add: timers_wf_def)
  have "fired i s'' = fired i s' + (if elapse \<le> - initialDelay + (tm_lastCheckTime s'' - tm_lastCheckTime s') then 1 else 0)"
    using one_shot_pending [OF wf _ _ m, of as] assms o i s'(3,4) by simp
  then show ?thesis using s'(2,3) by (simp add: fired_def)
qed


definition sample_timers :: timers where
  "sample_timers = TimerThread_new 0 1000 5000"

theorem one_shot_fires_once_witness:
  "fired 1 (fold timer_step [Check 6000, Register 0 100 8 True, Check 7000, Check 8000] (snd (RegisterTimer 0 1500 7 False sample_timers))) = 1"
proof -
  let ?as = "[Check 6000, Register 0 100 8 True, Check 7000, Check 8000]"
  have r: "RegisterTimer 0 1500 7 False sample_timers = (1, snd (RegisterTimer 0 1500 7 False sample_timers))" by code_simp
  have l: "tm_lastCheckTime (fold timer_step ?as (snd (RegisterTimer 0 1500 7 False sample_timers))) = 8000" "tm_lastCheckTime sample_timers = 5000"
    "s_nextTimerID sample_timers = 0" "fired 1 sample_timers = 0" by code_simp+
  have "timers_wf sample_timers" by (simp add: timers_wf_def sample_timers_def TimerThread_new_def)
  from one_shot_fires_once [OF this _ _ _ _ _ r, of ?as] l show ?thesis by simp
qed

section \<open>Scheduled tasks\<close>

text \<open>The tasks that are in the pool: waiting there, or in the hands of a worker.\<close>

definition outstanding :: "pool \<Rightarrow> nat multiset" where
  "outstanding p = mset (m_works p) + (\<Sum>i<p_next p. held_work (p_pc p i))"

lemma outstanding_done: "works_inv p \<Longrightarrow> outstanding p + mset (p_done p) = mset (m_works p) + mset (p_taken p)"
  by (simp add: works_inv_def outstanding_def)

lemma outstanding_same: "same_pool p q \<Longrightarrow> outstanding q = outstanding p"
  by (simp add: outstanding_def same_pool_def)

lemma mset_balance:
  fixes a b c c' e x :: "nat multiset"
  assumes "a + c = x" "b + c' = x + e" "c' = c" shows "b = a + e"
proof -
  have "b + c = (a + e) + c" using assms by (simp add: ac_simps)
  then show ?thesis by simp
qed

lemma outstanding_AddWork:
  assumes "works_inv p" shows "outstanding (snd (AddWork starts w p)) = (if m_destroy p then outstanding p else add_mset w (outstanding p))"
proof (cases "m_destroy p")
  case False
  define q where "q = p\<lparr>m_works := m_works p @ [w], p_submitted := p_submitted p @ [w]\<rparr>"
  have fw: "m_works (snd (WakeOneThread r)) = m_works r" "p_taken (snd (WakeOneThread r)) = p_taken r" "p_done (snd (WakeOneThread r)) = p_done r" for r
    using same_pool_wake [of r] by (simp_all add: same_pool_def)
  have fa: "m_works (AddThreads starts n r) = m_works r" "p_taken (AddThreads starts n r) = p_taken r" "p_done (AddThreads starts n r) = p_done r" for n r
    using add_thread_frame [where xs = "[0..<nat n]" and starts = starts and p = r] by (simp_all add: AddThreads_def)
  obtain b r where br: "WakeOneThread q = (b, r)" by (cases "WakeOneThread q")
  have "m_works r = m_works p @ [w]" "p_taken r = p_taken p" "p_done r = p_done p" using fw [of q] unfolding br by (simp_all add: q_def)
  then have "m_works (snd (AddWork starts w p)) = m_works p @ [w]" "p_taken (snd (AddWork starts w p)) = p_taken p" "p_done (snd (AddWork starts w p)) = p_done p"
    using False by (simp_all add: AddWork_def q_def [symmetric] br Let_def fw fa)
  then show ?thesis using mset_balance [OF outstanding_done [OF assms], of "outstanding (snd (AddWork starts w p))" _ "{#w#}"]
      outstanding_done [OF works_inv_AddWork [OF assms, of starts w]] False by simp
qed (simp add: AddWork_def)

lemma outstanding_worker:
  assumes "works_inv p"
  shows "outstanding p = outstanding (worker_step i p) + (case p_pc p i of WRunning w \<Rightarrow> {#w#} | _ \<Rightarrow> {#})"
proof -
  have "mset (m_works (worker_step i p)) + mset (p_taken (worker_step i p)) = mset (m_works p) + mset (p_taken p) \<and>
    mset (p_done (worker_step i p)) = mset (p_done p) + (case p_pc p i of WRunning w \<Rightarrow> {#w#} | _ \<Rightarrow> {#})"
    by (cases "m_works p") (auto simp: worker_step_def GetWork_def RemoveThread_def Let_def split: worker_pc.split)
  then have *: "mset (m_works (worker_step i p)) + mset (p_taken (worker_step i p)) = mset (m_works p) + mset (p_taken p)"
    "mset (p_done (worker_step i p)) = mset (p_done p) + (case p_pc p i of WRunning w \<Rightarrow> {#w#} | _ \<Rightarrow> {#})" by blast+
  define c where "c = (case p_pc p i of WRunning w \<Rightarrow> {#w#} | _ \<Rightarrow> {#})"
  have "outstanding (worker_step i p) + c + mset (p_done p) = outstanding p + mset (p_done p)"
    using outstanding_done [OF assms] outstanding_done [OF works_inv_worker [OF assms, of i]] * unfolding c_def [symmetric] by (simp add: ac_simps)
  then show ?thesis unfolding c_def [symmetric] by simp
qed

lemma task_pool_reachable: "task_reachable m \<Longrightarrow> pool_reachable (m_pThreadPool m)"
proof (induction rule: task_reachable.induct)
  case (step m m')
  from step.hyps(2) have "pool_step (m_pThreadPool m) (m_pThreadPool m') \<or> m_pThreadPool m' = m_pThreadPool m"
    by cases (auto simp: task_timer_def task_enter_def task_UnRegisterTimer_def task_ResetTimer_def OnTimeOut_def task_worker_step_def Let_def
        intro: pool_step.intros split: prod.splits option.split worker_pc.split)
  then show ?case using step.IH by (auto intro: pool_reachable.step)
qed (simp add: pool_reachable.init)

text \<open>
  C30. A scheduled task is never in the pool twice: however timers fire and workers run, each task is waiting or running at most
  once, and only while it is marked as being processed.
\<close>

theorem task_not_queued_twice:
  assumes "task_reachable m"
  shows "count (outstanding (m_pThreadPool m)) task \<le> (if m_isProcessing m task then 1 else 0)"
  using assms
proof (induction arbitrary: task rule: task_reachable.induct)
  case (init n interval now starts maxThreadCount)
  have "outstanding (ThreadPool_new starts 3 3 maxThreadCount 10 300000 now) + mset [] = mset [] + mset []"
    using outstanding_done [OF works_inv_reachable [OF pool_reachable.init [of starts 3 3 maxThreadCount 10 300000 now]]]
      add_thread_frame [where starts = starts] by (simp add: ThreadPool_new_def AddThreads_def Let_def)
  then show ?case by simp
next
  case (step m m')
  have inv: "works_inv (m_pThreadPool m)" by (rule works_inv_reachable [OF task_pool_reachable [OF step.hyps(1)]])
  from step.hyps(2) show ?case
  proof cases
    case (fire starts i)
    then show ?thesis using step.IH [of task] outstanding_AddWork [OF inv, of starts]
      by (auto simp: OnTimeOut_def split: option.splits if_splits)
  next
    case (work w)
    then show ?thesis using step.IH [of task] outstanding_worker [OF inv, of w]
      by (auto simp: task_worker_step_def Let_def split: worker_pc.splits if_splits)
  next
    case (close)
    have "outstanding (Destroy_begin (m_pThreadPool m)) = outstanding (m_pThreadPool m)"
      using outstanding_same [OF same_pool_stop [of "(m_pThreadPool m)\<lparr>m_destroy := True\<rparr>" "m_workers (m_pThreadPool m)"]]
      by (simp add: Destroy_begin_def outstanding_def)
    then show ?thesis using close step.IH [of task] by simp
  qed (use step.IH [of task] in \<open>simp_all add: task_timer_def task_enter_def task_UnRegisterTimer_def task_ResetTimer_def outstanding_same [OF same_pool_idle]
        split: prod.splits if_splits\<close>)
qed


definition sample_manager :: taskmanager where
  "sample_manager = OnTimeOut (\<lambda>_. True) 1 (OnTimeOut (\<lambda>_. True) 1 (task_enter 1 4 (snd (task_timer 0 100
     \<lparr>m_timerThread = TimerThread_new 0 1000 0, m_pThreadPool = ThreadPool_new (\<lambda>_. True) 3 3 5 10 300000 0, m_timerTasks = [],
      m_isProcessing = (\<lambda>_. False)\<rparr>))))"

theorem task_not_queued_twice_witness: "count (outstanding (m_pThreadPool sample_manager)) 4 \<le> 1 \<and> m_works (m_pThreadPool sample_manager) = [4]"
proof -
  have "task_reachable sample_manager" unfolding sample_manager_def
    by (intro task_reachable.step [OF _ task_step.fire] task_reachable.step [OF _ task_step.enter] task_reachable.step [OF _ task_step.timer]
        task_reachable.init)
  moreover have "m_isProcessing sample_manager 4" "m_works (m_pThreadPool sample_manager) = [4]" by code_simp+
  ultimately show ?thesis using task_not_queued_twice [of sample_manager 4] by simp
qed

end
