(* ===== verification/Client_Life.thy ===== *)
theory Client_Life
  imports Pull_Path Timer_Thread
begin

text \<open>
  Starting and shutting down: \<open>MQClientManager\<close> (\<open>src/src/MQClientManager.cpp\<close>), \<open>MQClientFactory::start\<close> and
  \<open>shutdown\<close>, \<open>DefaultMQProducerImpl::start\<close> and \<open>shutdown\<close>, and the same of the two consumers with their \<open>checkConfig\<close> and
  \<open>copySubscription\<close>. The manager keeps one factory per client id, a text made of the address and the instance name, and every factory has an inner
  producer that it starts and shuts down itself.

  Here a factory counts by its service state and its tables; producers and consumers are numbered objects with their own service state, the objects
  the tables point to. The calls are those of an application thread. \<open>y_boots\<close> tells whether the threads of a factory can be started and its
  name server can be found; when they cannot, \<open>MQClientFactory::start\<close> ends with an exception.
\<close>

section \<open>State\<close>

record ClientConfig =
  m_clientIP :: string
  m_instanceName :: string

datatype listener = OrderlyListener | ConcurrentlyListener | OtherListener

record consumer_config =
  g_consumerGroup :: string
  g_messageModel :: int
  g_hasStrategy :: bool
  g_consumeFromWhere :: int
  g_messageListener :: "listener option"
  g_consumeThreadMin :: int
  g_consumeThreadMax :: int
  g_consumeConcurrentlyMaxSpan :: int
  g_pullThresholdForQueue :: int
  g_pullInterval :: int
  g_consumeMessageBatchMaxSize :: int
  g_pullBatchSize :: int
  g_subscription :: "(string, string) smap"
  g_registerTopics :: "string list"

record producer_client =
  q_state :: ServiceState
  q_config :: ClientConfig
  q_producerGroup :: string
  q_createTopicKey :: string
  q_factory :: "nat option"
  q_publishTopics :: "string list"

record 's consumer_client =
  z_kind :: rb_kind
  z_state :: ServiceState
  z_config :: ClientConfig
  z_conf :: consumer_config
  z_factory :: "nat option"
  z_rebalance :: "'s rebalance"

record 's life =
  m_factoryTable :: "(string, nat) smap"
  y_next :: nat
  y_factory :: "nat \<Rightarrow> 's factory"
  y_inner :: "nat \<Rightarrow> nat"
  y_nextProducer :: nat
  y_producers :: "nat \<Rightarrow> producer_client"
  y_consumers :: "nat \<Rightarrow> 's consumer_client"

record life_env =
  y_pid :: string
  y_boots :: bool
  y_junk :: int

definition CLIENT_INNER_PRODUCER_GROUP :: string where "CLIENT_INNER_PRODUCER_GROUP = ''CLIENT_INNER_PRODUCER''"
definition DEFAULT_CONSUMER_GROUP :: string where "DEFAULT_CONSUMER_GROUP = ''DEFAULT_CONSUMER''"

section \<open>ClientConfig and MQClientManager\<close>

definition buildMQClientId :: "ClientConfig \<Rightarrow> string" where
  "buildMQClientId c = m_clientIP c @ ''@'' @ m_instanceName c"

definition changeInstanceNameToPID :: "string \<Rightarrow> ClientConfig \<Rightarrow> ClientConfig" where
  "changeInstanceNameToPID pid c = (if m_instanceName c = ''DEFAULT'' then c\<lparr>m_instanceName := pid\<rparr> else c)"

definition DefaultMQProducer_new :: "string \<Rightarrow> ClientConfig \<Rightarrow> producer_client" where
  "DefaultMQProducer_new grp c = \<lparr>q_state = CREATE_JUST, q_config = c, q_producerGroup = grp, q_createTopicKey = DEFAULT_TOPIC, q_factory = None, q_publishTopics = []\<rparr>"

text \<open>The constructor of \<open>MQClientFactory\<close> makes the inner producer and gives it the configuration of the client that asked for the factory.\<close>

definition MQClientFactory_new :: "nat \<Rightarrow> ClientConfig \<Rightarrow> string \<Rightarrow> 's life \<Rightarrow> 's life" where
  "MQClientFactory_new i c clientId w =
     w\<lparr>y_factory := (y_factory w)(i := (y_factory w i)\<lparr>f_serviceState := CREATE_JUST, f_clientId := clientId, m_producerTable := [], m_consumerTable := [],
         m_adminExtTable := [], m_topicRouteTable := [], m_brokerAddrTable := []\<rparr>),
       y_inner := (y_inner w)(i := y_nextProducer w),
       y_producers := (y_producers w)(y_nextProducer w := DefaultMQProducer_new CLIENT_INNER_PRODUCER_GROUP c),
       y_nextProducer := Suc (y_nextProducer w)\<rparr>"

definition getAndCreateMQClientFactory :: "ClientConfig \<Rightarrow> 's life \<Rightarrow> nat \<times> 's life" where
  "getAndCreateMQClientFactory c w =
     (let clientId = buildMQClientId c in
      case map_find str_lt clientId (m_factoryTable w) of
        Some i \<Rightarrow> (i, w)
      | None \<Rightarrow>
          let i = y_next w; w = MQClientFactory_new i c clientId (w\<lparr>y_next := Suc i\<rparr>)
          in (i, w\<lparr>m_factoryTable := map_put str_lt clientId i (m_factoryTable w)\<rparr>))"

definition removeClientFactory :: "string \<Rightarrow> 's life \<Rightarrow> 's life" where
  "removeClientFactory clientId w = w\<lparr>m_factoryTable := map_erase str_lt clientId (m_factoryTable w)\<rparr>"

definition set_factory :: "nat \<Rightarrow> 's factory \<Rightarrow> 's life \<Rightarrow> 's life" where
  "set_factory i f w = w\<lparr>y_factory := (y_factory w)(i := f)\<rparr>"

definition set_producer :: "nat \<Rightarrow> producer_client \<Rightarrow> 's life \<Rightarrow> 's life" where
  "set_producer a p w = w\<lparr>y_producers := (y_producers w)(a := p)\<rparr>"

definition set_consumer :: "nat \<Rightarrow> 's consumer_client \<Rightarrow> 's life \<Rightarrow> 's life" where
  "set_consumer a c w = w\<lparr>y_consumers := (y_consumers w)(a := c)\<rparr>"

section \<open>Producers\<close>

text \<open>The branch \<open>CREATE_JUST\<close> of \<open>start\<close> up to the start of the factory: its number, or the exception.\<close>

definition producer_begin :: "life_env \<Rightarrow> nat \<Rightarrow> 's life \<Rightarrow> (mq_exception + nat) \<times> 's life" where
  "producer_begin env a w =
     (let p = (y_producers w a)\<lparr>q_state := START_FAILED\<rparr>;
          isClientInner = (q_producerGroup p = CLIENT_INNER_PRODUCER_GROUP);
          p = (if isClientInner then p\<lparr>q_config := changeInstanceNameToPID (y_pid env) (q_config p)\<rparr> else p);
          (i, w) = getAndCreateMQClientFactory (q_config p) (set_producer a p w);
          p = (y_producers w a)\<lparr>q_factory := Some i\<rparr>;
          (registerOK, f) = registerProducer (q_producerGroup p) (Some a) (y_factory w i);
          w = set_factory i f w
      in if \<not> registerOK \<and> \<not> isClientInner
         then (Inl (MQClientException (''The producer group['' @ q_producerGroup p @ ''] has been created before, specify another name please.'') (-1)),
               set_producer a (p\<lparr>q_state := CREATE_JUST\<rparr>) w)
         else (Inr i, set_producer a (p\<lparr>q_publishTopics := set_put str_lt (q_createTopicKey p) (q_publishTopics p)\<rparr>) w))"

definition set_running :: "nat \<Rightarrow> 's life \<Rightarrow> 's life" where
  "set_running a w = set_producer a ((y_producers w a)\<lparr>q_state := RUNNING\<rparr>) w"

definition producer_started_once :: mq_exception where
  "producer_started_once = MQClientException ''The producer service state not OK, maybe started once, '' (-1)"

text \<open>\<open>start(false)\<close>, as the factory calls it for its inner producer.\<close>

definition inner_start :: "life_env \<Rightarrow> nat \<Rightarrow> 's life \<Rightarrow> mq_exception option \<times> 's life" where
  "inner_start env a w =
     (if q_state (y_producers w a) = CREATE_JUST
      then (case producer_begin env a w of (Inl e, w) \<Rightarrow> (Some e, w) | (Inr i, w) \<Rightarrow> (None, set_running a w))
      else (Some producer_started_once, w))"

section \<open>MQClientFactory\<close>

definition factory_failed :: mq_exception where
  "factory_failed = MQClientException ''The Factory object start failed'' (-1)"

definition factory_start :: "life_env \<Rightarrow> nat \<Rightarrow> 's life \<Rightarrow> mq_exception option \<times> 's life" where
  "factory_start env i w =
     (case f_serviceState (y_factory w i) of
        CREATE_JUST \<Rightarrow>
          let w = set_factory i ((y_factory w i)\<lparr>f_serviceState := START_FAILED\<rparr>) w in
          if \<not> y_boots env then (Some factory_failed, w)
          else (case inner_start env (y_inner w i) w of
                  (Some e, w) \<Rightarrow> (Some e, w)
                | (None, w) \<Rightarrow> (None, set_factory i ((y_factory w i)\<lparr>f_serviceState := RUNNING\<rparr>) w))
      | RUNNING \<Rightarrow> (None, w)
      | SHUTDOWN_ALREADY \<Rightarrow> (None, w)
      | START_FAILED \<Rightarrow> (Some factory_failed, w))"

definition producer_unregister :: "nat \<Rightarrow> 's life \<Rightarrow> 's life" where
  "producer_unregister a w =
     (case q_factory (y_producers w a) of None \<Rightarrow> w
      | Some i \<Rightarrow> set_factory i (snd (unregisterProducer True (q_producerGroup (y_producers w a)) (y_factory w i))) w)"

definition inner_shutdown :: "nat \<Rightarrow> 's life \<Rightarrow> 's life" where
  "inner_shutdown a w =
     (if q_state (y_producers w a) = RUNNING
      then let w = producer_unregister a w in set_producer a ((y_producers w a)\<lparr>q_state := SHUTDOWN_ALREADY\<rparr>) w
      else w)"

definition factory_shutdown :: "nat \<Rightarrow> 's life \<Rightarrow> 's life" where
  "factory_shutdown i w =
     (let f = y_factory w i in
      if m_consumerTable f \<noteq> [] \<or> m_adminExtTable f \<noteq> [] \<or> length (m_producerTable f) > 1 then w
      else if f_serviceState f = RUNNING
      then let w = removeClientFactory (f_clientId f) (inner_shutdown (y_inner w i) w)
           in set_factory i ((y_factory w i)\<lparr>f_serviceState := SHUTDOWN_ALREADY\<rparr>) w
      else w)"

definition producer_start :: "life_env \<Rightarrow> nat \<Rightarrow> 's life \<Rightarrow> mq_exception option \<times> 's life" where
  "producer_start env a w =
     (if q_state (y_producers w a) = CREATE_JUST
      then (case producer_begin env a w of
              (Inl e, w) \<Rightarrow> (Some e, w)
            | (Inr i, w) \<Rightarrow> (case factory_start env i w of (Some e, w) \<Rightarrow> (Some e, w) | (None, w) \<Rightarrow> (None, set_running a w)))
      else (Some producer_started_once, w))"

definition producer_shutdown :: "nat \<Rightarrow> 's life \<Rightarrow> 's life" where
  "producer_shutdown a w =
     (if q_state (y_producers w a) = RUNNING
      then let w = producer_unregister a w;
               w = (case q_factory (y_producers w a) of None \<Rightarrow> w | Some i \<Rightarrow> factory_shutdown i w)
           in set_producer a ((y_producers w a)\<lparr>q_state := SHUTDOWN_ALREADY\<rparr>) w
      else w)"

section \<open>Consumers\<close>

definition client_exception :: "string \<Rightarrow> mq_exception" where
  "client_exception msg = MQClientException msg (-1)"

text \<open>The enumerations are compared as numbers: \<open>BROADCASTING\<close> is 0 and \<open>CLUSTERING\<close> 1, \<open>CONSUME_FROM_LAST_OFFSET\<close> is 0 and \<open>CONSUME_FROM_TIMESTAMP\<close> 2.\<close>

definition pull_checkConfig :: "consumer_config \<Rightarrow> mq_exception option" where
  "pull_checkConfig c =
     (case checkGroup (g_consumerGroup c) of Some e \<Rightarrow> Some e
      | None \<Rightarrow>
          if g_consumerGroup c = DEFAULT_CONSUMER_GROUP
          then Some (client_exception (''consumerGroup can not equal '' @ DEFAULT_CONSUMER_GROUP @ '', please specify another one.''))
          else if g_messageModel c \<noteq> 0 \<and> g_messageModel c \<noteq> 1 then Some (client_exception ''messageModel is valid '')
          else if \<not> g_hasStrategy c then Some (client_exception ''allocateMessageQueueStrategy is null'')
          else None)"

definition push_checkConfig :: "consumer_config \<Rightarrow> mq_exception option" where
  "push_checkConfig c =
     (case checkGroup (g_consumerGroup c) of Some e \<Rightarrow> Some e
      | None \<Rightarrow>
          if g_consumerGroup c = DEFAULT_CONSUMER_GROUP
          then Some (client_exception (''consumerGroup can not equal '' @ DEFAULT_CONSUMER_GROUP @ '', please specify another one.''))
          else if g_messageModel c \<noteq> 0 \<and> g_messageModel c \<noteq> 1 then Some (client_exception ''messageModel is invalid '')
          else if \<not> g_hasStrategy c then Some (client_exception ''allocateMessageQueueStrategy is null'')
          else if g_consumeFromWhere c < 0 \<or> g_consumeFromWhere c > 2 then Some (client_exception ''consumeFromWhere is invalid'')
          else if g_messageListener c = None then Some (client_exception ''messageListener is null'')
          else if g_messageListener c = Some OtherListener
          then Some (client_exception ''messageListener must be instanceof MessageListenerOrderly or MessageListenerConcurrently'')
          else if g_consumeThreadMin c < 1 \<or> g_consumeThreadMin c > 1000 \<or> g_consumeThreadMin c > g_consumeThreadMax c
          then Some (client_exception ''consumeThreadMin Out of range [1, 1000]'')
          else if g_consumeThreadMax c < 1 \<or> g_consumeThreadMax c > 1000 then Some (client_exception ''consumeThreadMax Out of range [1, 1000]'')
          else if g_consumeConcurrentlyMaxSpan c < 1 \<or> g_consumeConcurrentlyMaxSpan c > 65535
          then Some (client_exception ''consumeConcurrentlyMaxSpan Out of range [1, 65535]'')
          else if g_pullThresholdForQueue c < 1 \<or> g_pullThresholdForQueue c > 65535
          then Some (client_exception ''pullThresholdForQueue Out of range [1, 65535]'')
          else if g_pullInterval c < 0 \<or> g_pullInterval c > 65535 then Some (client_exception ''pullInterval Out of range [0, 65535]'')
          else if g_consumeMessageBatchMaxSize c < 1 \<or> g_consumeMessageBatchMaxSize c > 1024
          then Some (client_exception ''consumeMessageBatchMaxSize Out of range [1, 1024]'')
          else if g_pullBatchSize c < 1 \<or> g_pullBatchSize c > 1024 then Some (client_exception ''pullBatchSize Out of range [1, 1024]'')
          else None)"

definition checkConfig :: "rb_kind \<Rightarrow> consumer_config \<Rightarrow> mq_exception option" where
  "checkConfig kind c = (case kind of Push \<Rightarrow> push_checkConfig c | Pull \<Rightarrow> pull_checkConfig c)"

text \<open>The loop of \<open>copySubscription\<close> stops at the first exception and keeps what it has subscribed. \<open>Split\<close> of a text at two bars returns, so \<open>None\<close> does not occur.\<close>

fun subscribe_all :: "int \<Rightarrow> (string \<times> string) list \<Rightarrow> 's rebalance \<Rightarrow> bool \<times> 's rebalance" where
  "subscribe_all junk [] rb = (True, rb)"
| "subscribe_all junk ((topic, expr) # subs) rb =
     (case buildSubscriptionData junk topic expr of
        Some (Inr sd) \<Rightarrow> subscribe_all junk subs (rb_subscribe topic sd rb)
      | _ \<Rightarrow> (False, rb))"

definition copySubscription :: "int \<Rightarrow> rb_kind \<Rightarrow> consumer_config \<Rightarrow> 's rebalance \<Rightarrow> bool \<times> 's rebalance" where
  "copySubscription junk kind c rb =
     subscribe_all junk
       (case kind of
          Push \<Rightarrow> g_subscription c @ (if g_messageModel c = 1 then [(getRetryTopic (g_consumerGroup c), SUB_ALL)] else [])
        | Pull \<Rightarrow> map (\<lambda>topic. (topic, SUB_ALL)) (g_registerTopics c)) rb"

definition consumer_started_once :: mq_exception where
  "consumer_started_once = client_exception ''The PullConsumer service state not OK, maybe started once, ''"

text \<open>The branch \<open>CREATE_JUST\<close> of \<open>start\<close> up to the start of the factory.\<close>

definition consumer_begin :: "life_env \<Rightarrow> nat \<Rightarrow> 's life \<Rightarrow> (mq_exception + nat) \<times> 's life" where
  "consumer_begin env a w =
     (let c = (y_consumers w a)\<lparr>z_state := START_FAILED\<rparr>; conf = z_conf c in
      case checkConfig (z_kind c) conf of Some e \<Rightarrow> (Inl e, set_consumer a c w)
      | None \<Rightarrow>
          let (copied, rb) = copySubscription (y_junk env) (z_kind c) conf (z_rebalance c); c = c\<lparr>z_rebalance := rb\<rparr> in
          if \<not> copied then (Inl (client_exception ''subscription exception''), set_consumer a c w)
          else
            let c = (if g_messageModel conf = 1 then c\<lparr>z_config := changeInstanceNameToPID (y_pid env) (z_config c)\<rparr> else c);
                (i, w) = getAndCreateMQClientFactory (z_config c) w;
                c = c\<lparr>z_factory := Some i, z_rebalance := rb\<lparr>m_consumerGroup := g_consumerGroup conf,
                       m_messageModel := (if g_messageModel conf = 1 then CLUSTERING else BROADCASTING)\<rparr>\<rparr>;
                (registerOK, f) = registerConsumer (g_consumerGroup conf) (Some a) (y_factory w i);
                w = set_factory i f w
            in if \<not> registerOK
               then (Inl (client_exception (''The consumer group['' @ g_consumerGroup conf @ ''] has been created before, specify another name please.'')),
                     set_consumer a (c\<lparr>z_state := CREATE_JUST\<rparr>) w)
               else (Inr i, set_consumer a c w))"

definition consumer_start :: "life_env \<Rightarrow> nat \<Rightarrow> 's life \<Rightarrow> mq_exception option \<times> 's life" where
  "consumer_start env a w =
     (if z_state (y_consumers w a) = CREATE_JUST
      then (case consumer_begin env a w of
              (Inl e, w) \<Rightarrow> (Some e, w)
            | (Inr i, w) \<Rightarrow>
                (case factory_start env i w of
                   (Some e, w) \<Rightarrow> (Some e, w)
                 | (None, w) \<Rightarrow> (None, set_consumer a ((y_consumers w a)\<lparr>z_state := RUNNING\<rparr>) w)))
      else (Some consumer_started_once, w))"

definition consumer_shutdown :: "nat \<Rightarrow> 's life \<Rightarrow> 's life" where
  "consumer_shutdown a w =
     (if z_state (y_consumers w a) = RUNNING
      then let w = (case z_factory (y_consumers w a) of None \<Rightarrow> w
                    | Some i \<Rightarrow> factory_shutdown i
                        (set_factory i (snd (unregisterConsumer True (g_consumerGroup (z_conf (y_consumers w a))) (y_factory w i))) w))
           in set_consumer a ((y_consumers w a)\<lparr>z_state := SHUTDOWN_ALREADY\<rparr>) w
      else w)"

text \<open>What an application can do. A client is made with a new number.\<close>

datatype life_action = NewProducer string ClientConfig | StartProducer nat | ShutdownProducer nat | StartConsumer nat | ShutdownConsumer nat

fun life_step :: "life_env \<Rightarrow> life_action \<Rightarrow> 's life \<Rightarrow> 's life" where
  "life_step env (NewProducer grp c) w =
     w\<lparr>y_producers := (y_producers w)(y_nextProducer w := DefaultMQProducer_new grp c), y_nextProducer := Suc (y_nextProducer w)\<rparr>"
| "life_step env (StartProducer a) w = snd (producer_start env a w)"
| "life_step env (ShutdownProducer a) w = producer_shutdown a w"
| "life_step env (StartConsumer a) w = snd (consumer_start env a w)"
| "life_step env (ShutdownConsumer a) w = consumer_shutdown a w"

text \<open>The environment may differ from call to call.\<close>

fun life_run :: "(life_env \<times> life_action) list \<Rightarrow> 's life \<Rightarrow> 's life" where
  "life_run [] w = w"
| "life_run ((env, act) # acts) w = life_run acts (life_step env act w)"

definition fresh_life :: "'s life \<Rightarrow> bool" where
  "fresh_life w \<longleftrightarrow> m_factoryTable w = [] \<and> y_next w = 0 \<and> y_nextProducer w = 0 \<and> (\<forall>a. z_state (y_consumers w a) = CREATE_JUST)"


section \<open>Running consumers\<close>

definition factories_inv :: "'s life \<Rightarrow> bool" where
  "factories_inv w \<longleftrightarrow> map_wf str_lt any_key (m_factoryTable w) \<and>
     (\<forall>(clientId, i) \<in> set (m_factoryTable w). i < y_next w \<and> f_clientId (y_factory w i) = clientId \<and> f_serviceState (y_factory w i) \<noteq> SHUTDOWN_ALREADY) \<and>
     (\<forall>i < y_next w. map_wf str_lt any_key (m_consumerTable (y_factory w i)))"

definition running_at :: "'s life \<Rightarrow> nat \<Rightarrow> nat \<Rightarrow> bool" where
  "running_at w a i \<longleftrightarrow> i < y_next w \<and> z_factory (y_consumers w a) = Some i \<and>
     selectConsumer (g_consumerGroup (z_conf (y_consumers w a))) (y_factory w i) = Some a \<and> f_serviceState (y_factory w i) = RUNNING"

definition running_ok :: "'s life \<Rightarrow> bool" where
  "running_ok w \<longleftrightarrow> (\<forall>a. z_state (y_consumers w a) = RUNNING \<longrightarrow> (\<exists>i. running_at w a i))"

text \<open>What a step of the factories leaves to the consumers: their objects, the consumer tables, and the running state of a factory that has consumers.\<close>

definition steady :: "'s life \<Rightarrow> 's life \<Rightarrow> bool" where
  "steady w w' \<longleftrightarrow> y_next w \<le> y_next w' \<and> y_consumers w' = y_consumers w \<and>
     (\<forall>i < y_next w. m_consumerTable (y_factory w' i) = m_consumerTable (y_factory w i) \<and> f_clientId (y_factory w' i) = f_clientId (y_factory w i) \<and>
        (f_serviceState (y_factory w i) = RUNNING \<and> m_consumerTable (y_factory w i) \<noteq> [] \<longrightarrow> f_serviceState (y_factory w' i) = RUNNING)) \<and>
     (factories_inv w \<longrightarrow> factories_inv w')"

lemma steady_refl [simp]: "steady w w"
  by (simp add: steady_def)

lemma steady_trans [trans]: "steady w v \<Longrightarrow> steady v u \<Longrightarrow> steady w u"
  unfolding steady_def by auto

lemma steady_running:
  assumes "steady w w'" "running_at w a i" shows "running_at w' a i"
proof -
  have "m_consumerTable (y_factory w i) \<noteq> []" using assms(2) by (auto simp: running_at_def selectConsumer_def)
  then show ?thesis using assms by (auto simp: steady_def running_at_def selectConsumer_def)
qed

lemma steady_set_producer [simp]: "steady w (set_producer a p w)"
  by (simp add: steady_def set_producer_def factories_inv_def)

lemma steady_set_factory:
  assumes "m_consumerTable f = m_consumerTable (y_factory w i)" "f_clientId f = f_clientId (y_factory w i)"
    "f_serviceState (y_factory w i) = RUNNING \<and> m_consumerTable f \<noteq> [] \<longrightarrow> f_serviceState f = RUNNING"
    "f_serviceState f = SHUTDOWN_ALREADY \<longrightarrow> f_serviceState (y_factory w i) = SHUTDOWN_ALREADY \<or> i \<notin> snd ` set (m_factoryTable w)"
  shows "steady w (set_factory i f w)"
proof -
  have "factories_inv (set_factory i f w)" if inv: "factories_inv w"
  proof -
    have "f_serviceState f \<noteq> SHUTDOWN_ALREADY" if "(c, i) \<in> set (m_factoryTable w)" for c
      using inv assms(4) that by (force simp: factories_inv_def)
    then show ?thesis using inv assms(1,2) unfolding factories_inv_def set_factory_def by (auto split: if_splits)
  qed
  then show ?thesis using assms(1-3) by (auto simp: steady_def set_factory_def)
qed

lemma steady_getAndCreate:
  assumes "getAndCreateMQClientFactory c w = (i, w')"
  shows "steady w w'" "factories_inv w \<Longrightarrow> i < y_next w' \<and> f_serviceState (y_factory w' i) \<noteq> SHUTDOWN_ALREADY"
proof -
  let ?id = "buildMQClientId c"
  have "steady w w' \<and> (factories_inv w \<longrightarrow> i < y_next w' \<and> f_serviceState (y_factory w' i) \<noteq> SHUTDOWN_ALREADY)"
  proof (cases "map_find str_lt ?id (m_factoryTable w)")
    case (Some j)
    then have "w' = w" "i = j" using assms by (simp_all add: getAndCreateMQClientFactory_def)
    then show ?thesis using Some str.find_Some_iff [of "m_factoryTable w" ?id j] by (auto simp: factories_inv_def)
  next
    case None
    let ?n = "y_next w"
    have i: "i = ?n" using assms None by (simp add: getAndCreateMQClientFactory_def Let_def)
    have w': "m_factoryTable w' = map_put str_lt ?id ?n (m_factoryTable w)" "y_next w' = Suc ?n" "y_consumers w' = y_consumers w"
      "j \<noteq> ?n \<Longrightarrow> y_factory w' j = y_factory w j" "f_clientId (y_factory w' ?n) = ?id" "f_serviceState (y_factory w' ?n) = CREATE_JUST"
      "m_consumerTable (y_factory w' ?n) = []" for j
      using assms None by (auto simp: getAndCreateMQClientFactory_def MQClientFactory_new_def Let_def)
    have "factories_inv w'" if inv: "factories_inv w"
    proof -
      have wf: "map_wf str_lt any_key (m_factoryTable w)" using inv by (simp add: factories_inv_def)
      have "set (m_factoryTable w') = insert (?id, ?n) {x \<in> set (m_factoryTable w). fst x \<noteq> ?id}" by (simp add: w'(1) str.put_set [OF wf])
      moreover have "map_wf str_lt any_key (m_factoryTable w')" by (simp add: w'(1) str.put_wf [OF wf])
      moreover have "\<forall>(d, j) \<in> set (m_factoryTable w). j \<noteq> ?n" using inv by (auto simp: factories_inv_def)
      ultimately show ?thesis using inv unfolding factories_inv_def w'(2) by (auto simp: w' less_Suc_eq)
    qed
    then show ?thesis by (auto simp: steady_def w' i)
  qed
  then show "steady w w'" "factories_inv w \<Longrightarrow> i < y_next w' \<and> f_serviceState (y_factory w' i) \<noteq> SHUTDOWN_ALREADY" by blast+
qed

lemma registerProducer_frame:
  assumes "registerProducer grp a f = (b, f')"
  shows "m_consumerTable f' = m_consumerTable f" "f_clientId f' = f_clientId f" "f_serviceState f' = f_serviceState f"
  using assms by (auto simp: registerProducer_def split: option.splits if_splits)

lemma steady_producer_begin:
  assumes "producer_begin env a w = (r, w')"
  shows "steady w w'" "factories_inv w \<Longrightarrow> r = Inr i \<Longrightarrow> i < y_next w' \<and> f_serviceState (y_factory w' i) \<noteq> SHUTDOWN_ALREADY"
proof -
  define p where "p = (let p = (y_producers w a)\<lparr>q_state := START_FAILED\<rparr> in
    if q_producerGroup p = CLIENT_INNER_PRODUCER_GROUP then p\<lparr>q_config := changeInstanceNameToPID (y_pid env) (q_config p)\<rparr> else p)"
  obtain j v where g: "getAndCreateMQClientFactory (q_config p) (set_producer a p w) = (j, v)" by fastforce
  obtain ok f where f: "registerProducer (q_producerGroup (y_producers v a)) (Some a) (y_factory v j) = (ok, f)" by fastforce
  have w': "\<exists>q. w' = set_producer a q (set_factory j f v)" "r = Inr i \<Longrightarrow> i = j"
    using assms g f by (auto simp: producer_begin_def p_def Let_def split: prod.splits if_splits)
  have c: "steady w v" by (rule steady_trans [OF steady_set_producer steady_getAndCreate(1) [OF g]])
  have d: "steady v (set_factory j f v)" using registerProducer_frame [OF f] by (intro steady_set_factory) auto
  show s: "steady w w'" using w'(1) steady_trans [OF steady_trans [OF c d] steady_set_producer] by auto
  assume "factories_inv w" "r = Inr i"
  then have "j < y_next v \<and> f_serviceState (y_factory v j) \<noteq> SHUTDOWN_ALREADY"
    using steady_getAndCreate(2) [OF g] by (simp add: factories_inv_def set_producer_def)
  then show "i < y_next w' \<and> f_serviceState (y_factory w' i) \<noteq> SHUTDOWN_ALREADY"
    using w' \<open>r = Inr i\<close> registerProducer_frame(3) [OF f] by (auto simp: set_producer_def set_factory_def)
qed

lemma steady_inner_start: "inner_start env a w = (r, w') \<Longrightarrow> steady w w'"
  by (auto simp: inner_start_def set_running_def split: if_splits prod.splits sum.splits
      intro: steady_producer_begin(1) steady_trans [OF steady_producer_begin(1) steady_set_producer])


lemma steady_factory_start:
  assumes "factory_start env i w = (r, w')" "i < y_next w"
  shows "steady w w'" "r = None \<Longrightarrow> f_serviceState (y_factory w i) \<noteq> SHUTDOWN_ALREADY \<Longrightarrow> f_serviceState (y_factory w' i) = RUNNING"
proof -
  have "steady w w' \<and> (r = None \<longrightarrow> f_serviceState (y_factory w i) \<noteq> SHUTDOWN_ALREADY \<longrightarrow> f_serviceState (y_factory w' i) = RUNNING)"
  proof (cases "f_serviceState (y_factory w i)")
    case CREATE_JUST
    define v where "v = set_factory i ((y_factory w i)\<lparr>f_serviceState := START_FAILED\<rparr>) w"
    have v: "steady w v" unfolding v_def by (rule steady_set_factory) (simp_all add: CREATE_JUST)
    show ?thesis
    proof (cases "y_boots env")
      case True
      obtain e u where u: "inner_start env (y_inner v i) v = (e, u)" by fastforce
      have su: "steady w u" using steady_trans [OF v steady_inner_start [OF u]] .
      have "w' = (if e = None then set_factory i ((y_factory u i)\<lparr>f_serviceState := RUNNING\<rparr>) u else u) \<and> r = e"
        using assms(1) CREATE_JUST True u by (auto simp: factory_start_def v_def [symmetric] Let_def split: option.splits)
      moreover have "steady u (set_factory i ((y_factory u i)\<lparr>f_serviceState := RUNNING\<rparr>) u)" by (rule steady_set_factory) simp_all
      ultimately show ?thesis using su steady_trans [OF su] by (auto simp: set_factory_def)
    next
      case False
      then show ?thesis using assms(1) CREATE_JUST v by (auto simp: factory_start_def v_def Let_def)
    qed
  qed (use assms in \<open>auto simp: factory_start_def\<close>)
  then show "steady w w'" "r = None \<Longrightarrow> f_serviceState (y_factory w i) \<noteq> SHUTDOWN_ALREADY \<Longrightarrow> f_serviceState (y_factory w' i) = RUNNING" by blast+
qed

lemma steady_producer_unregister: "steady w (producer_unregister a w)"
  by (auto simp: producer_unregister_def unregisterProducer_def Let_def intro!: steady_set_factory split: option.split)

lemma steady_inner_shutdown: "steady w (inner_shutdown a w)"
  using steady_trans [OF steady_producer_unregister steady_set_producer] by (auto simp: inner_shutdown_def Let_def)

lemma steady_remove: "steady w (removeClientFactory clientId w)"
  using str.erase_wf str.erase_subset by (fastforce simp: steady_def removeClientFactory_def factories_inv_def)

lemma steady_beyond: "y_next w \<le> i \<Longrightarrow> steady w (set_factory i f w)"
  by (auto simp: steady_def set_factory_def factories_inv_def)

lemma steady_factory_shutdown:
  assumes "factories_inv w" shows "steady w (factory_shutdown i w)"
proof (cases "m_consumerTable (y_factory w i) = [] \<and> f_serviceState (y_factory w i) = RUNNING")
  case True
  let ?c = "f_clientId (y_factory w i)"
  define v where "v = inner_shutdown (y_inner w i) w"
  define u where "u = removeClientFactory ?c v"
  have v: "steady w v" unfolding v_def by (rule steady_inner_shutdown)
  have u: "steady w u" unfolding u_def by (rule steady_trans [OF v steady_remove])
  have "steady u (set_factory i ((y_factory u i)\<lparr>f_serviceState := SHUTDOWN_ALREADY\<rparr>) u)"
  proof (cases "i < y_next w")
    case i: True
    have vi: "factories_inv v" "f_clientId (y_factory v i) = ?c" "m_consumerTable (y_factory u i) = []" using v u assms i True by (auto simp: steady_def)
    have "j \<noteq> i" if "(d, j) \<in> set (m_factoryTable u)" for d j
      using that vi(1,2) str.erase_set [of "m_factoryTable v" ?c] by (auto simp: u_def removeClientFactory_def factories_inv_def)
    then have "i \<notin> snd ` set (m_factoryTable u)" by force
    then show ?thesis by (intro steady_set_factory) (simp_all add: vi)
  next
    case False
    moreover have "y_next u = y_next w"
      by (simp add: u_def v_def removeClientFactory_def inner_shutdown_def producer_unregister_def set_factory_def set_producer_def Let_def split: option.split)
    ultimately show ?thesis by (simp add: steady_beyond)
  qed
  from steady_trans [OF u this] show ?thesis by (simp add: factory_shutdown_def u_def v_def Let_def)
qed (auto simp: factory_shutdown_def Let_def)

definition life_inv :: "'s life \<Rightarrow> bool" where
  "life_inv w \<longleftrightarrow> factories_inv w \<and> running_ok w"

lemma life_inv_steady:
  assumes "life_inv w" "steady w w'" shows "life_inv w'"
proof -
  have "y_consumers w' = y_consumers w" "factories_inv w'" using assms by (auto simp: steady_def life_inv_def)
  then show ?thesis using assms(1) steady_running [OF assms(2)] unfolding life_inv_def running_ok_def by fastforce
qed

lemma life_inv_set_consumer:
  assumes "factories_inv w" "z_conf c = z_conf (y_consumers w a)" "\<And>b i. b \<noteq> a \<Longrightarrow> z_state (y_consumers w b) = RUNNING \<Longrightarrow> \<exists>i. running_at w b i"
    and "z_state c = RUNNING \<Longrightarrow> \<exists>i. z_factory c = Some i \<and> i < y_next w \<and> selectConsumer (g_consumerGroup (z_conf c)) (y_factory w i) = Some a
       \<and> f_serviceState (y_factory w i) = RUNNING"
  shows "life_inv (set_consumer a c w)"
proof -
  have "running_at (set_consumer a c w) b i" if "b \<noteq> a" "running_at w b i" for b i using that by (simp add: running_at_def set_consumer_def)
  moreover have "\<exists>i. running_at (set_consumer a c w) a i" if "z_state c = RUNNING" using assms(4) [OF that] by (auto simp: running_at_def set_consumer_def)
  moreover have "factories_inv (set_consumer a c w)" using assms(1) by (simp add: factories_inv_def set_consumer_def)
  ultimately show ?thesis using assms(3) unfolding life_inv_def running_ok_def by (auto simp: set_consumer_def) blast
qed

text \<open>Registering a consumer keeps all entries and adds one.\<close>

lemma register_running:
  assumes "factories_inv w" "i < y_next w" "registerConsumer grp (Some a) (y_factory w i) = (ok, f)"
  shows "factories_inv (set_factory i f w)" "running_at w b j \<Longrightarrow> running_at (set_factory i f w) b j" "ok \<Longrightarrow> selectConsumer grp f = Some a"
    "f_serviceState f = f_serviceState (y_factory w i)"
proof -
  let ?m = "m_consumerTable (y_factory w i)"
  have wf: "map_wf str_lt any_key ?m" using assms(1,2) by (simp add: factories_inv_def)
  have f: "f = (if ok then (y_factory w i)\<lparr>m_consumerTable := map_put str_lt grp a ?m\<rparr> else y_factory w i)" "ok \<Longrightarrow> map_find str_lt grp ?m = None"
    using assms(3) by (auto simp: registerConsumer_def split: if_splits)
  have put: "map_find str_lt g (map_put str_lt grp a ?m) = (if g = grp then Some a else map_find str_lt g ?m)" for g
    using str.find_map_of [OF wf] str.find_map_of [OF str.put_wf [OF wf]] str.put_map_of [OF wf] by simp
  show "factories_inv (set_factory i f w)" using assms(1,2) str.put_wf [OF wf] by (auto simp: factories_inv_def set_factory_def f(1))
  show "running_at w b j \<Longrightarrow> running_at (set_factory i f w) b j" using f(2)
    by (auto simp: running_at_def set_factory_def selectConsumer_def f(1) put)
  show "ok \<Longrightarrow> selectConsumer grp f = Some a" by (simp add: f(1) selectConsumer_def put)
  show "f_serviceState f = f_serviceState (y_factory w i)" by (simp add: f(1))
qed

lemma consumer_begin_inv:
  assumes inv: "life_inv w" and a: "z_state (y_consumers w a) = CREATE_JUST" and b: "consumer_begin env a w = (r, w')"
  shows "life_inv w'" "z_state (y_consumers w' a) \<noteq> RUNNING" "z_conf (y_consumers w' a) = z_conf (y_consumers w a)"
    "r = Inr i \<Longrightarrow> i < y_next w' \<and> z_factory (y_consumers w' a) = Some i \<and> f_serviceState (y_factory w' i) \<noteq> SHUTDOWN_ALREADY \<and>
       selectConsumer (g_consumerGroup (z_conf (y_consumers w a))) (y_factory w' i) = Some a"
proof -
  let ?conf = "z_conf (y_consumers w a)" and ?grp = "g_consumerGroup (z_conf (y_consumers w a))"
  define c0 where "c0 = (y_consumers w a)\<lparr>z_state := START_FAILED\<rparr>"
  obtain copied rb where cp: "copySubscription (y_junk env) (z_kind c0) ?conf (z_rebalance c0) = (copied, rb)" by fastforce
  have fi: "factories_inv w" and run: "\<And>b. z_state (y_consumers w b) = RUNNING \<Longrightarrow> \<exists>i. running_at w b i"
    using inv by (auto simp: life_inv_def running_ok_def)
  have "life_inv w' \<and> z_state (y_consumers w' a) \<noteq> RUNNING \<and> z_conf (y_consumers w' a) = ?conf \<and>
    (r = Inr i \<longrightarrow> i < y_next w' \<and> z_factory (y_consumers w' a) = Some i \<and> f_serviceState (y_factory w' i) \<noteq> SHUTDOWN_ALREADY \<and>
       selectConsumer ?grp (y_factory w' i) = Some a)"
  proof (cases "checkConfig (z_kind c0) ?conf = None \<and> copied")
    case False
    then obtain c e where c: "w' = set_consumer a c w" "z_conf c = ?conf" "z_state c = START_FAILED" "r = Inl e"
      using b cp by (auto simp: consumer_begin_def c0_def [symmetric] Let_def split: option.splits) (auto simp: c0_def)
    have "life_inv w'" unfolding c(1) using fi c(2) run by (rule life_inv_set_consumer) (simp_all add: c(3))
    then show ?thesis using c by (auto simp: set_consumer_def)
  next
    case True
    define c1 where "c1 = (let c = c0\<lparr>z_rebalance := rb\<rparr> in
      if g_messageModel ?conf = 1 then c\<lparr>z_config := changeInstanceNameToPID (y_pid env) (z_config c)\<rparr> else c)"
    obtain j v where g: "getAndCreateMQClientFactory (z_config c1) w = (j, v)" by fastforce
    obtain ok f where f: "registerConsumer ?grp (Some a) (y_factory v j) = (ok, f)" by fastforce
    have "\<exists>c. w' = set_consumer a c (set_factory j f v) \<and> z_conf c = ?conf \<and> z_state c \<noteq> RUNNING \<and> z_factory c = Some j \<and> (r = Inr i \<longrightarrow> i = j \<and> ok)"
      using b cp True g f by (auto simp: consumer_begin_def c0_def [symmetric] c1_def Let_def split: if_splits) (auto simp: c0_def Let_def split: if_splits)
    then obtain c where c: "w' = set_consumer a c (set_factory j f v)" "z_conf c = ?conf" "z_state c \<noteq> RUNNING" "z_factory c = Some j" "r = Inr i \<longrightarrow> i = j \<and> ok"
      by blast
    have s: "steady w v" "j < y_next v" "f_serviceState (y_factory v j) \<noteq> SHUTDOWN_ALREADY" using steady_getAndCreate [OF g] fi by auto
    have v: "factories_inv v" "y_consumers v = y_consumers w" using s(1) fi by (auto simp: steady_def)
    note rg = register_running [OF v(1) s(2) f]
    have "life_inv w'" unfolding c(1)
    proof (rule life_inv_set_consumer)
      show "factories_inv (set_factory j f v)" by (rule rg)
      show "z_conf c = z_conf (y_consumers (set_factory j f v) a)" by (simp add: c(2) set_factory_def v(2))
      show "\<exists>i. running_at (set_factory j f v) b i" if "z_state (y_consumers (set_factory j f v) b) = RUNNING" for b
        using run [of b] that rg(2) steady_running [OF s(1)] by (fastforce simp: set_factory_def v(2))
    qed (use c(3) in simp)
    then show ?thesis using c s rg(3,4) by (auto simp: set_consumer_def set_factory_def)
  qed
  then show "life_inv w'" "z_state (y_consumers w' a) \<noteq> RUNNING" "z_conf (y_consumers w' a) = ?conf"
    "r = Inr i \<Longrightarrow> i < y_next w' \<and> z_factory (y_consumers w' a) = Some i \<and> f_serviceState (y_factory w' i) \<noteq> SHUTDOWN_ALREADY \<and>
       selectConsumer ?grp (y_factory w' i) = Some a" by blast+
qed

lemma consumer_start_inv:
  assumes inv: "life_inv w" and s: "consumer_start env a w = (r, w')"
  shows "life_inv w'"
proof (cases "z_state (y_consumers w a) = CREATE_JUST")
  case True
  obtain x v where b: "consumer_begin env a w = (x, v)" by fastforce
  note v = consumer_begin_inv [OF inv True b]
  show ?thesis
  proof (cases x)
    case (Inl e)
    then show ?thesis using s True b v(1) by (simp add: consumer_start_def)
  next
    case (Inr i)
    note i = v(4) [OF Inr]
    obtain e u where u: "factory_start env i v = (e, u)" by fastforce
    note st = steady_factory_start [OF u]
    have su: "steady v u" using st(1) i by blast
    then have uu: "life_inv u" "y_consumers u = y_consumers v" "y_next v \<le> y_next u" using life_inv_steady [OF v(1)] by (auto simp: steady_def)
    show ?thesis
    proof (cases e)
      case None
      then have w': "w' = set_consumer a ((y_consumers u a)\<lparr>z_state := RUNNING\<rparr>) u" using s True b Inr u by (simp add: consumer_start_def)
      have "m_consumerTable (y_factory u i) = m_consumerTable (y_factory v i)" using su i by (simp add: steady_def)
      then show ?thesis unfolding w' using uu i st(2) None v(3)
        by (intro life_inv_set_consumer) (auto simp: life_inv_def running_ok_def selectConsumer_def)
    next
      case (Some y)
      then show ?thesis using s True b Inr u uu(1) by (simp add: consumer_start_def)
    qed
  qed
qed (use assms in \<open>auto simp: consumer_start_def\<close>)

lemma consumer_shutdown_inv:
  assumes inv: "life_inv w" shows "life_inv (consumer_shutdown a w)"
proof (cases "z_state (y_consumers w a) = RUNNING")
  case True
  let ?g = "g_consumerGroup (z_conf (y_consumers w a))"
  have fi: "factories_inv w" using inv by (simp add: life_inv_def)
  obtain i where i: "running_at w a i" using inv True by (auto simp: life_inv_def running_ok_def)
  let ?m = "m_consumerTable (y_factory w i)"
  have ii: "i < y_next w" "z_factory (y_consumers w a) = Some i" "map_find str_lt ?g ?m = Some a" using i by (auto simp: running_at_def selectConsumer_def)
  have wf: "map_wf str_lt any_key ?m" using fi ii(1) by (simp add: factories_inv_def)
  define v where "v = set_factory i ((y_factory w i)\<lparr>m_consumerTable := map_erase str_lt ?g ?m\<rparr>) w"
  have er: "map_find str_lt g (map_erase str_lt ?g ?m) = (if g = ?g then None else map_find str_lt g ?m)" for g
    using str.find_map_of [OF wf] str.find_map_of [OF str.erase_wf [OF wf]] str.erase_map_of [OF wf] by simp
  have v: "factories_inv v" using fi str.erase_wf [OF wf] by (auto simp: factories_inv_def v_def set_factory_def)
  have run: "running_at v b j" if "running_at w b j" "b \<noteq> a" for b j
    using that ii(3) by (auto simp: running_at_def v_def set_factory_def selectConsumer_def er)
  have sv: "steady v (factory_shutdown i v)" by (rule steady_factory_shutdown [OF v])
  have w': "consumer_shutdown a w = set_consumer a ((y_consumers w a)\<lparr>z_state := SHUTDOWN_ALREADY\<rparr>) (factory_shutdown i v)"
    using True ii(2) sv by (simp add: consumer_shutdown_def unregisterConsumer_def v_def [symmetric] Let_def) (simp add: steady_def v_def set_factory_def)
  have cs: "y_consumers (factory_shutdown i v) = y_consumers w" "factories_inv (factory_shutdown i v)"
    using sv v by (auto simp: steady_def v_def set_factory_def)
  show ?thesis unfolding w'
    by (rule life_inv_set_consumer) (use inv run steady_running [OF sv] in \<open>auto simp: cs life_inv_def running_ok_def, blast\<close>)
qed (simp add: consumer_shutdown_def inv)

lemma life_step_inv: "life_inv w \<Longrightarrow> life_inv (life_step env act w)"
proof (induction env act w rule: life_step.induct)
  case (1 env grp c w)
  then show ?case by (auto simp: life_inv_def factories_inv_def running_ok_def running_at_def)
next
  case (2 env a w)
  obtain x v where b: "producer_begin env a w = (x, v)" by fastforce
  have v: "life_inv v" by (rule life_inv_steady [OF 2 steady_producer_begin(1) [OF b]])
  have "life_inv (snd (factory_start env i v))" if "x = Inr i" for i
    using life_inv_steady [OF v] steady_factory_start(1) [of env i v] steady_producer_begin(2) [OF b _ that] 2
    by (cases "factory_start env i v") (auto simp: life_inv_def)
  then show ?case using 2 v by (auto simp: producer_start_def b set_running_def split: sum.split prod.split option.split
        intro: life_inv_steady [OF _ steady_set_producer])
next
  case (3 env a w)
  have u: "life_inv (producer_unregister a w)" by (rule life_inv_steady [OF 3 steady_producer_unregister])
  then have "life_inv (factory_shutdown i (producer_unregister a w))" for i
    by (rule life_inv_steady [OF _ steady_factory_shutdown]) (use u in \<open>simp add: life_inv_def\<close>)
  then show ?case using 3 u by (auto simp: producer_shutdown_def Let_def split: option.split intro: life_inv_steady [OF _ steady_set_producer])
next
  case (4 env a w)
  then show ?case using consumer_start_inv by (cases "consumer_start env a w") simp
next
  case (5 env a w)
  then show ?case by (simp add: consumer_shutdown_inv)
qed

text \<open>
  C25. A consumer that is running is registered with its factory under its group, and its factory is running, whatever producers and consumers
  are made, started and shut down, successfully or not.
\<close>

theorem running_consumer_has_running_factory:
  assumes "fresh_life w" "w' = life_run acts w" "z_state (y_consumers w' a) = RUNNING"
  shows "\<exists>i. z_factory (y_consumers w' a) = Some i \<and> selectConsumer (g_consumerGroup (z_conf (y_consumers w' a))) (y_factory w' i) = Some a
    \<and> f_serviceState (y_factory w' i) = RUNNING"
proof -
  have "life_inv w" using assms(1) by (auto simp: fresh_life_def life_inv_def factories_inv_def running_ok_def)
  then have "life_inv (life_run acts w)" by (induction acts w rule: life_run.induct) (auto intro: life_step_inv)
  then show ?thesis using assms(2,3) by (auto simp: life_inv_def running_ok_def running_at_def)
qed


section \<open>Two producers of one process\<close>

lemmas life_defs = getAndCreateMQClientFactory_def MQClientFactory_new_def removeClientFactory_def set_factory_def set_producer_def set_running_def
  DefaultMQProducer_new_def registerProducer_def unregisterProducer_def changeInstanceNameToPID_def

lemma str_lt_neq: "s \<noteq> t \<Longrightarrow> str_lt s t \<longleftrightarrow> \<not> str_lt t s"
  using str_lt_total str_lt_trans str_lt_irrefl by metis

text \<open>The state after a first producer with the default instance name was started: its factory has the number \<open>n\<close>, the inner producer of that factory is
  registered with the other factory \<open>Suc n\<close>, the one for the process number.\<close>

lemma first_producer_started:
  fixes w :: "'s life"
  assumes "m_factoryTable w = []" "a < y_nextProducer w" "y_boots env" "y_pid env \<noteq> ''DEFAULT''"
    and "q_state (y_producers w a) = CREATE_JUST" "m_instanceName (q_config (y_producers w a)) = ''DEFAULT''"
    and "q_producerGroup (y_producers w a) \<noteq> []" "q_producerGroup (y_producers w a) \<noteq> CLIENT_INNER_PRODUCER_GROUP"
  obtains v where "producer_start env a w = (None, v)"
    "map_find str_lt (buildMQClientId (q_config (y_producers w a))) (m_factoryTable v) = Some (y_next w)"
    "m_producerTable (y_factory v (y_next w)) = [(q_producerGroup (y_producers w a), a)]"
    "m_consumerTable (y_factory v (y_next w)) = []" "m_adminExtTable (y_factory v (y_next w)) = []" "f_serviceState (y_factory v (y_next w)) = RUNNING"
    "y_inner v (y_next w) = y_nextProducer w" "q_factory (y_producers v (y_nextProducer w)) = Some (Suc (y_next w))"
    "q_state (y_producers v a) = RUNNING" "q_factory (y_producers v a) = Some (y_next w)" "q_producerGroup (y_producers v a) = q_producerGroup (y_producers w a)"
    "\<forall>b < y_nextProducer w. b \<noteq> a \<longrightarrow> y_producers v b = y_producers w b"
proof -
  define c where "c = q_config (y_producers w a)"
  have ids: "buildMQClientId (c\<lparr>m_instanceName := y_pid env\<rparr>) \<noteq> buildMQClientId c" using assms(4,6) by (simp add: buildMQClientId_def c_def)
  have irr: "\<not> str_lt s s" for s by (rule str_lt_irrefl)
  have "str_lt (buildMQClientId c) (buildMQClientId (c\<lparr>m_instanceName := y_pid env\<rparr>)) \<or> str_lt (buildMQClientId (c\<lparr>m_instanceName := y_pid env\<rparr>)) (buildMQClientId c)"
    using ids str_lt_total by metis
  then show ?thesis
    using assms ids irr str_lt_neq [OF ids]
    by (intro that [of "snd (producer_start env a w)"])
      (auto simp: producer_start_def producer_begin_def factory_start_def inner_start_def life_defs c_def [symmetric] Let_def
        CLIENT_INNER_PRODUCER_GROUP_def)
qed


text \<open>
  C28. Two producers of one process that keep the default instance name share a factory, whose inner producer is registered elsewhere. When the first of them is
  shut down, one producer is left in the table, which \<open>shutdown\<close> takes for the inner one: it shuts down the factory of the second producer,
  which still counts as running.
\<close>

theorem shutdown_stops_other_producer:
  assumes "m_factoryTable w = []" "a < y_nextProducer w" "b < y_nextProducer w" "a \<noteq> b" "y_boots env" "y_pid env \<noteq> ''DEFAULT''"
    and "q_state (y_producers w a) = CREATE_JUST" "q_state (y_producers w b) = CREATE_JUST" "q_config (y_producers w b) = q_config (y_producers w a)"
    and "m_instanceName (q_config (y_producers w a)) = ''DEFAULT''" "q_producerGroup (y_producers w a) \<noteq> q_producerGroup (y_producers w b)"
    and "q_producerGroup (y_producers w a) \<noteq> []" "q_producerGroup (y_producers w b) \<noteq> []"
    and "q_producerGroup (y_producers w a) \<noteq> CLIENT_INNER_PRODUCER_GROUP" "q_producerGroup (y_producers w b) \<noteq> CLIENT_INNER_PRODUCER_GROUP"
  shows "let (r, w1) = producer_start env a w; (s, w2) = producer_start env b w1; w3 = producer_shutdown a w2; i = y_next w
    in r = None \<and> s = None \<and> q_state (y_producers w3 b) = RUNNING \<and> q_factory (y_producers w3 b) = Some i \<and> f_serviceState (y_factory w3 i) = SHUTDOWN_ALREADY"
proof -
  let ?ga = "q_producerGroup (y_producers w a)" and ?gb = "q_producerGroup (y_producers w b)"
  obtain v where v: "producer_start env a w = (None, v)"
    "map_find str_lt (buildMQClientId (q_config (y_producers w a))) (m_factoryTable v) = Some (y_next w)"
    "m_producerTable (y_factory v (y_next w)) = [(?ga, a)]" "m_consumerTable (y_factory v (y_next w)) = []" "m_adminExtTable (y_factory v (y_next w)) = []"
    "f_serviceState (y_factory v (y_next w)) = RUNNING" "y_inner v (y_next w) = y_nextProducer w"
    "q_factory (y_producers v (y_nextProducer w)) = Some (Suc (y_next w))"
    "q_state (y_producers v a) = RUNNING" "q_factory (y_producers v a) = Some (y_next w)" "q_producerGroup (y_producers v a) = ?ga"
    "\<forall>b < y_nextProducer w. b \<noteq> a \<longrightarrow> y_producers v b = y_producers w b"
    by (rule first_producer_started [OF assms(1,2,5,6,7,10,12,14)])
  have vb: "y_producers v b = y_producers w b" using v(12) assms(3,4) by simp
  have lt: "str_lt ?gb ?ga \<longleftrightarrow> \<not> str_lt ?ga ?gb" by (rule str_lt_neq) (use assms(11) in simp)
  have irr: "\<not> str_lt s s" for s by (rule str_lt_irrefl)
  have nb: "y_nextProducer w \<noteq> b" "y_nextProducer w \<noteq> a" using assms(2,3) by auto
  obtain s u where u: "producer_start env b v = (s, u)" by fastforce
  have u': "s = None" "\<exists>tb. m_producerTable (y_factory u (y_next w)) = tb \<and> map_erase str_lt ?ga tb = [(?gb, b)]" "m_consumerTable (y_factory u (y_next w)) = []"
    "m_adminExtTable (y_factory u (y_next w)) = []" "f_serviceState (y_factory u (y_next w)) = RUNNING" "q_state (y_producers u b) = RUNNING"
    "q_factory (y_producers u b) = Some (y_next w)" "y_producers u a = y_producers v a" "y_inner u (y_next w) = y_nextProducer w"
    "q_factory (y_producers u (y_nextProducer w)) = Some (Suc (y_next w))"
    using u assms(4,8,9,11,13,15) v vb lt irr nb
    by (auto simp: producer_start_def producer_begin_def factory_start_def life_defs Let_def split: if_splits)
  show ?thesis using u'(2-) assms(4) v(9-11) nb
    by (auto simp: v(1) u u'(1) producer_shutdown_def producer_unregister_def factory_shutdown_def inner_shutdown_def life_defs Let_def)
qed


section \<open>Configurations\<close>

text \<open>
  C26. A configuration that \<open>checkConfig\<close> accepts is one the consumer can work with: the thread pool the consume service makes from it never has more
  threads than the configured maximum, and handing any list of messages to the concurrent service ends, in non-empty batches of at most the configured size
  that together are the list.
\<close>

theorem accepted_config_fits:
  assumes "push_checkConfig c = None"
    and "pool_step\<^sup>*\<^sup>* (ThreadPool_new starts 10 (g_consumeThreadMin c) (g_consumeThreadMax c) 10 300000 now) p"
  shows "m_count p \<le> g_consumeThreadMax c \<and>
    (\<exists>reqs. conc_submitConsumeRequest (g_consumeMessageBatchMaxSize c) msgs = Some (reqs, []) \<and> concat reqs = msgs \<and>
       (\<forall>q \<in> set reqs. q \<noteq> [] \<and> int (length q) \<le> g_consumeMessageBatchMaxSize c))"
proof
  let ?p = "ThreadPool_new starts 10 (g_consumeThreadMin c) (g_consumeThreadMax c) 10 300000 now"
  have c: "1 \<le> g_consumeThreadMin c" "g_consumeThreadMin c \<le> g_consumeThreadMax c" "g_consumeThreadMax c \<le> 1000"
    "1 \<le> g_consumeMessageBatchMaxSize c" "g_consumeMessageBatchMaxSize c \<le> 1024"
    using assms(1) by (auto simp: push_checkConfig_def split: option.splits if_splits)
  have new: "m_maxCount ?p = g_consumeThreadMax c" "m_minCount ?p = g_consumeThreadMin c" "m_step ?p = 10"
    using c add_thread_frame [where starts = starts] by (auto simp: ThreadPool_new_def AddThreads_def Let_def)
  from assms(2) have "pool_reachable p \<and> m_maxCount p = g_consumeThreadMax c \<and> m_minCount p = g_consumeThreadMin c \<and> m_step p = 10"
  proof (induction rule: rtranclp_induct)
    case base
    then show ?case using new by (simp add: pool_reachable.init)
  next
    case (step q r)
    then show ?case using step_config [of q r] by (auto intro: pool_reachable.step)
  qed
  moreover from this have "counts_inv p" using c by (intro counts_inv_reachable) (auto simp: pool_limits_def)
  ultimately show "m_count p \<le> g_consumeThreadMax c" using c by (auto simp: counts_inv_def)
  let ?n = "nat (g_consumeMessageBatchMaxSize c)"
  have "size_t (g_consumeMessageBatchMaxSize c) = ?n" using c by (simp add: size_t_def u64_id)
  moreover obtain reqs where "submit_chunks ?n msgs = Some reqs" "concat reqs = msgs" "\<forall>q \<in> set reqs. q \<noteq> [] \<and> length q \<le> ?n"
    using submit_chunks_Some [of ?n msgs] c by (auto simp: Suc_le_eq)
  ultimately show "\<exists>reqs. conc_submitConsumeRequest (g_consumeMessageBatchMaxSize c) msgs = Some (reqs, []) \<and> concat reqs = msgs \<and>
       (\<forall>q \<in> set reqs. q \<noteq> [] \<and> int (length q) \<le> g_consumeMessageBatchMaxSize c)"
    using c by (auto simp: conc_submitConsumeRequest_def le_nat_iff)
qed

text \<open>
  A consumer whose configuration was refused once is lost: even when its configuration is changed to an acceptable one, every further \<open>start\<close> ends with the
  exception for a consumer that was started before, and \<open>shutdown\<close> does nothing.
\<close>

theorem refused_consumer_stuck:
  assumes "z_state (y_consumers w a) = CREATE_JUST" "checkConfig (z_kind (y_consumers w a)) (z_conf (y_consumers w a)) = Some e"
    and "w1 = snd (consumer_start env a w)" "w2 = set_consumer a ((y_consumers w1 a)\<lparr>z_conf := conf\<rparr>) w1"
  shows "fst (consumer_start env a w) = Some e \<and> consumer_start env' a w2 = (Some consumer_started_once, w2) \<and> consumer_shutdown a w2 = w2"
  using assms by (simp add: consumer_start_def consumer_begin_def consumer_shutdown_def set_consumer_def Let_def)

section \<open>Samples\<close>

definition sample_client :: ClientConfig where
  "sample_client = \<lparr>m_clientIP = ''10.0.0.1'', m_instanceName = ''DEFAULT''\<rparr>"

definition sample_conf :: "string \<Rightarrow> consumer_config" where
  "sample_conf grp = \<lparr>g_consumerGroup = grp, g_messageModel = 1, g_hasStrategy = True, g_consumeFromWhere = 0, g_messageListener = Some ConcurrentlyListener,
     g_consumeThreadMin = 10, g_consumeThreadMax = 20, g_consumeConcurrentlyMaxSpan = 2000, g_pullThresholdForQueue = 1000, g_pullInterval = 0,
     g_consumeMessageBatchMaxSize = 1, g_pullBatchSize = 32, g_subscription = [(''t'', ''*'')], g_registerTopics = []\<rparr>"

definition sample_life :: "(RemoteStore \<times> offset_send list) life" where
  "sample_life = \<lparr>m_factoryTable = [], y_next = 0, y_factory = (\<lambda>_. sample_factory), y_inner = (\<lambda>_. 0), y_nextProducer = 0,
     y_producers = (\<lambda>_. DefaultMQProducer_new '''' sample_client),
     y_consumers = (\<lambda>a. \<lparr>z_kind = Push, z_state = CREATE_JUST, z_config = sample_client, z_conf = sample_conf (if a = 0 then ''g'' else ''h''), z_factory = None,
        z_rebalance = sample_rb\<rparr>)\<rparr>"

definition sample_life_env :: life_env where
  "sample_life_env = \<lparr>y_pid = ''77'', y_boots = True, y_junk = 0\<rparr>"

definition sample_acts :: "(life_env \<times> life_action) list" where
  "sample_acts = map (Pair sample_life_env) [StartConsumer 0, StartConsumer 1, ShutdownConsumer 0]"

lemma sample_life_fresh: "fresh_life sample_life"
  by (simp add: fresh_life_def sample_life_def)

lemma sample_life_run: "z_state (y_consumers (life_run sample_acts sample_life) 1) = RUNNING \<and> z_state (y_consumers (life_run sample_acts sample_life) 0) = SHUTDOWN_ALREADY"
  by code_simp

theorem running_consumer_has_running_factory_witness:
  "\<exists>i. z_factory (y_consumers (life_run sample_acts sample_life) 1) = Some i \<and> f_serviceState (y_factory (life_run sample_acts sample_life) i) = RUNNING"
  using running_consumer_has_running_factory [OF sample_life_fresh refl, of sample_acts 1] sample_life_run by blast

theorem accepted_config_fits_witness:
  "m_count (ThreadPool_new (\<lambda>_. True) 10 10 20 10 300000 0) \<le> 20 \<and> (\<exists>reqs. conc_submitConsumeRequest 1 [4, 5] = Some (reqs, []) \<and> concat reqs = [4, 5])"
proof -
  have "push_checkConfig (sample_conf ''g'') = None" by code_simp
  from accepted_config_fits [OF this, of "\<lambda>_. True" 0 _ "[4, 5]"] show ?thesis by (auto simp: sample_conf_def)
qed

theorem refused_consumer_stuck_witness:
  "let w = sample_life\<lparr>y_consumers := (y_consumers sample_life)(0 := (y_consumers sample_life 0)\<lparr>z_conf := (sample_conf ''g'')\<lparr>g_pullBatchSize := 0\<rparr>\<rparr>)\<rparr>;
       w1 = snd (consumer_start sample_life_env 0 w); w2 = set_consumer 0 ((y_consumers w1 0)\<lparr>z_conf := sample_conf ''g''\<rparr>) w1
   in consumer_start sample_life_env 0 w2 = (Some consumer_started_once, w2) \<and> consumer_shutdown 0 w2 = w2"
proof -
  define w where "w = sample_life\<lparr>y_consumers := (y_consumers sample_life)(0 := (y_consumers sample_life 0)\<lparr>z_conf := (sample_conf ''g'')\<lparr>g_pullBatchSize := 0\<rparr>\<rparr>)\<rparr>"
  have "z_state (y_consumers w 0) = CREATE_JUST" "checkConfig (z_kind (y_consumers w 0)) (z_conf (y_consumers w 0)) \<noteq> None"
    unfolding w_def by code_simp+
  then show ?thesis using refused_consumer_stuck [of w 0 _ _ sample_life_env _ "sample_conf ''g''" sample_life_env] unfolding w_def [symmetric] by (auto simp: Let_def)
qed

definition sample_two_producers :: "(RemoteStore \<times> offset_send list) life" where
  "sample_two_producers = life_run (map (Pair sample_life_env) [NewProducer ''p'' sample_client, NewProducer ''q'' sample_client]) sample_life"

theorem shutdown_stops_other_producer_witness:
  "\<exists>w2. w2 = snd (producer_start sample_life_env 1 (snd (producer_start sample_life_env 0 sample_two_producers))) \<and>
     q_state (y_producers (producer_shutdown 0 w2) 1) = RUNNING \<and> f_serviceState (y_factory (producer_shutdown 0 w2) 0) = SHUTDOWN_ALREADY"
proof -
  have "m_factoryTable sample_two_producers = []" "0 < y_nextProducer sample_two_producers" "1 < y_nextProducer sample_two_producers" "(0::nat) \<noteq> 1"
    "y_boots sample_life_env" "y_pid sample_life_env \<noteq> ''DEFAULT''" "q_state (y_producers sample_two_producers 0) = CREATE_JUST"
    "q_state (y_producers sample_two_producers 1) = CREATE_JUST" "q_config (y_producers sample_two_producers 1) = q_config (y_producers sample_two_producers 0)"
    "m_instanceName (q_config (y_producers sample_two_producers 0)) = ''DEFAULT''"
    "q_producerGroup (y_producers sample_two_producers 0) \<noteq> q_producerGroup (y_producers sample_two_producers 1)"
    "q_producerGroup (y_producers sample_two_producers 0) \<noteq> []" "q_producerGroup (y_producers sample_two_producers 1) \<noteq> []"
    "q_producerGroup (y_producers sample_two_producers 0) \<noteq> CLIENT_INNER_PRODUCER_GROUP" "q_producerGroup (y_producers sample_two_producers 1) \<noteq> CLIENT_INNER_PRODUCER_GROUP"
    by code_simp+
  note shutdown_stops_other_producer [OF this]
  moreover have "y_next sample_two_producers = 0" by code_simp
  ultimately show ?thesis by (auto simp: Let_def split: prod.splits)
qed

end
