(* ===== verification/Pull_Consumer.thy ===== *)
theory Pull_Consumer
  imports Pull_Path
begin

text \<open>
  What a pull brings to the application. First the end of a pull of the push consumer: the bytes of an answer become messages in the process queue and
  batches for the consume service. Then \<open>DefaultMQPullConsumerImpl\<close> (\<open>src/src/consumer/DefaultMQPullConsumerImpl.cpp\<close>), whose
  application pulls for itself: the synchronous and the asynchronous pull, the automatic subscription, and the offsets.

  The pull wrapper's table is the one of \<open>Pull_Path\<close>. The answer of the broker to a synchronous call is the argument \<open>answer\<close>, which gets
  the address and the request header; no answer is the exception of \<open>pullMessageSync\<close>.
\<close>

section \<open>DefaultMQPullConsumerImpl\<close>

record 's puller =
  l_serviceState :: ServiceState
  l_rebalance :: "'s rebalance"
  l_wrapper :: push
  l_brokerSuspendMaxTimeMillis :: int
  l_factory :: "'s factory"

definition state_not_ok :: mq_exception where
  "state_not_ok = MQClientException ''The consumer service state not OK, '' (-1)"

definition makeSureStateOK :: "'s puller \<Rightarrow> mq_exception option" where
  "makeSureStateOK c = (if l_serviceState c \<noteq> RUNNING then Some state_not_ok else None)"

definition fetchConsumeOffset :: "'s store_ops \<Rightarrow> MessageQueue \<Rightarrow> bool \<Rightarrow> 's puller \<Rightarrow> mq_exception + int \<times> 's puller" where
  "fetchConsumeOffset ops mq fromStore c =
     (case makeSureStateOK c of Some e \<Rightarrow> Inl e
      | None \<Rightarrow>
          let (v, st) = so_readOffset ops mq (if fromStore then READ_FROM_STORE else MEMORY_FIRST_THEN_STORE) (w_store (l_rebalance c))
          in Inr (v, c\<lparr>l_rebalance := (l_rebalance c)\<lparr>w_store := st\<rparr>\<rparr>))"

definition fetchMessageQueuesInBalance :: "string \<Rightarrow> 's puller \<Rightarrow> mq_exception + MessageQueue list" where
  "fetchMessageQueuesInBalance topic c =
     (case makeSureStateOK c of Some e \<Rightarrow> Inl e
      | None \<Rightarrow>
          Inr (if topic \<noteq> []
               then fold (\<lambda>(mq, _) result. if m_topic mq = topic then set_put mq_lt mq result else result) (m_processQueueTable (l_rebalance c)) []
               else []))"

definition updateConsumeOffset :: "'s updater \<Rightarrow> MessageQueue \<Rightarrow> int \<Rightarrow> 's puller \<Rightarrow> mq_exception + 's puller" where
  "updateConsumeOffset upd mq offset c =
     (case makeSureStateOK c of Some e \<Rightarrow> Inl e
      | None \<Rightarrow> Inr (c\<lparr>l_rebalance := (l_rebalance c)\<lparr>w_store := upd mq offset False (w_store (l_rebalance c))\<rparr>\<rparr>))"

definition subscriptionAutomatically :: "int \<Rightarrow> string \<Rightarrow> 's rebalance \<Rightarrow> 's rebalance" where
  "subscriptionAutomatically junk topic rb =
     (if \<not> fst (hasSubscribe topic rb)
      then (case buildSubscriptionData junk topic SUB_ALL of Some (Inr sd) \<Rightarrow> rb_subscribe topic sd rb | _ \<Rightarrow> rb)
      else rb)"

text \<open>The guards and the request that \<open>pullSyncImpl\<close> and \<open>pullAsyncImpl\<close> share: the address and the header of the request.\<close>

definition pull_request ::
  "factory_env \<Rightarrow> int \<Rightarrow> MessageQueue \<Rightarrow> string \<Rightarrow> int \<Rightarrow> int \<Rightarrow> bool \<Rightarrow> 's puller
   \<Rightarrow> ((mq_exception + string \<times> CommandCustomHeader \<times> SubscriptionData) \<times> 's puller) option" where
  "pull_request ns junk mq subExpression offset maxNums block c =
     (let c = c\<lparr>l_rebalance := subscriptionAutomatically junk (m_topic mq) (l_rebalance c)\<rparr>;
          sysFlag = buildSysFlag False block True
      in case buildSubscriptionData junk (m_topic mq) subExpression of
           Some (Inr sd) \<Rightarrow>
             (case pullKernelImpl ns (l_wrapper c) (m_consumerGroup (l_rebalance c)) mq (sd_subString sd) 0 offset maxNums sysFlag 0
                     (l_brokerSuspendMaxTimeMillis c) (l_factory c) of
                None \<Rightarrow> None
              | Some (Inl e, f) \<Rightarrow> Some (Inl e, c\<lparr>l_factory := f\<rparr>)
              | Some (Inr (addr, header), f) \<Rightarrow> Some (Inr (addr, header, sd), c\<lparr>l_factory := f\<rparr>))
         | _ \<Rightarrow> Some (Inl (MQClientException ''parse subscription error'' (-1)), c))"

definition pull_guards :: "int \<Rightarrow> int \<Rightarrow> 's puller \<Rightarrow> mq_exception option" where
  "pull_guards offset maxNums c =
     (case makeSureStateOK c of Some e \<Rightarrow> Some e
      | None \<Rightarrow>
          if offset < 0 then Some (MQClientException ''offset < 0'' (-1))
          else if maxNums \<le> 0 then Some (MQClientException ''maxNums <= 0'' (-1))
          else None)"

text \<open>The result, the messages in it and the message queue, which is passed by reference; or the exception.\<close>

definition pullSyncImpl ::
  "factory_env \<Rightarrow> (string \<Rightarrow> string option) \<Rightarrow> int \<Rightarrow> (string \<Rightarrow> CommandCustomHeader \<Rightarrow> RemotingCommand option) \<Rightarrow> MessageQueue \<Rightarrow> string \<Rightarrow> int \<Rightarrow> int
   \<Rightarrow> bool \<Rightarrow> 's puller \<Rightarrow> ((mq_exception + PullResultExt \<times> MessageExt list \<times> MessageQueue) \<times> 's puller) option" where
  "pullSyncImpl ns decompress junk answer mq subExpression offset maxNums block c =
     (case pull_guards offset maxNums c of Some e \<Rightarrow> Some (Inl e, c)
      | None \<Rightarrow>
          (case pull_request ns junk mq subExpression offset maxNums block c of
             None \<Rightarrow> None
           | Some (Inl e, c) \<Rightarrow> Some (Inl e, c)
           | Some (Inr (addr, header, sd), c) \<Rightarrow>
               (case pullMessageSync (answer addr header) of
                  None \<Rightarrow> None
                | Some (Inl e) \<Rightarrow> Some (Inl e, c)
                | Some (Inr result) \<Rightarrow>
                    map_option (\<lambda>(mq, _, msgs, h). (Inr (result, msgs, mq), c\<lparr>l_wrapper := h\<rparr>))
                      (processPullResult decompress (n_projectGroupPrefix ns) mq result sd (l_wrapper c)))))"

text \<open>The asynchronous pull ends with the request that is handed to the client, and the callback that will process the answer. A broker exception is turned
  into a client exception; the callback of the application must not be null.\<close>

definition pullAsyncImpl ::
  "factory_env \<Rightarrow> int \<Rightarrow> bool \<Rightarrow> MessageQueue \<Rightarrow> string \<Rightarrow> int \<Rightarrow> int \<Rightarrow> bool \<Rightarrow> 's puller
   \<Rightarrow> ((mq_exception + string \<times> CommandCustomHeader \<times> SubscriptionData) \<times> 's puller) option" where
  "pullAsyncImpl ns junk hasCallback mq subExpression offset maxNums block c =
     (case pull_guards offset maxNums c of Some e \<Rightarrow> Some (Inl e, c)
      | None \<Rightarrow>
          if \<not> hasCallback then Some (Inl (MQClientException ''pullCallback is null'' (-1)), c)
          else map_option (\<lambda>(r, c). (case r of Inl (MQBrokerException _ _) \<Rightarrow> Inl (MQClientException ''pullAsync unknow exception'' (-1)) | _ \<Rightarrow> r, c))
                 (pull_request ns junk mq subExpression offset maxNums block c))"

section \<open>Delivery\<close>

lemma processPullResult_wires:
  assumes "isBlank prefix" "x_pullStatus r = FOUND" "list_all (\<lambda>(magic, m, body). wire_ok m body) ms"
    and "x_messageBinary r = concat (map (\<lambda>(magic, m, body). wire magic m body) ms)" "length (x_messageBinary r) < 2 ^ 31"
  shows "processPullResult dz prefix mq r sd h =
    Some (mq, sd, map (put_offsets r) (filter_again sd (map (\<lambda>(magic, m, body). received dz True m body) ms)), updatePullFromWhichNode mq (x_suggestWhichBrokerId r) h)"
proof -
  have "decodes dz (x_messageBinary r) (int (length (x_messageBinary r))) True = Some (map (\<lambda>(magic, m, body). received dz True m body) ms)"
    using decodes_loop_wires [of ms "[]" dz] assms(3-5) by (simp add: decodes_def)
  then show ?thesis using assms(1,2) by (simp add: processPullResult_def Let_def)
qed

lemma put_offsets_offset [simp]: "ext_queueOffset (put_offsets r m) = ext_queueOffset m"
  by (simp add: put_offsets_def putProperty_def)

lemma deref_fresh:
  assumes "\<And>j. j < length ms \<Longrightarrow> h (n + j) = Some (ms ! j)"
  shows "deref_offsets h [n..<n + length ms] = Some (zip (map ext_queueOffset ms) [n..<n + length ms])"
proof -
  have "list_all (\<lambda>(k, p). case h p of None \<Rightarrow> False | Some m \<Rightarrow> ext_queueOffset m = k) (zip (map ext_queueOffset ms) [n..<n + length ms])"
    using assms by (auto simp: list_all_length)
  from deref_offsets_live [OF this] show ?thesis by simp
qed

text \<open>The answer of a broker with messages in its store format.\<close>

definition found_answer :: "int \<Rightarrow> int \<Rightarrow> int \<Rightarrow> int \<Rightarrow> (int \<times> MessageExt \<times> string) list \<Rightarrow> RemotingCommand \<Rightarrow> bool" where
  "found_answer suggest nxt mn mx ms r \<longleftrightarrow> cmd_code r = SUCCESS_VALUE \<and> cmd_header r = Some (PullMessageResponseHeader suggest nxt mn mx) \<and>
     cmd_body r = Some (concat (map (\<lambda>(magic, m, body). wire magic m body) ms)) \<and> list_all (\<lambda>(magic, m, body). wire_ok m body) ms \<and>
     length (concat (map (\<lambda>(magic, m, body). wire magic m body) ms)) < 2 ^ 31"

definition found_result :: "int \<Rightarrow> int \<Rightarrow> int \<Rightarrow> int \<Rightarrow> (int \<times> MessageExt \<times> string) list \<Rightarrow> PullResultExt" where
  "found_result suggest nxt mn mx ms = \<lparr>x_pullStatus = FOUND, x_nextBeginOffset = nxt, x_minOffset = mn, x_maxOffset = mx, x_suggestWhichBrokerId = suggest,
     x_messageBinary = concat (map (\<lambda>(magic, m, body). wire magic m body) ms)\<rparr>"

text \<open>The messages the application is to see: those of the answer that pass the filter on tags, with the bounds of the queue as properties.\<close>

definition delivered_msgs :: "(string \<Rightarrow> string option) \<Rightarrow> PullResultExt \<Rightarrow> SubscriptionData \<Rightarrow> (int \<times> MessageExt \<times> string) list \<Rightarrow> MessageExt list" where
  "delivered_msgs dz r sd ms = map (put_offsets r) (filter_again sd (map (\<lambda>(magic, m, body). received dz True m body) ms))"

lemma found_response: "found_answer suggest nxt mn mx ms r \<Longrightarrow> processPullResponse r = Some (Inr (found_result suggest nxt mn mx ms))"
  by (simp add: found_answer_def found_result_def processPullResponse_def Let_def)

lemma found_processed:
  assumes "found_answer suggest nxt mn mx ms r" "isBlank prefix"
  shows "processPullResult dz prefix mq (found_result suggest nxt mn mx ms) sd h =
    Some (mq, sd, delivered_msgs dz (found_result suggest nxt mn mx ms) sd ms, updatePullFromWhichNode mq suggest h)"
  using processPullResult_wires [of prefix "found_result suggest nxt mn mx ms" ms dz mq sd h] assms
  by (simp add: found_answer_def found_result_def delivered_msgs_def)

lemma alloc_heap:
  assumes "alloc_msgs ms w = (ps, w')"
  shows "ps = [u_nextMsg w..<u_nextMsg w + length ms]" "j < length ms \<Longrightarrow> u_heap w' (u_nextMsg w + j) = Some (ms ! j)" "u_works w' = u_works w"
    "u_requests w' = u_requests w" "u_push w' = u_push w" "rb_of k w' = rb_of k w"
  using assms by (auto simp: alloc_msgs_def Let_def rb_of_def)

text \<open>
  C9. The messages of an answer reach the application of a push consumer with a concurrent listener. When the broker answers a pull with messages in its store
  format, exactly those that pass the tag filter are on the heap, entered in the process queue under their offsets, and handed to the consume service, each in
  one batch and in order; the pull request continues at the offset the broker gave and is in one of its places again.
\<close>

theorem pull_delivers_messages:
  assumes "found_answer suggest nxt mn mx ms response" "isBlank (n_projectGroupPrefix (v_ns env))"
    and "u_requests w (cb_request cb) = Some r" "w_pqs (rb_of (cb_consumer cb) w) (pr_processQueue r) = Some pq"
    and "\<not> h_consumeOrderly (u_push w (cb_consumer cb))" "1 \<le> h_consumeMessageBatchMaxSize (u_push w (cb_consumer cb))"
    and "h_consumeMessageBatchMaxSize (u_push w (cb_consumer cb)) \<le> 1024"
    and "msgs = delivered_msgs (v_decompress env) (found_result suggest nxt mn mx ms) (cb_subscriptionData cb) ms"
    and "ps = [u_nextMsg w..<u_nextMsg w + length msgs]"
  shows "\<exists>w' reqs pq'. operationComplete env cb (Some response) w = Some w' \<and> (\<forall>j < length msgs. u_heap w' (ps ! j) = Some (msgs ! j)) \<and>
    w_pqs (rb_of (cb_consumer cb) w') (pr_processQueue r) = Some pq' \<and> m_msgTreeMap pq' = put_all (zip (map ext_queueOffset msgs) ps) (m_msgTreeMap pq) \<and>
    u_works w' = u_works w @ [ConcurrentWork (cb_consumer cb) (cb_request cb) reqs] \<and> concat reqs = ps \<and>
    u_requests w' (cb_request cb) = Some (r\<lparr>pr_nextOffset := nxt\<rparr>) \<and> cb_request cb \<in> set (m_pullRequestQueue w') \<union> fst ` set (u_later w')"
proof -
  let ?a = "cb_request cb" and ?k = "cb_consumer cb" and ?res = "found_result suggest nxt mn mx ms"
  let ?r = "r\<lparr>pr_nextOffset := nxt\<rparr>"
  define h where "h = updatePullFromWhichNode (pr_messageQueue r) suggest (u_push w ?k)"
  define w1 where "w1 = set_push ?k (pull_stat (s64 (v_now env - cb_beginTimestamp cb)) h) (set_request ?a ?r (set_push ?k h w))"
  obtain ps' w2 where al: "alloc_msgs msgs w1 = (ps', w2)" by fastforce
  note al' = alloc_heap [OF al]
  have w1: "u_nextMsg w1 = u_nextMsg w" "rb_of ?k w1 = rb_of ?k w" "u_works w1 = u_works w" "u_requests w1 ?a = Some ?r"
    "u_push w1 ?k = pull_stat (s64 (v_now env - cb_beginTimestamp cb)) h"
    by (simp_all add: w1_def set_push_def set_request_def rb_of_def)
  have ps': "ps' = ps" using al'(1) w1(1) assms(9) by simp
  have heap: "u_heap w2 (ps ! j) = Some (msgs ! j)" if "j < length msgs" for j using al'(2) [OF that] w1(1) assms(9) that by simp
  have deref: "deref_offsets (u_heap w2) ps = Some (zip (map ext_queueOffset msgs) ps)"
    unfolding assms(9) by (rule deref_fresh) (use heap assms(9) in auto)
  have "putMessage (u_heap w2) ps pq \<noteq> None" by (auto simp: putMessage_def deref Let_def)
  then obtain d pq' where pm: "putMessage (u_heap w2) ps pq = Some (d, pq')" by auto
  note pf = putMessage_fields [OF pm deref]
  define h2 where "h2 = u_push w2 ?k"
  have h2: "h_consumeOrderly h2 = False" "h_consumeMessageBatchMaxSize h2 = h_consumeMessageBatchMaxSize (u_push w ?k)"
    using al'(5) w1(5) assms(5) by (simp_all add: h2_def pull_stat_def h_def updatePullFromWhichNode_def)
  let ?n = "nat (h_consumeMessageBatchMaxSize (u_push w ?k))"
  have "size_t (h_consumeMessageBatchMaxSize (u_push w ?k)) = ?n" using assms(6,7) by (simp add: size_t_def u64_id)
  moreover obtain reqs where rq: "submit_chunks ?n ps = Some reqs" "concat reqs = ps" using submit_chunks_Some [of ?n ps] assms(6) by (auto simp: Suc_le_eq)
  ultimately have sub: "submitConsumeRequest h2 ?k ?a ps d v = Some (v\<lparr>u_works := u_works v @ [ConcurrentWork ?k ?a reqs]\<rparr>)" for v :: "'a pulling"
    by (simp add: submitConsumeRequest_def h2 conc_submitConsumeRequest_def)
  define w3 where "w3 = (set_pq ?k (pr_processQueue r) pq' w2)\<lparr>u_works := u_works w2 @ [ConcurrentWork ?k ?a reqs]\<rparr>"
  define w4 where "w4 = (if h_pullInterval h2 > 0 then executePullRequestLater ?a (h_pullInterval h2) w3 else executePullRequestImmediately ?a w3)"
  have "u_push (set_request ?a ?r (set_push ?k h w)) ?k = h" by (simp add: set_request_def set_push_def)
  then have found: "on_found env cb ?r pq msgs (set_request ?a ?r (set_push ?k h w)) = Some w4"
    using al ps' pm sub by (simp add: on_found_def w1_def [symmetric] h2_def [symmetric] Let_def w3_def [symmetric] w4_def)
      (simp add: w3_def set_pq_def)
  have "operationComplete env cb (Some response) w = Some w4"
    using found found_processed [OF assms(1,2), of "v_decompress env" "pr_messageQueue r" "cb_subscriptionData cb" "u_push w ?k"]
    by (simp add: operationComplete_def found_response [OF assms(1)] onSuccess_def assms(3,4) assms(8) [symmetric] h_def [symmetric] Let_def) (simp add: found_result_def)
  moreover have "u_heap w4 = u_heap w2" "w_pqs (rb_of ?k w4) (pr_processQueue r) = Some pq'" "u_works w4 = u_works w @ [ConcurrentWork ?k ?a reqs]"
    "u_requests w4 ?a = Some ?r" "?a \<in> set (m_pullRequestQueue w4) \<union> fst ` set (u_later w4)"
    using al' w1 by (auto simp: w4_def w3_def executePullRequestLater_def executePullRequestImmediately_def set_pq_def rb_of_def set_rb_def)
  ultimately show ?thesis using heap pf(1) rq(2) by auto
qed


lemma subscribed_automatically:
  assumes "map_wf str_lt any_key (m_subscriptionInner rb)"
  shows "fst (hasSubscribe topic (subscriptionAutomatically junk topic rb))"
  using str.find_map_of [OF str.put_wf [OF assms]] str.put_map_of [OF assms]
  by (auto simp: subscriptionAutomatically_def hasSubscribe_def buildSubscriptionData_def rb_subscribe_def Let_def split: option.splits)

text \<open>
  C40. A synchronous pull of the pull consumer returns what the broker holds. The request goes to the broker of the queue and carries the group, the topic, the queue,
  the offset and the number of messages the application asked for and the subscription it gave; when the broker answers with messages in its store format,
  the result has the offset to continue at and exactly the messages that pass the tag filter, and the topic is subscribed afterwards.
\<close>

theorem pullSync_returns_messages:
  assumes "l_serviceState c = RUNNING" "0 \<le> offset" "0 < maxNums" "isBlank (n_projectGroupPrefix ns)" "map_wf str_lt any_key (m_subscriptionInner (l_rebalance c))"
    and "buildSubscriptionData junk (m_topic mq) subExpression = Some (Inr sd)"
    and "find_pull_broker ns (l_wrapper c) mq (l_factory c) = Some ((addr, slave), f)" "addr \<noteq> []"
    and "header = PullMessageRequestHeader (m_consumerGroup (l_rebalance c)) (m_topic mq) (m_queueId mq) offset maxNums
      (if slave then clearCommitOffsetFlag (buildSysFlag False block True) else buildSysFlag False block True) 0 (l_brokerSuspendMaxTimeMillis c) (sd_subString sd) 0"
    and "answer addr header = Some response" "found_answer suggest nxt mn mx ms response"
  shows "\<exists>c'. pullSyncImpl ns dz junk answer mq subExpression offset maxNums block c =
      Some (Inr (found_result suggest nxt mn mx ms, delivered_msgs dz (found_result suggest nxt mn mx ms) sd ms, mq), c') \<and>
    fst (hasSubscribe (m_topic mq) (l_rebalance c')) \<and> recalculatePullFromWhichNode mq (l_wrapper c') = recalculatePullFromWhichNode mq (updatePullFromWhichNode mq suggest (l_wrapper c))"
proof -
  have grp: "m_consumerGroup (subscriptionAutomatically junk (m_topic mq) (l_rebalance c)) = m_consumerGroup (l_rebalance c)"
    by (simp add: subscriptionAutomatically_def rb_subscribe_def split: option.split sum.split)
  have pre: "with_project (n_projectGroupPrefix ns) s = Some s" for s using assms(4) by (simp add: with_project_def)
  define c1 where "c1 = c\<lparr>l_rebalance := subscriptionAutomatically junk (m_topic mq) (l_rebalance c), l_factory := f\<rparr>"
  have "pull_request ns junk mq subExpression offset maxNums block c = Some (Inr (addr, header, sd), c1)"
    using assms(6-9) by (simp add: pull_request_def pullKernelImpl_def pre grp c1_def Let_def)
  moreover have "pull_guards offset maxNums c = None" using assms(1-3) by (simp add: pull_guards_def makeSureStateOK_def)
  moreover have "l_wrapper c1 = l_wrapper c" by (simp add: c1_def)
  ultimately have "pullSyncImpl ns dz junk answer mq subExpression offset maxNums block c =
      Some (Inr (found_result suggest nxt mn mx ms, delivered_msgs dz (found_result suggest nxt mn mx ms) sd ms, mq),
        c1\<lparr>l_wrapper := updatePullFromWhichNode mq suggest (l_wrapper c)\<rparr>)"
    using assms(10) found_response [OF assms(11)] found_processed [OF assms(11,4)] by (simp add: pullSyncImpl_def pullMessageSync_def)
  then show ?thesis using subscribed_automatically [OF assms(5)] by (auto simp: c1_def)
qed

text \<open>
  Outside its running state, and for a negative offset or no messages wanted, a pull sends nothing, changes nothing and reports which of these it was.
\<close>

theorem pull_refused:
  assumes "l_serviceState c \<noteq> RUNNING \<or> offset < 0 \<or> maxNums \<le> 0"
  shows "\<exists>e. pullSyncImpl ns dz junk answer mq subExpression offset maxNums block c = Some (Inl e, c) \<and>
    pullAsyncImpl ns junk hasCallback mq subExpression offset maxNums block c = Some (Inl e, c) \<and>
    e = (if l_serviceState c \<noteq> RUNNING then state_not_ok else if offset < 0 then MQClientException ''offset < 0'' (-1) else MQClientException ''maxNums <= 0'' (-1))"
  using assms by (auto simp: pullSyncImpl_def pullAsyncImpl_def pull_guards_def makeSureStateOK_def)

section \<open>Samples\<close>

definition sample_stored :: "(int \<times> MessageExt \<times> string) list" where
  "sample_stored = [(1, MessageExt_new\<lparr>msg_topic := ''T'', msg_properties := [(''TAGS'', ''a'')]\<rparr>, ''body'')]"

definition sample_found :: RemotingCommand where
  "sample_found = (command_make 0 ''JAVA'' 0 0 1 '''' (Some (PullMessageResponseHeader 0 6 0 9)))
     \<lparr>cmd_body := Some (concat (map (\<lambda>(magic, m, body). wire magic m body) sample_stored))\<rparr>"

lemma sample_found_answer: "found_answer 0 6 0 9 sample_stored sample_found"
  by (simp add: found_answer_def sample_found_def sample_stored_def command_make_def wire_ok_def fields_ok_new no_nul_def plain_props_def plain_def
      NAME_VALUE_SEPARATOR_def PROPERTY_SEPARATOR_def wire_def Let_def SUCCESS_VALUE_def)

definition sample_callback :: pull_callback where
  "sample_callback = \<lparr>cb_request = 0, cb_consumer = 0, cb_subscriptionData = SubscriptionData_make 0 ''T'' ''*'', cb_beginTimestamp = 0, cb_addr = ''h:1'',
     cb_header = PullMessageRequestHeader ''g'' ''T'' 0 5 32 0 0 0 '''' 0\<rparr>"

theorem pull_delivers_messages_witness:
  "\<exists>w' m reqs. operationComplete sample_pull_env sample_callback (Some sample_found) sample_pulling = Some w' \<and>
    u_heap w' 0 = Some m \<and> msg_topic m = ''T'' \<and> u_works w' = [ConcurrentWork 0 0 reqs] \<and> concat reqs = [0]"
proof -
  let ?ms = "delivered_msgs (v_decompress sample_pull_env) (found_result 0 6 0 9 sample_stored) (cb_subscriptionData sample_callback) sample_stored"
  have len: "length ?ms = 1" "msg_topic (?ms ! 0) = ''T''" by code_simp+
  have s: "isBlank (n_projectGroupPrefix (v_ns sample_pull_env))" "u_requests sample_pulling (cb_request sample_callback) = Some (sample_request 0)"
    "w_pqs (rb_of (cb_consumer sample_callback) sample_pulling) (pr_processQueue (sample_request 0)) = Some (ProcessQueue_new 0)"
    "\<not> h_consumeOrderly (u_push sample_pulling (cb_consumer sample_callback))" "1 \<le> h_consumeMessageBatchMaxSize (u_push sample_pulling (cb_consumer sample_callback))"
    "h_consumeMessageBatchMaxSize (u_push sample_pulling (cb_consumer sample_callback)) \<le> 1024"
    by (simp_all add: sample_rb_of) (simp_all add: sample_pull_env_def sample_ns_def isBlank_def sample_pulling_def sample_callback_def sample_request_def sample_rb_def sample_push_def)
  have n: "u_nextMsg sample_pulling = 0" "u_works sample_pulling = []" "cb_consumer sample_callback = 0" "cb_request sample_callback = 0"
    by (simp_all add: sample_pulling_def sample_callback_def)
  obtain w' reqs where "operationComplete sample_pull_env sample_callback (Some sample_found) sample_pulling = Some w'" "\<forall>j < length ?ms. u_heap w' ([0..<length ?ms] ! j) = Some (?ms ! j)"
    "u_works w' = [ConcurrentWork 0 0 reqs]" "concat reqs = [0..<length ?ms]"
    using pull_delivers_messages [OF sample_found_answer s refl refl] n by auto
  then show ?thesis using len by auto
qed

definition sample_puller :: "(RemoteStore \<times> offset_send list) puller" where
  "sample_puller = \<lparr>l_serviceState = RUNNING, l_rebalance = sample_rb, l_wrapper = sample_push, l_brokerSuspendMaxTimeMillis = 20000,
     l_factory = u_factory sample_pulling\<rparr>"


theorem pullSync_returns_messages_witness:
  "\<exists>c'. pullSyncImpl sample_ns (\<lambda>_. None) 0 (\<lambda>_ _. Some sample_found) (sample_mq 0) ''*'' 5 32 True sample_puller =
      Some (Inr (found_result 0 6 0 9 sample_stored, delivered_msgs (\<lambda>_. None) (found_result 0 6 0 9 sample_stored) (SubscriptionData_make 0 ''T'' ''*'') sample_stored, sample_mq 0), c') \<and>
    fst (hasSubscribe ''T'' (l_rebalance c'))"
proof -
  have s: "l_serviceState sample_puller = RUNNING" "(0::int) \<le> 5" "(0::int) < 32" "isBlank (n_projectGroupPrefix sample_ns)"
    "map_wf str_lt any_key (m_subscriptionInner (l_rebalance sample_puller))" "m_topic (sample_mq 0) = ''T''"
    by (simp_all add: sample_puller_def sample_ns_def isBlank_def sample_rb_def sample_mq_def mq_make_def)
  have b: "buildSubscriptionData 0 (m_topic (sample_mq 0)) ''*'' = Some (Inr (SubscriptionData_make 0 ''T'' ''*''))" by code_simp
  have f: "find_pull_broker sample_ns (l_wrapper sample_puller) (sample_mq 0) (l_factory sample_puller) = Some ((''h:1'', False), l_factory sample_puller)"
    by (simp add: find_pull_broker_def recalculatePullFromWhichNode_def findBrokerAddressInSubscribe_def sample_puller_def sample_push_def sample_pulling_def
        sample_mq_def mq_make_def MASTER_ID_def s32_id)
  show ?thesis using pullSync_returns_messages [OF s(1-5) b f _ refl _ sample_found_answer, of "\<lambda>_ _. Some sample_found" True "\<lambda>_. None"] s(6) by auto
qed

theorem pull_refused_witness:
  "pullSyncImpl sample_ns (\<lambda>_. None) 0 (\<lambda>_ _. Some sample_found) (sample_mq 0) ''*'' (-1) 32 True sample_puller = Some (Inl (MQClientException ''offset < 0'' (-1)), sample_puller)"
  using pull_refused [of sample_puller "-1" 32 sample_ns "\<lambda>_. None" 0 "\<lambda>_ _. Some sample_found" "sample_mq 0" "''*''" True] by (auto simp: sample_puller_def)

end
