(* ===== verification/Spec2Isabelle.thy ===== *)
theory Spec2Isabelle
  imports Remoting_Client Client_Life Pull_Consumer
begin

text \<open>
  A model of the RocketMQ client library for C++ under \<open>src/src\<close> and \<open>src/include\<close>.

  \<^bold>\<open>The program.\<close> A process has one \<open>MQClientFactory\<close>. It holds the routes of the topics, asks a name server for them, and
  serves the producers and consumers registered with it. A producer chooses a queue of the route round robin and sends its message in a
  \<open>RemotingCommand\<close> through \<open>TcpRemotingClient\<close>, which keeps one \<open>TcpTransport\<close> per address and matches answers to
  requests by a number. A push consumer is told by \<open>RebalanceImpl\<close> which queues it owns (an \<open>AllocateMessageQueueStrategy\<close> computes
  the share). For each queue there is a \<open>ProcessQueue\<close> with the messages that were fetched and a \<open>PullRequest\<close> that travels between the
  thread of \<open>PullMessageService\<close>, timers and callbacks. Answers are taken apart by \<open>MessageDecoder\<close>, filtered by
  \<open>PullAPIWrapper\<close>, put into the process queue and handed to \<open>ConsumeMessageConcurrentlyService\<close> or
  \<open>ConsumeMessageOrderlyService\<close>. What was consumed is recorded in an \<open>OffsetStore\<close>, from where the next owner of the queue continues.

  \<^bold>\<open>Conventions\<close> (\<open>Prelude\<close>, \<open>C_Text\<close>, \<open>Json_Text\<close>). C integers are integers with the wrap-around written out (\<open>s32\<close>, \<open>s64\<close>,
  \<open>u32\<close>, \<open>u64\<close>); bit flags and byte orders are words. \<open>std::map\<close> and \<open>std::set\<close> are association lists sorted by the order the class
  defines, with the laws of the container in the locale \<open>std_map\<close>, interpreted for offsets, strings and message queues. Exceptions are values
  of \<open>mq_exception\<close> on the left of a sum. \<open>None\<close> of an operation that uses pointers is undefined behaviour of the program (a dangling pointer, an index
  out of range) or a loop that does not end, and each use says which. Objects on the heap are numbers in a finite map. The clock, the name server,
  the broker, the sockets, zlib and the JSON parser are arguments; \<open>Json_Text\<close> states what is asked of the parser (\<open>parser_ok\<close>: texts
  with plain strings and distinct keys are read back, integers within 32 bits as integers and larger ones as reals, as jsoncpp does) and gives a parser that has it.

  \<^bold>\<open>Theories and sources.\<close>
  \<^item> \<open>Atomic\<close>: \<open>kpr/AtomicValue.h\<close> and \<open>MixAll::compareAndIncreaseOnly\<close>. The value never decreases under any interference of other threads.
  \<^item> \<open>Message_Queue\<close>, \<open>Message_Data\<close>: \<open>message/MessageQueue.cpp\<close>, \<open>Message.cpp\<close>, \<open>MessageExt.cpp\<close>. Data, accessors and the container order.
  \<^item> \<open>Process_Queue\<close>: \<open>consumer/ProcessQueue.cpp\<close>. Every operation runs under the lock of the tree map and is one function. Batches are exact
    (locale \<open>batch_queue\<close>), counts are exact, and the offset reported is never past a message that is still waiting.
  \<^item> \<open>Allocate\<close>: \<open>consumer/AllocateMessageQueueStrategyInner.h\<close>. The shares partition the queues (locale \<open>allocation_strategy\<close>).
  \<^item> \<open>Util_All\<close>, \<open>Flags_Config\<close>, \<open>Subscription\<close>: \<open>common/UtilAll.cpp\<close>, \<open>Validators.cpp\<close>, \<open>VirtualEnvUtil.cpp\<close>, the flag classes, \<open>TopicConfig.cpp\<close>,
    \<open>FilterAPI\<close> and \<open>SubscriptionData\<close>.
  \<^item> \<open>Offset_Store\<close>, \<open>Offset_API\<close>: \<open>consumer/RemoteBrokerOffsetStore.cpp\<close>, \<open>LocalFileOffsetStore.cpp\<close>, \<open>OffsetSerializeWrapper.cpp\<close> and the offset
    calls of \<open>MQClientAPIImpl.cpp\<close> and \<open>MQAdminImpl.cpp\<close>. Both stores implement one contract (locale \<open>offset_memory\<close>).
  \<^item> \<open>Consume_Orderly\<close>, \<open>Consume_Concurrently\<close>: the two consume services. When clustering, the concurrent one loses no message of a live
    queue and acknowledges none before it was consumed or sent back. The orderly one runs against other threads, which may drop, lock, fill and delete its queue
    at the points where the source lets them (\<open>queue_event\<close>): in auto-commit mode its only memory error is the use of a dropped queue that the pull thread
    deleted; undisturbed, it drains its queue in order.
  \<^item> \<open>Rebalance\<close>: \<open>consumer/RebalanceImpl.cpp\<close>, \<open>RebalancePushImpl.cpp\<close>, \<open>RebalancePullImpl.cpp\<close>. A rebalance installs exactly the assignment,
    drops what it removes after its progress was persisted (the queues of topics no longer subscribed leave without), and keeps the lock marks equal to the broker's answer.
  \<^item> \<open>Message_Codec\<close>: \<open>message/MessageDecoder.cpp\<close>. A stream of stored messages is decoded into exactly those messages.
  \<^item> \<open>Transport\<close>: \<open>transport/TcpTransport.cpp\<close>. However a stream is cut into \<open>recv\<close> calls, the packets delivered are the frames of the stream.
  \<^item> \<open>Custom_Header\<close>, \<open>Remoting_Command\<close>: \<open>protocol/CommandCustomHeader.cpp\<close>, \<open>RemotingCommand.cpp\<close>. Encoding and decoding of commands.
  \<^item> \<open>Remoting_Client\<close>: \<open>transport/TcpRemotingClient.cpp\<close>, \<open>transport/ResponseFuture.cpp\<close>, as a step relation over the sending threads, the
    socket thread, the timer and the workers. A callback runs at most once, and an answer reaches the request with its number;
    an answer whose header cannot be read is lost with its callback. The machine stops at the first use of a freed future, and the theorems say from which states that can come.
  \<^item> \<open>Topic_Route\<close>: \<open>protocol/TopicRouteData.h\<close>, \<open>producer/TopicPublishInfo.h\<close>. Routes, their text form, their comparison, round robin
    (locale \<open>named_order\<close> for the sorted lists of brokers and queues).
  \<^item> \<open>Client_Factory\<close>: \<open>MQClientFactory.cpp\<close>. The tables, the route update, heartbeats and cleaning. Its locks are part of the result type \<open>locked\<close>,
    with the value \<open>Deadlocks\<close> for a thread that asks again for a mutex it holds.
  \<^item> \<open>Producer\<close>: \<open>producer/DefaultMQProducerImpl.cpp\<close> with the send calls of \<open>MQClientAPIImpl.cpp\<close>. The retry loop: which queues are tried,
    what each try sends, when it gives up.
  \<^item> \<open>Pull_Path\<close>: \<open>consumer/PullMessageService.cpp\<close>, \<open>PullAPIWrapper.cpp\<close>, \<open>ConsumerInvokeCallback.cpp\<close>, the pull part of
    \<open>DefaultMQPushConsumerImpl.cpp\<close>. Schedules of the service thread, the timers, the callbacks and the rebalances, over the models of all the parts above:
    every owned queue has exactly one pull request somewhere, except those whose broker could not be connected while their pull was sent, and these have none for good.
  \<^item> \<open>Pull_Consumer\<close>: \<open>consumer/DefaultMQPullConsumerImpl.cpp\<close>. The pulls an application makes itself, synchronous and with a callback, and what
    it is handed.
  \<^item> \<open>Thread_Pool\<close>: \<open>kpr/ThreadPool.cpp\<close>, \<open>kpr/ThreadPoolWork.h\<close>. The pool that runs the consume requests and callbacks, as a step relation:
    a work is run at most once, the number of workers stays within its bound, and a work may be left waiting for ever.
  \<^item> \<open>Timer_Thread\<close>: \<open>kpr/TimerThread.cpp\<close>, \<open>kpr/TimerTaskManager.cpp\<close>. Timers and the tasks they submit to the pool: a one-shot timer fires once,
    a task is not queued twice.
  \<^item> \<open>Client_Life\<close>: \<open>MQClientManager.cpp\<close>, the start, the shutdown and the configuration checks of the factory, the producer and the push consumer.
    The factory of a running consumer runs; shutting one producer down stops another of the same factory.

  \<^bold>\<open>How the parts are joined.\<close> \<open>Rebalance\<close> takes the store as a record of operations, instantiated with both stores, and calls the strategies of
  \<open>Allocate\<close> and the queues of \<open>Process_Queue\<close>. \<open>Client_Factory\<close> contains the rebalance states of its consumers and the publish
  tables of its producers. \<open>Pull_Path\<close> contains a factory, so that its theorems speak of a table changed by \<open>Rebalance\<close>, requests answered
  through \<open>Remoting_Command\<close> and bodies decoded by \<open>Message_Codec\<close>. \<open>Remoting_Client\<close> is beside them: the others see it as the three outcomes a call can have.

  \<^bold>\<open>Loops, fuel and schedules.\<close> Loops over containers are structural recursions. Loops that may not end are partial functions into an option type
  (\<open>split_loop\<close>, \<open>decodes_loop\<close>, \<open>ProcessData\<close>, \<open>submit_chunks\<close>), with lemmas that give their value on the inputs concerned, so their theorems
  say that they return. \<open>orderly_loop\<close> has a list of rounds as its argument, one per turn of the source's loop, with a theorem that
  one round more than messages waiting or arriving is enough. The retry loop of a compare-and-set runs over a list of what other threads write in between.
  \<open>send_loop\<close> makes the source's three attempts. The reference JSON parser has fuel bounded by the length of its input, which suffices by \<open>parser_ok\<close>.
  Threads are lists of actions (\<open>Remoting_Client\<close>, \<open>Pull_Path\<close>), and theorems quantify over all of them.

  \<^bold>\<open>Not modelled.\<close> Logging, the wrappers of threads, mutexes, conditions and monitors in \<open>kpr\<close> (their effect is the interleaving of
  actions and the locks of \<open>locked\<close>), sockets and files as such, the top addressing over HTTP, the administrative calls of \<open>MQClientAPIImpl\<close>
  and \<open>MQAdminImpl\<close> other than the offset calls, the date classes (they format times, and the times are arguments of the model), the
  vendored libraries (jsoncpp, zlib, spdlog), the examples and the tests.
\<close>

end
